(* ===== verification/Prelude.thy ===== *)
theory Prelude
  imports Main "HOL-Library.Word" "HOL-Library.Char_ord" "HOL-Library.List_Lexorder"
begin

text \<open>
  Shared vocabulary of the development: the machine integers and byte strings of the
  Rust code, the arithmetic of the standard library (\<open>saturating_add\<close>,
  \<open>checked_add\<close>, \<dots>), the \<open>str\<close> methods the sources call, and the generic lemmas the
  component theories rely on.

  A Rust \<open>String\<close> is its UTF-8 byte sequence, so \<open>string\<close> (a list of 8-bit characters)
  is used for it: \<open>len()\<close> is \<^const>\<open>length\<close>, \<open>bytes()\<close> is the list itself and
  \<open>chars()\<close> is the decoder \<open>utf8_chars\<close>.
\<close>

named_theorems word_nat "reading word arithmetic and comparisons as natural numbers"
named_theorems str_simps "evaluation rules for the string operations"

section \<open>Machine integers\<close>

type_synonym u8 = "8 word"
type_synonym u16 = "16 word"
type_synonym u32 = "32 word"
type_synonym u64 = "64 word"
type_synonym uuid = "128 word"

definition saturating_add :: "'a::len word \<Rightarrow> 'a word \<Rightarrow> 'a word" where
  "saturating_add a b = (if unat a + unat b < 2 ^ LENGTH('a) then a + b else - 1)"

definition saturating_sub :: "'a::len word \<Rightarrow> 'a word \<Rightarrow> 'a word" where
  "saturating_sub a b = (if b \<le> a then a - b else 0)"

definition checked_add :: "'a::len word \<Rightarrow> 'a word \<Rightarrow> 'a word option" where
  "checked_add a b = (if unat a + unat b < 2 ^ LENGTH('a) then Some (a + b) else None)"

definition checked_sub :: "'a::len word \<Rightarrow> 'a word \<Rightarrow> 'a word option" where
  "checked_sub a b = (if b \<le> a then Some (a - b) else None)"

lemma unat_minus_one_word: "unat (- 1 :: 'a::len word) = 2 ^ LENGTH('a) - 1"
  by (simp add: unsigned_minus_1_eq_mask mask_eq_exp_minus_1)

lemma unat_saturating_add [word_nat]:
  "unat (saturating_add a b) = min (unat a + unat b) (2 ^ LENGTH('a) - 1)"
  for a b :: "'a::len word"
proof (cases "unat a + unat b < 2 ^ LENGTH('a)")
  case True
  then show ?thesis
    by (simp add: saturating_add_def unat_word_ariths)
next
  case False
  then show ?thesis
    by (simp add: saturating_add_def unat_minus_one_word)
qed

lemma unat_saturating_sub [word_nat]: "unat (saturating_sub a b) = unat a - unat b"
  by (simp add: saturating_sub_def unat_sub word_le_nat_alt)

lemma checked_add_Some:
  "checked_add a b = Some c \<longleftrightarrow> unat a + unat b < 2 ^ LENGTH('a) \<and> c = a + b"
  for a b c :: "'a::len word"
  by (auto simp: checked_add_def)

lemma checked_add_None: "checked_add a b = None \<longleftrightarrow> 2 ^ LENGTH('a) \<le> unat a + unat b"
  for a b :: "'a::len word"
  by (auto simp: checked_add_def)

lemma unat_plus_no_wrap: "unat a + unat b < 2 ^ LENGTH('a) \<Longrightarrow> unat (a + b) = unat a + unat b"
  for a b :: "'a::len word"
  by (simp add: unat_word_ariths)

lemma checked_sub_Some: "checked_sub a b = Some c \<longleftrightarrow> b \<le> a \<and> c = a - b"
  by (auto simp: checked_sub_def)

lemma saturating_add_le: "a \<le> saturating_add a b" for a b :: "'a::len word"
proof -
  have "unat a < 2 ^ LENGTH('a)" by (rule unsigned_less)
  then have "unat a \<le> 2 ^ LENGTH('a) - 1" by linarith
  then show ?thesis by (simp add: word_le_nat_alt unat_saturating_add)
qed

lemma saturating_add_mono: "a \<le> b \<Longrightarrow> saturating_add a c \<le> saturating_add b c"
  by (simp add: word_le_nat_alt unat_saturating_add)

lemma saturating_add_gt: "a < b \<Longrightarrow> saturating_add c 1 \<le> b \<or> b \<le> c" for a b c :: "'a::len word"
  by (simp add: word_le_nat_alt word_less_nat_alt unat_saturating_add not_le) linarith

lemmas word_order_nat = word_le_nat_alt word_less_nat_alt

section \<open>Options and lists\<close>

lemma find_Some_mem: "find P xs = Some x \<Longrightarrow> x \<in> set xs \<and> P x"
  by (induction xs) (auto split: if_splits)

lemma find_None_all: "find P xs = None \<longleftrightarrow> (\<forall>x \<in> set xs. \<not> P x)"
  by (auto simp: find_None_iff)

fun position :: "('a \<Rightarrow> bool) \<Rightarrow> 'a list \<Rightarrow> nat option" where
  "position P [] = None"
| "position P (x # xs) = (if P x then Some 0 else map_option Suc (position P xs))"

lemma position_Some: "position P xs = Some i \<Longrightarrow> i < length xs \<and> P (xs ! i)"
  by (induction xs arbitrary: i) (auto split: if_splits)

lemma position_None: "position P xs = None \<longleftrightarrow> (\<forall>x \<in> set xs. \<not> P x)"
  by (induction xs) auto

text \<open>Updating the first element that satisfies a predicate: what
  \<open>iter_mut().find(p)\<close> followed by assignments to the found element does.\<close>

fun update_first :: "('a \<Rightarrow> bool) \<Rightarrow> ('a \<Rightarrow> 'a) \<Rightarrow> 'a list \<Rightarrow> 'a list" where
  "update_first P f [] = []"
| "update_first P f (x # xs) = (if P x then f x # xs else x # update_first P f xs)"

lemma length_update_first [simp]: "length (update_first P f xs) = length xs"
  by (induction xs) auto

lemma map_update_first: "(\<And>x. g (f x) = g x) \<Longrightarrow> map g (update_first P f xs) = map g xs"
  by (induction xs) auto

lemma update_first_none: "\<forall>x \<in> set xs. \<not> P x \<Longrightarrow> update_first P f xs = xs"
  by (induction xs) auto

lemma set_update_first: "y \<in> set (update_first P f xs) \<Longrightarrow> y \<in> set xs \<or> (\<exists>x \<in> set xs. P x \<and> y = f x)"
  by (induction xs) (auto split: if_splits)

lemma find_update_first: "(\<And>x. P x \<Longrightarrow> P (f x)) \<Longrightarrow> find P (update_first P f xs) = map_option f (find P xs)"
  by (induction xs) auto

text \<open>The element a Rust \<open>min_by_key\<close> picks: the first one with the least key.\<close>

fun min_by_key :: "('a \<Rightarrow> 'k::linorder) \<Rightarrow> 'a list \<Rightarrow> 'a option" where
  "min_by_key k [] = None"
| "min_by_key k (x # xs) =
     (case min_by_key k xs of None \<Rightarrow> Some x | Some y \<Rightarrow> Some (if k x \<le> k y then x else y))"

lemma min_by_key_Some: "min_by_key k xs = Some y \<Longrightarrow> y \<in> set xs \<and> (\<forall>x \<in> set xs. k y \<le> k x)"
proof (induction xs arbitrary: y)
  case Nil
  then show ?case by simp
next
  case (Cons x xs)
  show ?case
  proof (cases "min_by_key k xs")
    case None
    with Cons.prems have "y = x" by simp
    moreover from None have "xs = []"
      by (cases xs) (auto split: option.splits)
    ultimately show ?thesis by simp
  next
    case (Some z)
    with Cons.IH have "z \<in> set xs" "\<forall>x \<in> set xs. k z \<le> k x" by auto
    with Some Cons.prems show ?thesis
      by (auto split: if_splits intro: order_trans)
  qed
qed

lemma min_by_key_None [simp]: "min_by_key k xs = None \<longleftrightarrow> xs = []"
  by (cases xs) (auto split: option.splits)

section \<open>Characters and UTF-8\<close>

definition byte :: "char \<Rightarrow> nat" where
  "byte c = of_char c"

lemma byte_less [simp]: "byte c < 256"
  using nat_of_char_less_256 by (simp add: byte_def)

lemma char_of_byte [simp]: "char_of (byte c) = c"
  by (simp add: byte_def)

lemma byte_inject [simp]: "byte c = byte d \<longleftrightarrow> c = d"
  by (metis char_of_byte)

definition is_ascii_digit :: "char \<Rightarrow> bool" where
  "is_ascii_digit c \<longleftrightarrow> 48 \<le> byte c \<and> byte c \<le> 57"

definition is_ascii_uppercase :: "char \<Rightarrow> bool" where
  "is_ascii_uppercase c \<longleftrightarrow> 65 \<le> byte c \<and> byte c \<le> 90"

definition is_ascii_lowercase :: "char \<Rightarrow> bool" where
  "is_ascii_lowercase c \<longleftrightarrow> 97 \<le> byte c \<and> byte c \<le> 122"

definition is_ascii_alphanumeric :: "char \<Rightarrow> bool" where
  "is_ascii_alphanumeric c \<longleftrightarrow> is_ascii_digit c \<or> is_ascii_uppercase c \<or> is_ascii_lowercase c"

definition is_ascii_hexdigit :: "char \<Rightarrow> bool" where
  "is_ascii_hexdigit c \<longleftrightarrow> is_ascii_digit c \<or> (65 \<le> byte c \<and> byte c \<le> 70) \<or> (97 \<le> byte c \<and> byte c \<le> 102)"

text \<open>\<open>char::is_ascii_whitespace\<close>: space, tab, line feed, form feed and carriage return.\<close>

definition is_ascii_whitespace :: "char \<Rightarrow> bool" where
  "is_ascii_whitespace c \<longleftrightarrow> byte c \<in> {32, 9, 10, 12, 13}"

definition is_ascii :: "string \<Rightarrow> bool" where
  "is_ascii s \<longleftrightarrow> (\<forall>c \<in> set s. byte c < 128)"

definition ascii_lower :: "char \<Rightarrow> char" where
  "ascii_lower c = (if is_ascii_uppercase c then char_of (byte c + 32) else c)"

definition to_ascii_lowercase :: "string \<Rightarrow> string" where
  "to_ascii_lowercase s = map ascii_lower s"

text \<open>\<open>str::chars\<close>: the Unicode scalar values of a UTF-8 byte sequence.\<close>

fun utf8_chars :: "string \<Rightarrow> nat list" where
  "utf8_chars [] = []"
| "utf8_chars (a # s) =
     (if byte a < 128 then byte a # utf8_chars s
      else if byte a < 224 then
        (case s of b # t \<Rightarrow> ((byte a - 192) * 64 + (byte b - 128)) # utf8_chars t | _ \<Rightarrow> [])
      else if byte a < 240 then
        (case s of b # c # t \<Rightarrow>
           ((byte a - 224) * 4096 + (byte b - 128) * 64 + (byte c - 128)) # utf8_chars t | _ \<Rightarrow> [])
      else
        (case s of b # c # d # t \<Rightarrow>
           ((byte a - 240) * 262144 + (byte b - 128) * 4096 + (byte c - 128) * 64 + (byte d - 128))
             # utf8_chars t | _ \<Rightarrow> []))"

definition utf8_encode_char :: "nat \<Rightarrow> string" where
  "utf8_encode_char n =
     (if n < 128 then [char_of n]
      else if n < 2048 then [char_of (192 + n div 64), char_of (128 + n mod 64)]
      else if n < 65536 then
        [char_of (224 + n div 4096), char_of (128 + n div 64 mod 64), char_of (128 + n mod 64)]
      else [char_of (240 + n div 262144), char_of (128 + n div 4096 mod 64),
            char_of (128 + n div 64 mod 64), char_of (128 + n mod 64)])"

definition utf8_encode :: "nat list \<Rightarrow> string" where
  "utf8_encode cs = concat (map utf8_encode_char cs)"

lemma byte_char_of [simp]: "n < 256 \<Longrightarrow> byte (char_of n) = n"
  by (simp add: byte_def of_char_of)

lemma base64_digits:
  "n div 64 * 64 + n mod 64 = (n::nat)"
  "n div 4096 * 4096 + n div 64 mod 64 * 64 + n mod 64 = n"
  "n div 262144 * 262144 + n div 4096 mod 64 * 4096 + n div 64 mod 64 * 64 + n mod 64 = n"
proof -
  have q: "n div 4096 = n div 64 div 64" "n div 262144 = n div 64 div 64 div 64"
    by (simp_all add: div_mult2_eq [symmetric])
  define a where "a = n div 64"
  define b where "b = a div 64"
  define c where "c = b div 64"
  have s: "a * 64 + n mod 64 = n" "b * 64 + a mod 64 = a" "c * 64 + b mod 64 = b"
    by (simp_all add: a_def b_def c_def)
  show "n div 64 * 64 + n mod 64 = n" by simp
  show "n div 4096 * 4096 + n div 64 mod 64 * 64 + n mod 64 = n"
    unfolding q a_def [symmetric] b_def [symmetric] using s by linarith
  show "n div 262144 * 262144 + n div 4096 mod 64 * 4096 + n div 64 mod 64 * 64 + n mod 64 = n"
    unfolding q a_def [symmetric] b_def [symmetric] c_def [symmetric] using s by linarith
qed

lemma utf8_chars_encode_char:
  assumes "n < 1114112"
  shows "utf8_chars (utf8_encode_char n @ s) = n # utf8_chars s"
proof -
  have m: "k mod 64 < 64" for k :: nat by simp
  consider "n < 128" | "128 \<le> n" "n < 2048" | "2048 \<le> n" "n < 65536" | "65536 \<le> n"
    by linarith
  then show ?thesis
  proof cases
    case 1
    then show ?thesis by (simp add: utf8_encode_char_def)
  next
    case 2
    define q r where "q = n div 64" and "r = n mod 64"
    have "n = q * 64 + r" "2 \<le> q" "q < 32" "r < 64"
      using 2 by (auto simp: q_def r_def)
    moreover have "utf8_encode_char n = [char_of (192 + q), char_of (128 + r)]"
      using 2 by (simp add: utf8_encode_char_def q_def r_def)
    ultimately show ?thesis by simp
  next
    case 3
    then have "n div 4096 < 16" by auto
    then show ?thesis using 3 m [of n] m [of "n div 64"] base64_digits(2) [of n]
      by (simp add: utf8_encode_char_def del: div_mult_mod_eq mod_less_divisor)
  next
    case 4
    have "n div 262144 < 5" using assms by auto
    then show ?thesis using 4 m [of n] m [of "n div 64"] m [of "n div 4096"] base64_digits(3) [of n]
      by (simp add: utf8_encode_char_def del: div_mult_mod_eq mod_less_divisor)
  qed
qed

text \<open>Encoding is left-inverse to decoding on scalar values.\<close>

lemma utf8_chars_encode: "\<forall>c \<in> set cs. c < 1114112 \<Longrightarrow> utf8_chars (utf8_encode cs) = cs"
  by (induction cs) (auto simp: utf8_encode_def utf8_chars_encode_char)

lemma utf8_chars_ascii: "is_ascii s \<Longrightarrow> utf8_chars s = map byte s"
  by (induction s) (auto simp: is_ascii_def)

lemma utf8_encode_ascii: "is_ascii s \<Longrightarrow> utf8_encode (map byte s) = s"
  by (induction s) (auto simp: utf8_encode_def is_ascii_def utf8_encode_char_def)

section \<open>String operations\<close>

text \<open>The characters with the Unicode \<open>White_Space\<close> property (\<open>char::is_whitespace\<close>) and
  those of the category \<open>Cc\<close> (\<open>char::is_control\<close>), as scalar values.\<close>

definition is_whitespace :: "nat \<Rightarrow> bool" where
  "is_whitespace c \<longleftrightarrow>
     (9 \<le> c \<and> c \<le> 13) \<or> c = 32 \<or> c = 133 \<or> c = 160 \<or> c = 5760 \<or> (8192 \<le> c \<and> c \<le> 8202) \<or>
     c = 8232 \<or> c = 8233 \<or> c = 8239 \<or> c = 8287 \<or> c = 12288"

definition is_control :: "nat \<Rightarrow> bool" where
  "is_control c \<longleftrightarrow> c < 32 \<or> (127 \<le> c \<and> c < 160)"

definition trim_chars :: "nat list \<Rightarrow> nat list" where
  "trim_chars cs = rev (dropWhile is_whitespace (rev (dropWhile is_whitespace cs)))"

definition trim :: "string \<Rightarrow> string" where
  "trim s = utf8_encode (trim_chars (utf8_chars s))"

definition valid_str :: "string \<Rightarrow> bool" where
  "valid_str s \<longleftrightarrow> (\<forall>c \<in> set (utf8_chars s). c < 1114112)"

lemma trim_chars_idem [simp]: "trim_chars (trim_chars cs) = trim_chars cs"
proof -
  define ys where "ys = dropWhile is_whitespace cs"
  define zs where "zs = dropWhile is_whitespace (rev ys)"
  have t: "trim_chars cs = rev zs" by (simp add: trim_chars_def ys_def zs_def)
  have "dropWhile is_whitespace (rev zs) = rev zs"
  proof (cases "zs = []")
    case False
    obtain ws where "rev ys = ws @ zs" "\<forall>c \<in> set ws. is_whitespace c"
      using that [of "takeWhile is_whitespace (rev ys)"] by (simp add: zs_def) (meson set_takeWhileD)
    then have "ys = rev zs @ rev ws" by (metis rev_append rev_rev_ident)
    then have "hd ys = hd (rev zs)" and "ys \<noteq> []" using False by auto
    moreover have "\<not> is_whitespace (hd ys)"
      using \<open>ys \<noteq> []\<close> hd_dropWhile unfolding ys_def by blast
    ultimately show ?thesis using False by (cases "rev zs") auto
  qed simp
  moreover have "dropWhile is_whitespace zs = zs" by (simp add: zs_def dropWhile_idem)
  ultimately show ?thesis using t by (simp add: trim_chars_def)
qed

lemma set_trim_chars: "set (trim_chars cs) \<subseteq> set cs"
  unfolding trim_chars_def by (auto dest!: set_dropWhileD)

lemma trim_chars_no_ws: "\<forall>c \<in> set cs. \<not> is_whitespace c \<Longrightarrow> trim_chars cs = cs"
proof -
  assume h: "\<forall>c \<in> set cs. \<not> is_whitespace c"
  have "dropWhile is_whitespace xs = xs" if "set xs \<subseteq> set cs" for xs
    using that h by (cases xs) auto
  then show ?thesis by (simp add: trim_chars_def)
qed

lemma utf8_chars_trim: "valid_str s \<Longrightarrow> utf8_chars (trim s) = trim_chars (utf8_chars s)"
  unfolding trim_def valid_str_def using set_trim_chars by (intro utf8_chars_encode) blast

lemma trim_idem: "valid_str s \<Longrightarrow> trim (trim s) = trim s"
  by (simp add: trim_def [of "trim s"] utf8_chars_trim) (simp add: trim_def)

lemma trim_ascii_no_ws: "is_ascii s \<Longrightarrow> \<forall>c \<in> set s. \<not> is_whitespace (byte c) \<Longrightarrow> trim s = s"
  by (simp add: trim_def utf8_chars_ascii trim_chars_no_ws utf8_encode_ascii)

definition starts_with :: "string \<Rightarrow> string \<Rightarrow> bool" where
  "starts_with p s \<longleftrightarrow> take (length p) s = p"

definition strip_prefix :: "string \<Rightarrow> string \<Rightarrow> string option" where
  "strip_prefix p s = (if starts_with p s then Some (drop (length p) s) else None)"

fun contains_sub :: "string \<Rightarrow> string \<Rightarrow> bool" where
  "contains_sub p [] = (p = [])"
| "contains_sub p (c # s) = (starts_with p (c # s) \<or> contains_sub p s)"

text \<open>\<open>str::split_once\<close> at an ASCII character.\<close>

fun split_once :: "char \<Rightarrow> string \<Rightarrow> (string \<times> string) option" where
  "split_once d [] = None"
| "split_once d (c # s) =
     (if c = d then Some ([], s) else map_option (\<lambda>(a, b). (c # a, b)) (split_once d s))"

text \<open>\<open>str::split\<close> at an ASCII character.\<close>

fun split_on :: "char \<Rightarrow> string \<Rightarrow> string list" where
  "split_on d [] = [[]]"
| "split_on d (c # s) =
     (if c = d then [] # split_on d s
      else (case split_on d s of [] \<Rightarrow> [[c]] | p # ps \<Rightarrow> (c # p) # ps))"

lemma starts_with_iff: "starts_with p s \<longleftrightarrow> (\<exists>t. s = p @ t)"
  unfolding starts_with_def by (metis append_eq_conv_conj append_take_drop_id)

lemma starts_with_append [simp]: "starts_with p (p @ s)"
  by (simp add: starts_with_def)

lemma strip_prefix_append [simp]: "strip_prefix p (p @ s) = Some s"
  by (simp add: strip_prefix_def)

lemma strip_prefix_Some: "strip_prefix p s = Some t \<longleftrightarrow> s = p @ t"
  by (auto simp: strip_prefix_def starts_with_def) (metis append_take_drop_id)

lemma split_once_append: "split_once d s = Some (a, b) \<Longrightarrow> s = a @ d # b \<and> d \<notin> set a"
  by (induction s arbitrary: a) (auto split: if_splits)

lemma split_once_None: "split_once d s = None \<longleftrightarrow> d \<notin> set s"
  by (induction s) auto

lemma split_on_not_Nil [simp]: "split_on d s \<noteq> []"
  by (cases s) (auto split: list.splits)

lemma split_on_mem: "l \<in> set (split_on d s) \<Longrightarrow> set l \<subseteq> set s - {d}"
proof (induction s arbitrary: l)
  case (Cons c s)
  obtain p ps where p: "split_on d s = p # ps" by (cases "split_on d s") auto
  have "set p \<subseteq> set s - {d}" using Cons.IH [of p] p by simp
  moreover have "\<And>l. l \<in> set ps \<Longrightarrow> set l \<subseteq> set s - {d}" using Cons.IH p by simp
  ultimately show ?case using Cons.prems p by (auto split: if_splits)
qed simp

lemma set_split_on: "c \<in> set s \<Longrightarrow> c \<noteq> d \<Longrightarrow> \<exists>l \<in> set (split_on d s). c \<in> set l"
proof (induction s)
  case (Cons x s)
  obtain p ps where "split_on d s = p # ps" by (cases "split_on d s") auto
  with Cons show ?case by auto
qed simp

text \<open>Decimal formatting of an unsigned integer.\<close>

fun dec_string :: "nat \<Rightarrow> string" where
  "dec_string n = (if n < 10 then [char_of (48 + n)] else dec_string (n div 10) @ [char_of (48 + n mod 10)])"

declare dec_string.simps [simp del]

lemma div_mod_eq_imp_eq: "m div k = n div k \<Longrightarrow> m mod k = n mod k \<Longrightarrow> m = (n::nat)"
  by (metis div_mult_mod_eq)

lemma dec_string_inject [simp]: "dec_string m = dec_string n \<longleftrightarrow> m = n"
proof (induction m arbitrary: n rule: less_induct)
  case (less m)
  have ne: "dec_string k \<noteq> []" for k by (subst dec_string.simps) simp
  have digit: "char_of (48 + i) = (char_of (48 + j) :: char) \<longleftrightarrow> i = j" if "i < 10" "j < 10" for i j :: nat
  proof
    assume "char_of (48 + i) = (char_of (48 + j) :: char)"
    then have "byte (char_of (48 + i)) = byte (char_of (48 + j))" by simp
    then show "i = j" using that by simp
  qed simp
  show ?case
  proof (cases "m < 10")
    case True
    then show ?thesis
      by (cases "n < 10")
        (simp_all add: dec_string.simps [of m] dec_string.simps [of n] digit ne ne [symmetric])
  next
    case False
    then have IH: "dec_string (m div 10) = dec_string (n div 10) \<longleftrightarrow> m div 10 = n div 10"
      using less.IH [of "m div 10"] by simp
    show ?thesis
    proof (cases "n < 10")
      case True
      with False show ?thesis
        by (auto simp: dec_string.simps [of m] dec_string.simps [of n] ne)
    next
      case n: False
      have "dec_string m = dec_string n \<longleftrightarrow> m div 10 = n div 10 \<and> m mod 10 = n mod 10"
        using False n by (simp add: dec_string.simps [of m] dec_string.simps [of n] IH digit)
      then show ?thesis using div_mod_eq_imp_eq [of m 10 n] by auto
    qed
  qed
qed

lemma unat_u64_less [word_nat]: "unat (n :: u64) < 18446744073709551616"
  using unsigned_less [of n, where ?'a = nat] by simp

lemma unat_of_nat_u64 [word_nat]: "i < 18446744073709551616 \<Longrightarrow> unat (of_nat i :: u64) = i"
  by (simp add: unsigned_of_nat take_bit_nat_eq_self)

definition dec_value :: "string \<Rightarrow> nat" where
  "dec_value s = foldl (\<lambda>n c. 10 * n + (of_char c - 48)) 0 s"

lemma dec_value_snoc: "dec_value (s @ [c]) = 10 * dec_value s + (of_char c - 48)"
  by (simp add: dec_value_def)

lemma dec_value_dec_string [simp]: "dec_value (dec_string n) = n"
proof (induction n rule: less_induct)
  case (less n)
  show ?case
  proof (cases "n < 10")
    case True
    then show ?thesis by (simp add: dec_string.simps [of n] dec_value_def)
  next
    case False
    then have "dec_value (dec_string (n div 10)) = n div 10" using less.IH [of "n div 10"] by simp
    moreover have "48 + n mod 10 < 256" by (simp add: less_trans [of _ 58])
    ultimately show ?thesis using False
      by (simp add: dec_string.simps [of n] dec_value_snoc)
  qed
qed

text \<open>\<open>str::parse::<u64>\<close>: decimal digits after an optional plus sign, in range.\<close>

definition parse_u64 :: "string \<Rightarrow> u64 option" where
  "parse_u64 s = (let d = (if starts_with ''+'' s then drop 1 s else s) in
     if d = [] \<or> \<not> list_all is_ascii_digit d \<or> dec_value d \<ge> 2 ^ 64 then None
     else Some (of_nat (dec_value d)))"

end
