(* ===== verification/Records.thy ===== *)
theory Records
  imports Prelude
begin

text \<open>
  The durable records of the store (\<open>src/src/store\<close>, \<open>src/src/jwt\<close>), field by field, and the
  values SableDB holds under the keys of the realm. Values of third-party types the code
  only passes around (a WebAuthn \<open>Passkey\<close>, an \<open>AuthenticationResult\<close>, ceremony
  states) are opaque strings: the model never looks inside them.

  A stored JSON document is the record it encodes: \<open>serde_json::to_string\<close> is the constructor
  of \<open>value\<close> and \<open>serde_json::from_str\<close> the partial projection \<open>as_user\<close>, \<open>as_session\<close>,
  \<dots>, which fails on a document of another type.
\<close>

type_synonym passkey = string
type_synonym auth_result = string
type_synonym ceremony_state = string

text \<open>\<open>serde_json::Value\<close>; object members in the order they are written.\<close>

datatype json = JNull | JBool bool | JNum nat | JStr string | JArr "json list" | JObj "(string \<times> json) list"

section \<open>Accounts\<close>

datatype IdentifierKind = Email | Phone

record IdentifierValue =
  iv_kind :: IdentifierKind
  iv_value :: string

record AccountIdentifier =
  ai_kind :: IdentifierKind
  ai_value :: string
  ai_verified :: bool
  ai_verified_at :: "u64 option"
  ai_primary :: bool
  ai_created_at :: u64

record AccountProfile =
  given_name :: "string option"
  family_name :: "string option"
  display_name :: "string option"

record StoredPasskey =
  pk_id :: string
  pk_label :: string
  pk_counter :: u32
  pk_created_at :: u64
  pk_last_used_at :: "u64 option"
  pk_passkey :: passkey

record RecoveryCodeRecord =
  rc_digest :: string
  rc_created_at :: u64

record User =
  user_id :: uuid
  user_email :: string
  user_email_verified :: bool
  user_profile :: AccountProfile
  user_identifiers :: "AccountIdentifier list"
  user_session_version :: u64
  user_recovery_codes :: "RecoveryCodeRecord list"
  user_created_at :: u64
  user_passkeys :: "StoredPasskey list"

section \<open>Sessions, ceremonies and one-time codes\<close>

record Session =
  sess_id :: uuid
  sess_user_id :: uuid
  sess_auth_method :: string
  sess_credential_id :: "string option"
  sess_version :: u64
  sess_created_at :: u64
  sess_step_up_at :: "u64 option"
  sess_last_seen_at :: u64
  sess_absolute_expires_at :: u64

datatype SessionOrigin = PasskeyOrigin string | DeviceOrigin string | AgentOrigin

datatype RegistrationPurpose = Initial | AddCredential | RecoverAccount

record RegistrationCeremony =
  reg_id :: uuid
  reg_user_id :: uuid
  reg_email :: string
  reg_identifier :: "IdentifierValue option"
  reg_profile :: AccountProfile
  reg_purpose :: RegistrationPurpose
  reg_initiating_session_id :: "uuid option"
  reg_invitation_id :: "uuid option"
  reg_invitation_digest :: "string option"
  reg_label :: "string option"
  reg_expires_at :: u64
  reg_state :: ceremony_state

datatype AuthenticationPurpose = SignIn | StepUp

record AuthenticationCeremony =
  auth_id :: uuid
  auth_user_id :: uuid
  auth_purpose :: AuthenticationPurpose
  auth_initiating_session_id :: "uuid option"
  auth_expires_at :: u64
  auth_state :: ceremony_state

record LocalAgentHandoff =
  handoff_user_id :: uuid
  handoff_redirect_url :: string
  handoff_expires_at :: u64

record AccountInvitationRecord =
  inv_id :: uuid
  inv_identifier :: IdentifierValue
  inv_code_digest :: string
  inv_created_by :: uuid
  inv_created_at :: u64
  inv_expires_at :: u64
  inv_consumed_at :: "u64 option"
  inv_revoked_at :: "u64 option"

record IdentifierVerificationChallenge =
  ivc_id :: uuid
  ivc_user_id :: uuid
  ivc_identifier :: IdentifierValue
  ivc_code_digest :: string
  ivc_created_at :: u64
  ivc_expires_at :: u64

section \<open>Events, operators and service accounts\<close>

record AuthEvent =
  ev_sequence :: u64
  ev_id :: uuid
  ev_tenant_id :: string
  ev_type :: string
  ev_subject :: "uuid option"
  ev_occurred_at :: u64
  ev_data :: json

datatype OperatorRoleRecord = Owner | Administrator | Support | Auditor

record OrganizationRecord =
  org_id :: uuid
  org_slug :: string
  org_name :: string
  org_created_at :: u64

record OperatorRecord =
  op_user_id :: uuid
  op_role :: OperatorRoleRecord
  op_created_at :: u64
  op_revoked_at :: "u64 option"

datatype ServiceAccountStatusRecord = SA_Active | SA_Disabled

record ServiceAccountCredentialRecord =
  sac_id :: uuid
  sac_name :: string
  sac_secret_hint :: string
  sac_created_at :: u64
  sac_expires_at :: "u64 option"
  sac_last_used_at :: "u64 option"
  sac_revoked_at :: "u64 option"

record ServiceAccountRecord =
  sa_id :: uuid
  sa_name :: string
  sa_description :: string
  sa_status :: ServiceAccountStatusRecord
  sa_scopes :: "string list"
  sa_credentials :: "ServiceAccountCredentialRecord list"
  sa_created_at :: u64
  sa_created_by :: uuid
  sa_last_used_at :: "u64 option"

record ServiceAccountGrant =
  grant_service_account_id :: uuid
  grant_scopes :: "string list"

record ServiceCredentialLocator =
  loc_service_account_id :: uuid
  loc_credential_id :: uuid

section \<open>Webhook destinations\<close>

datatype WebhookStatusRecord = WH_Active | WH_Paused | WH_Failing

datatype WebhookManagementSourceRecord = WH_Dashboard | WH_Configuration

datatype WebhookDeliveryStatusRecord = WD_Pending | WD_Succeeded | WD_Retrying | WD_Failed

record EncryptedWebhookSecret =
  ews_wrapping_key_id :: string
  ews_nonce :: string
  ews_ciphertext :: string

record WebhookRecord =
  wh_id :: string
  wh_name :: string
  wh_url :: string
  wh_status :: WebhookStatusRecord
  wh_event_types :: "string list"
  wh_secret :: EncryptedWebhookSecret
  wh_secret_hint :: string
  wh_management_source :: WebhookManagementSourceRecord
  wh_created_at :: u64
  wh_updated_at :: u64
  wh_last_delivery_at :: "u64 option"

record WebhookDeliveryRecord =
  wd_id :: uuid
  wd_webhook_id :: string
  wd_event_sequence :: u64
  wd_event_id :: uuid
  wd_event_type :: string
  wd_status :: WebhookDeliveryStatusRecord
  wd_attempt_count :: u32
  wd_response_status :: "u16 option"
  wd_latency_milliseconds :: u64
  wd_created_at :: u64
  wd_next_attempt_at :: "u64 option"
  wd_completed_at :: "u64 option"
  wd_error_class :: string

section \<open>Signing keys\<close>

record EncryptedPrivateKey =
  epk_wrapping_key_id :: string
  epk_nonce :: string
  epk_ciphertext :: string

record StoredSigningKey =
  key_kid :: string
  key_public_jwk :: json
  key_created_at :: u64
  key_encrypted :: EncryptedPrivateKey

record StagedSigningKey =
  staged_key :: StoredSigningKey
  staged_activate_at :: u64

record RetiredPublicKey =
  retired_kid :: string
  retired_public_jwk :: json
  retired_publish_until :: u64

record StoredKeySet =
  ks_version :: u8
  ks_active :: StoredSigningKey
  ks_staged :: "StagedSigningKey option"
  ks_retired :: "RetiredPublicKey list"

record LegacyStoredKey =
  legacy_kid :: string
  legacy_public_jwk :: json
  legacy_nonce :: string
  legacy_encrypted_private_key :: string

section \<open>Fleet grants and remote mutations\<close>

record RealmPairingRecord =
  pairing_id :: uuid
  pairing_realm_id :: string
  pairing_control_plane_origin :: string
  pairing_requested_scopes :: "string list"
  pairing_created_by :: uuid
  pairing_created_at :: u64
  pairing_expires_at :: u64

record RealmFleetGrantRecord =
  fg_connection_id :: uuid
  fg_realm_id :: string
  fg_control_plane_origin :: string
  fg_control_plane_instance_id :: string
  fg_assignment_epoch :: u64
  fg_credential_digest :: string
  fg_credential_hint :: string
  fg_granted_scopes :: "string list"
  fg_created_at :: u64
  fg_expires_at :: u64
  fg_revoked_at :: "u64 option"

record RealmFleetGrantRotationRecord =
  fgr_connection_id :: uuid
  fgr_credential_digest :: string
  fgr_completed_at :: u64

datatype RemoteMutationState = RM_Pending | RM_Completed

record RemoteMutationReceipt =
  rmr_digest :: string
  rmr_state :: RemoteMutationState
  rmr_claimed_at :: u64
  rmr_completed_at :: "u64 option"
  rmr_succeeded :: "bool option"
  rmr_summary :: string

section \<open>Stored values\<close>

datatype "value" =
    VStr string
  | VNum u64
  | VUser User
  | VSession Session
  | VRegistration RegistrationCeremony
  | VAuthentication AuthenticationCeremony
  | VHandoff LocalAgentHandoff
  | VInvitation AccountInvitationRecord
  | VChallenge IdentifierVerificationChallenge
  | VEvent AuthEvent
  | VOrganization OrganizationRecord
  | VOperator OperatorRecord
  | VServiceAccount ServiceAccountRecord
  | VLocator ServiceCredentialLocator
  | VWebhook WebhookRecord
  | VDelivery WebhookDeliveryRecord
  | VKeySet StoredKeySet
  | VLegacyKey LegacyStoredKey
  | VPairing RealmPairingRecord
  | VGrant RealmFleetGrantRecord
  | VGrantRotation RealmFleetGrantRotationRecord
  | VReceipt RemoteMutationReceipt

fun as_user :: "value \<Rightarrow> User option" where
  "as_user (VUser u) = Some u" | "as_user _ = None"

fun as_session :: "value \<Rightarrow> Session option" where
  "as_session (VSession s) = Some s" | "as_session _ = None"

fun as_registration :: "value \<Rightarrow> RegistrationCeremony option" where
  "as_registration (VRegistration c) = Some c" | "as_registration _ = None"

fun as_authentication :: "value \<Rightarrow> AuthenticationCeremony option" where
  "as_authentication (VAuthentication c) = Some c" | "as_authentication _ = None"

fun as_handoff :: "value \<Rightarrow> LocalAgentHandoff option" where
  "as_handoff (VHandoff h) = Some h" | "as_handoff _ = None"

fun as_invitation :: "value \<Rightarrow> AccountInvitationRecord option" where
  "as_invitation (VInvitation i) = Some i" | "as_invitation _ = None"

fun as_challenge :: "value \<Rightarrow> IdentifierVerificationChallenge option" where
  "as_challenge (VChallenge c) = Some c" | "as_challenge _ = None"

fun as_event :: "value \<Rightarrow> AuthEvent option" where
  "as_event (VEvent e) = Some e" | "as_event _ = None"

fun as_organization :: "value \<Rightarrow> OrganizationRecord option" where
  "as_organization (VOrganization r) = Some r" | "as_organization _ = None"

fun as_operator :: "value \<Rightarrow> OperatorRecord option" where
  "as_operator (VOperator r) = Some r" | "as_operator _ = None"

fun as_service_account :: "value \<Rightarrow> ServiceAccountRecord option" where
  "as_service_account (VServiceAccount r) = Some r" | "as_service_account _ = None"

fun as_locator :: "value \<Rightarrow> ServiceCredentialLocator option" where
  "as_locator (VLocator r) = Some r" | "as_locator _ = None"

fun as_webhook :: "value \<Rightarrow> WebhookRecord option" where
  "as_webhook (VWebhook r) = Some r" | "as_webhook _ = None"

fun as_delivery :: "value \<Rightarrow> WebhookDeliveryRecord option" where
  "as_delivery (VDelivery r) = Some r" | "as_delivery _ = None"

fun as_keyset :: "value \<Rightarrow> StoredKeySet option" where
  "as_keyset (VKeySet r) = Some r" | "as_keyset _ = None"

fun as_legacy_key :: "value \<Rightarrow> LegacyStoredKey option" where
  "as_legacy_key (VLegacyKey r) = Some r" | "as_legacy_key _ = None"

fun as_pairing :: "value \<Rightarrow> RealmPairingRecord option" where
  "as_pairing (VPairing r) = Some r" | "as_pairing _ = None"

fun as_grant :: "value \<Rightarrow> RealmFleetGrantRecord option" where
  "as_grant (VGrant r) = Some r" | "as_grant _ = None"

fun as_grant_rotation :: "value \<Rightarrow> RealmFleetGrantRotationRecord option" where
  "as_grant_rotation (VGrantRotation r) = Some r" | "as_grant_rotation _ = None"

fun as_receipt :: "value \<Rightarrow> RemoteMutationReceipt option" where
  "as_receipt (VReceipt r) = Some r" | "as_receipt _ = None"

text \<open>Reading a plain value as a Rust \<open>String\<close> or \<open>u64\<close>. A number read as a string is its
  decimal text.\<close>

fun as_num :: "value \<Rightarrow> u64 option" where
  "as_num (VNum n) = Some n" | "as_num _ = None"

fun as_str :: "value \<Rightarrow> string option" where
  "as_str (VStr s) = Some s" | "as_str (VNum n) = Some (dec_string (unat n))" | "as_str _ = None"

lemma as_user_Some [simp]: "as_user v = Some x \<longleftrightarrow> v = VUser x"
  by (cases v) auto

lemma as_session_Some [simp]: "as_session v = Some x \<longleftrightarrow> v = VSession x"
  by (cases v) auto

lemma as_registration_Some [simp]: "as_registration v = Some x \<longleftrightarrow> v = VRegistration x"
  by (cases v) auto

lemma as_authentication_Some [simp]: "as_authentication v = Some x \<longleftrightarrow> v = VAuthentication x"
  by (cases v) auto

lemma as_handoff_Some [simp]: "as_handoff v = Some x \<longleftrightarrow> v = VHandoff x"
  by (cases v) auto

lemma as_invitation_Some [simp]: "as_invitation v = Some x \<longleftrightarrow> v = VInvitation x"
  by (cases v) auto

lemma as_challenge_Some [simp]: "as_challenge v = Some x \<longleftrightarrow> v = VChallenge x"
  by (cases v) auto

lemma as_event_Some [simp]: "as_event v = Some x \<longleftrightarrow> v = VEvent x"
  by (cases v) auto

lemma as_organization_Some [simp]: "as_organization v = Some x \<longleftrightarrow> v = VOrganization x"
  by (cases v) auto

lemma as_operator_Some [simp]: "as_operator v = Some x \<longleftrightarrow> v = VOperator x"
  by (cases v) auto

lemma as_service_account_Some [simp]: "as_service_account v = Some x \<longleftrightarrow> v = VServiceAccount x"
  by (cases v) auto

lemma as_locator_Some [simp]: "as_locator v = Some x \<longleftrightarrow> v = VLocator x"
  by (cases v) auto

lemma as_webhook_Some [simp]: "as_webhook v = Some x \<longleftrightarrow> v = VWebhook x"
  by (cases v) auto

lemma as_delivery_Some [simp]: "as_delivery v = Some x \<longleftrightarrow> v = VDelivery x"
  by (cases v) auto

lemma as_keyset_Some [simp]: "as_keyset v = Some x \<longleftrightarrow> v = VKeySet x"
  by (cases v) auto

lemma as_legacy_key_Some [simp]: "as_legacy_key v = Some x \<longleftrightarrow> v = VLegacyKey x"
  by (cases v) auto

lemma as_pairing_Some [simp]: "as_pairing v = Some x \<longleftrightarrow> v = VPairing x"
  by (cases v) auto

lemma as_grant_Some [simp]: "as_grant v = Some x \<longleftrightarrow> v = VGrant x"
  by (cases v) auto

lemma as_grant_rotation_Some [simp]: "as_grant_rotation v = Some x \<longleftrightarrow> v = VGrantRotation x"
  by (cases v) auto

lemma as_receipt_Some [simp]: "as_receipt v = Some x \<longleftrightarrow> v = VReceipt x"
  by (cases v) auto

lemma as_num_Some [simp]: "as_num v = Some x \<longleftrightarrow> v = VNum x"
  by (cases v) auto

end
