(* ===== verification/Datastore.thy ===== *)
theory Datastore
  imports Records "HOL-Library.Sublist"
begin

text \<open>
  The persistence boundary (\<open>src/src/store.rs\<close>). SableDB, SHA-256, base64, the UUID crate, the
  random generator, the system clock and WebAuthn are not part of the repository: they are the
  fields of an environment record that every operation takes as its first argument, and the
  locale \<open>sabledb\<close> states what the code relies on of the datastore. The operations themselves are
  functions of an explicit state (\<open>world\<close>: the database, the two locks of \<open>Store\<close>, the session
  touch queue and how many clock, UUID and random draws were made), which return a value, an
  error, or \<open>Stuck\<close> when the task can never continue.
\<close>

section \<open>Errors and results\<close>

datatype StorePolicyError =
    IdentifierAlreadyExists | IdentifierLimit | IdentifierNotLinked | FinalIdentifier
  | CredentialAlreadyExists | UserMissing | CredentialNotLinked | FinalCredential
  | OrganizationMissing | ServiceAccountMissing | ServiceCredentialMissing
  | InvalidServiceCredential | ServiceScopeDenied
  | FleetResourceMissing | FleetSlugConflict | FleetParentArchived | FleetHasActiveChildren
  | FleetIdempotencyConflict | FleetConnectionAttemptExpired | FleetConnectionConflict
  | FleetAnalyticsIdempotencyConflict | RealmPairingInvalid | RealmFleetGrantInvalid
  | RemoteMutationIdempotencyConflict | RemoteMutationPending

datatype EventLogIntegrityError =
    CursorExpired u64
  | MissingSequence u64
  | MalformedRecord u64
  | UnexpectedSequence u64 u64

datatype IdentifierValidationError = InvalidEmail | InvalidPhone

text \<open>What an \<open>anyhow::Error\<close> can be here: a typed error of the crate, a client error reported by
  the datastore (its text), a document that does not decode, or a \<open>bail!\<close>/\<open>context\<close> message. A panic unwinds
  the request and drops its guards the way an error return does; it is the constructor \<open>Panic\<close>.\<close>

datatype store_error =
    Policy StorePolicyError
  | EventLog EventLogIntegrityError
  | IdentifierError IdentifierValidationError
  | ProfileError string nat
  | Redis string
  | Decode
  | Bail string
  | Panic string

datatype 'a res = Ok 'a | Err store_error | Stuck

section \<open>Commands\<close>

datatype cmd =
    SET string "value"
  | SETEX string "value" u64
  | DEL "string list"
  | MSET "(string \<times> value) list"

type_synonym db_view = "string \<rightharpoonup> value"

primrec apply_cmd :: "cmd \<Rightarrow> db_view \<Rightarrow> db_view" where
  "apply_cmd (SET k v) m = m(k \<mapsto> v)"
| "apply_cmd (SETEX k v _) m = m(k \<mapsto> v)"
| "apply_cmd (DEL ks) m = (\<lambda>k. if k \<in> set ks then None else m k)"
| "apply_cmd (MSET kvs) m = fold (\<lambda>(k, v) m. m(k \<mapsto> v)) kvs m"

definition apply_cmds :: "cmd list \<Rightarrow> db_view \<Rightarrow> db_view" where
  "apply_cmds = fold apply_cmd"

primrec cmd_keys :: "cmd \<Rightarrow> string set" where
  "cmd_keys (SET k _) = {k}"
| "cmd_keys (SETEX k _ _) = {k}"
| "cmd_keys (DEL ks) = set ks"
| "cmd_keys (MSET kvs) = fst ` set kvs"

definition cmds_keys :: "cmd list \<Rightarrow> string set" where
  "cmds_keys cs = \<Union> (cmd_keys ` set cs)"

section \<open>The environment\<close>

text \<open>A reply is the text of the client error or the decoded value, with the database after the
  command.\<close>

type_synonym ('a, 'db) reply = "(string + 'a) \<times> 'db"

record 'db env =
  sb_get :: "string \<Rightarrow> 'db \<Rightarrow> (value option, 'db) reply"
  sb_mget :: "string list \<Rightarrow> 'db \<Rightarrow> (value option list, 'db) reply"
  sb_exec :: "cmd list \<Rightarrow> 'db \<Rightarrow> (unit, 'db) reply"
  sb_pipe :: "cmd list \<Rightarrow> 'db \<Rightarrow> (unit, 'db) reply"
  sb_getdel :: "string \<Rightarrow> 'db \<Rightarrow> (value option, 'db) reply"
  sb_setnx :: "string \<Rightarrow> value \<Rightarrow> u64 option \<Rightarrow> 'db \<Rightarrow> (bool, 'db) reply"
  sb_setxx :: "string \<Rightarrow> value \<Rightarrow> u64 option \<Rightarrow> 'db \<Rightarrow> (bool, 'db) reply"
  sb_getex :: "string \<Rightarrow> u64 \<Rightarrow> 'db \<Rightarrow> (value option, 'db) reply"
  sb_delifeq :: "string \<Rightarrow> value \<Rightarrow> 'db \<Rightarrow> (nat, 'db) reply"
  sb_eval_cad :: "string \<Rightarrow> value \<Rightarrow> 'db \<Rightarrow> (nat, 'db) reply"
  sb_ttl :: "string \<Rightarrow> 'db \<Rightarrow> (int, 'db) reply"
  sb_incr :: "string \<Rightarrow> u64 \<Rightarrow> 'db \<Rightarrow> (u64, 'db) reply"
  sb_scan :: "u64 \<Rightarrow> string \<Rightarrow> nat \<Rightarrow> 'db \<Rightarrow> (u64 \<times> string list, 'db) reply"
  doc_len :: "value \<Rightarrow> nat"
  sha256_hex :: "string \<Rightarrow> string"
  sha256_b64 :: "string \<Rightarrow> string"
  b64url :: "string \<Rightarrow> string"
  uuid_text :: "uuid \<Rightarrow> string"
  uuid_parse :: "string \<Rightarrow> uuid option"
  wa_cred_id :: "passkey \<Rightarrow> string"
  wa_counter :: "passkey \<Rightarrow> u32"
  wa_update :: "passkey \<Rightarrow> auth_result \<Rightarrow> passkey option"
  ar_cred_id :: "auth_result \<Rightarrow> string"
  ar_counter :: "auth_result \<Rightarrow> u32"
  env_clock :: "nat \<Rightarrow> u64"
  env_uuid :: "nat \<Rightarrow> uuid"
  env_rand :: "nat \<Rightarrow> nat \<Rightarrow> string"
  env_tenant :: string

record SessionTouch =
  touch_key :: string
  touch_observed_at :: u64
  touch_ttl_seconds :: u64

datatype lock = Free | Held

record 'db world =
  w_db :: 'db
  w_ticks :: nat
  w_uuids :: nat
  w_rands :: nat
  w_mutation :: lock
  w_readers :: nat
  w_writer :: lock
  w_touches :: "SessionTouch list"

section \<open>Operations on the world\<close>

type_synonym ('db, 'a) sm = "'db world \<Rightarrow> 'a res \<times> 'db world"

definition ret :: "'a \<Rightarrow> ('db, 'a) sm" where
  "ret x = (\<lambda>w. (Ok x, w))"

definition fail :: "store_error \<Rightarrow> ('db, 'a) sm" where
  "fail e = (\<lambda>w. (Err e, w))"

definition sbind :: "('db, 'a) sm \<Rightarrow> ('a \<Rightarrow> ('db, 'b) sm) \<Rightarrow> ('db, 'b) sm" where
  "sbind m f = (\<lambda>w. case m w of
     (Ok x, w') \<Rightarrow> f x w' | (Err e, w') \<Rightarrow> (Err e, w') | (Stuck, w') \<Rightarrow> (Stuck, w'))"

text \<open>A \<open>Result\<close> used without \<open>?\<close>: the error becomes a value.\<close>

definition attempt :: "('db, 'a) sm \<Rightarrow> ('db, store_error + 'a) sm" where
  "attempt m = (\<lambda>w. case m w of
     (Ok x, w') \<Rightarrow> (Ok (Inr x), w') | (Err e, w') \<Rightarrow> (Ok (Inl e), w') | (Stuck, w') \<Rightarrow> (Stuck, w'))"

fun lift_result :: "store_error + 'a \<Rightarrow> ('db, 'a) sm" where
  "lift_result (Inl e) = fail e"
| "lift_result (Inr x) = ret x"

fun ok_or :: "store_error \<Rightarrow> 'a option \<Rightarrow> ('db, 'a) sm" where
  "ok_or e None = fail e"
| "ok_or e (Some x) = ret x"

text \<open>\<open>if c { return Err(e) }\<close>.\<close>

definition fail_if :: "bool \<Rightarrow> store_error \<Rightarrow> ('db, unit) sm" where
  "fail_if c e = (if c then fail e else ret ())"

primrec smap :: "('a \<Rightarrow> ('db, 'b) sm) \<Rightarrow> 'a list \<Rightarrow> ('db, 'b list) sm" where
  "smap f [] = ret []"
| "smap f (x # xs) = sbind (f x) (\<lambda>y. sbind (smap f xs) (\<lambda>ys. ret (y # ys)))"

definition db_cmd :: "('db \<Rightarrow> ('a, 'db) reply) \<Rightarrow> ('db, 'a) sm" where
  "db_cmd c = (\<lambda>w. case c (w_db w) of
     (Inl e, d) \<Rightarrow> (Err (Redis e), w\<lparr>w_db := d\<rparr>) | (Inr x, d) \<Rightarrow> (Ok x, w\<lparr>w_db := d\<rparr>))"

definition now :: "'db env \<Rightarrow> ('db, u64) sm" where
  "now E = (\<lambda>w. (Ok (env_clock E (w_ticks w)), w\<lparr>w_ticks := Suc (w_ticks w)\<rparr>))"

definition new_v4 :: "'db env \<Rightarrow> ('db, uuid) sm" where
  "new_v4 E = (\<lambda>w. (Ok (env_uuid E (w_uuids w)), w\<lparr>w_uuids := Suc (w_uuids w)\<rparr>))"

definition random_bytes :: "'db env \<Rightarrow> nat \<Rightarrow> ('db, string) sm" where
  "random_bytes E n = (\<lambda>w. (Ok (env_rand E (w_rands w) n), w\<lparr>w_rands := Suc (w_rands w)\<rparr>))"

text \<open>The locks of \<open>Store\<close>. \<open>mutation\<close> is a \<open>tokio::sync::Mutex\<close>, which is not reentrant:
  a task that locks it again while it holds it waits for itself. The guard is dropped when the
  function that took it returns.\<close>

definition with_mutation :: "('db, 'a) sm \<Rightarrow> ('db, 'a) sm" where
  "with_mutation m = (\<lambda>w. if w_mutation w = Held then (Stuck, w) else
     (case m (w\<lparr>w_mutation := Held\<rparr>) of
        (Stuck, w') \<Rightarrow> (Stuck, w') | (r, w') \<Rightarrow> (r, w'\<lparr>w_mutation := Free\<rparr>)))"

definition with_snapshot_read :: "('db, 'a) sm \<Rightarrow> ('db, 'a) sm" where
  "with_snapshot_read m = (\<lambda>w. if w_writer w = Held then (Stuck, w) else
     (case m (w\<lparr>w_readers := Suc (w_readers w)\<rparr>) of
        (Stuck, w') \<Rightarrow> (Stuck, w') | (r, w') \<Rightarrow> (r, w'\<lparr>w_readers := w_readers w' - 1\<rparr>)))"

definition with_snapshot_write :: "('db, 'a) sm \<Rightarrow> ('db, 'a) sm" where
  "with_snapshot_write m = (\<lambda>w. if w_writer w = Held \<or> w_readers w > 0 then (Stuck, w) else
     (case m (w\<lparr>w_writer := Held\<rparr>) of
        (Stuck, w') \<Rightarrow> (Stuck, w') | (r, w') \<Rightarrow> (r, w'\<lparr>w_writer := Free\<rparr>)))"

section \<open>Typed access\<close>

definition decode_opt :: "(value \<Rightarrow> 'a option) \<Rightarrow> value option \<Rightarrow> store_error + 'a option" where
  "decode_opt f r = (case r of None \<Rightarrow> Inr None
     | Some v \<Rightarrow> (case f v of None \<Rightarrow> Inl Decode | Some x \<Rightarrow> Inr (Some x)))"

definition get_json :: "'db env \<Rightarrow> (value \<Rightarrow> 'a option) \<Rightarrow> string \<Rightarrow> ('db, 'a option) sm" where
  "get_json E f k = sbind (db_cmd (sb_get E k)) (\<lambda>r. lift_result (decode_opt f r))"

definition exists_key :: "'db env \<Rightarrow> string \<Rightarrow> ('db, bool) sm" where
  "exists_key E k = sbind (db_cmd (sb_get E k)) (\<lambda>r. ret (r \<noteq> None))"

definition take_json :: "'db env \<Rightarrow> (value \<Rightarrow> 'a option) \<Rightarrow> string \<Rightarrow> ('db, 'a option) sm" where
  "take_json E f k = sbind (db_cmd (sb_getdel E k)) (\<lambda>r. lift_result (decode_opt f r))"

definition set_json_ex :: "'db env \<Rightarrow> string \<Rightarrow> value \<Rightarrow> u64 \<Rightarrow> ('db, unit) sm" where
  "set_json_ex E k v seconds = db_cmd (sb_exec E [SETEX k v seconds])"

definition delete_key :: "'db env \<Rightarrow> string \<Rightarrow> ('db, unit) sm" where
  "delete_key E k = db_cmd (sb_exec E [DEL [k]])"

definition set_key :: "'db env \<Rightarrow> string \<Rightarrow> value \<Rightarrow> ('db, unit) sm" where
  "set_key E k v = db_cmd (sb_exec E [SET k v])"

text \<open>A \<open>SCAN\<close> loop: from cursor 0, batch by batch, until the datastore returns cursor 0. Each batch
  goes into the accumulator by \<open>f\<close>, which may reject it. A loop that never ends is \<open>Stuck\<close>.\<close>

partial_function (option) scan_from :: "'db env \<Rightarrow> string \<Rightarrow> nat \<Rightarrow> (string list \<Rightarrow> 'a \<Rightarrow> store_error + 'a) \<Rightarrow>
    u64 \<Rightarrow> 'a \<Rightarrow> 'db \<Rightarrow> ((store_error + 'a) \<times> 'db) option" where
  "scan_from E pre count f cursor acc d =
     (case sb_scan E cursor pre count d of
        (Inl e, d') \<Rightarrow> Some (Inl (Redis e), d')
      | (Inr (next_cursor, batch), d') \<Rightarrow>
          (case f batch acc of
             Inl e \<Rightarrow> Some (Inl e, d')
           | Inr acc' \<Rightarrow> if next_cursor = 0 then Some (Inr acc', d')
               else scan_from E pre count f next_cursor acc' d'))"

definition scan_all :: "'db env \<Rightarrow> string \<Rightarrow> nat \<Rightarrow> (string list \<Rightarrow> 'a \<Rightarrow> store_error + 'a) \<Rightarrow> 'a \<Rightarrow> ('db, 'a) sm" where
  "scan_all E pre count f acc = (\<lambda>w. case scan_from E pre count f 0 acc (w_db w) of
     None \<Rightarrow> (Stuck, w)
   | Some (Inl e, d) \<Rightarrow> (Err e, w\<lparr>w_db := d\<rparr>)
   | Some (Inr x, d) \<Rightarrow> (Ok x, w\<lparr>w_db := d\<rparr>))"

definition parse_uuid :: "'db env \<Rightarrow> string \<Rightarrow> store_error + uuid" where
  "parse_uuid E s = (case uuid_parse E s of None \<Rightarrow> Inl (Bail ''stored id is invalid'') | Some u \<Rightarrow> Inr u)"

end
