(* ===== verification/Datastore_Laws.thy ===== *)
theory Datastore_Laws
  imports Datastore
begin

text \<open>
  Reasoning about operations: a weakest-precondition calculus for the state functions of
  \<open>Datastore\<close>, the locales \<open>sabledb\<close> and \<open>scanning\<close> with the documented behaviour of the datastore
  commands, and the rules of the calculus for each command.
\<close>

named_theorems wp_simps
named_theorems wp_intros

definition wp :: "('db, 'a) sm \<Rightarrow> ('a res \<Rightarrow> 'db world \<Rightarrow> bool) \<Rightarrow> 'db world \<Rightarrow> bool" where
  "wp m Q w = (case m w of (r, w') \<Rightarrow> Q r w')"

lemma wpI: "Q (fst (m w)) (snd (m w)) \<Longrightarrow> wp m Q w"
  by (cases "m w") (simp add: wp_def)

lemma wpD: "m w = (r, w') \<Longrightarrow> wp m Q w \<Longrightarrow> Q r w'"
  by (simp add: wp_def)

lemma wp_mono: "wp m Q w \<Longrightarrow> (\<And>r w'. Q r w' \<Longrightarrow> R r w') \<Longrightarrow> wp m R w"
  by (auto simp: wp_def split: prod.splits)

lemma wp_ret [wp_simps]: "wp (ret x) Q w = Q (Ok x) w"
  by (simp add: wp_def ret_def)

lemma wp_fail [wp_simps]: "wp (fail e) Q w = Q (Err e) w"
  by (simp add: wp_def fail_def)

definition on_ok :: "('a \<Rightarrow> 'db world \<Rightarrow> bool) \<Rightarrow> (store_error \<Rightarrow> 'db world \<Rightarrow> bool) \<Rightarrow>
    ('db world \<Rightarrow> bool) \<Rightarrow> 'a res \<Rightarrow> 'db world \<Rightarrow> bool" where
  "on_ok P Q R r w = (case r of Ok x \<Rightarrow> P x w | Err e \<Rightarrow> Q e w | Stuck \<Rightarrow> R w)"

lemma on_ok_simps [simp]:
  "on_ok P Q R (Ok x) w = P x w"
  "on_ok P Q R (Err e) w = Q e w"
  "on_ok P Q R Stuck w = R w"
  by (simp_all add: on_ok_def)

lemma wp_bind [wp_simps]:
  "wp (sbind m f) Q w = wp m (on_ok (\<lambda>x. wp (f x) Q) (\<lambda>e. Q (Err e)) (Q Stuck)) w"
  by (auto simp: wp_def sbind_def on_ok_def split: prod.splits res.splits)

lemma wp_attempt [wp_simps]:
  "wp (attempt m) Q w = wp m (on_ok (\<lambda>x. Q (Ok (Inr x))) (\<lambda>e. Q (Ok (Inl e))) (Q Stuck)) w"
  by (auto simp: wp_def attempt_def on_ok_def split: prod.splits res.splits)

lemma wp_lift_result [wp_simps]:
  "wp (lift_result r) Q w = (case r of Inl e \<Rightarrow> Q (Err e) w | Inr x \<Rightarrow> Q (Ok x) w)"
  by (cases r) (simp_all add: wp_simps)

lemma wp_ok_or [wp_simps]:
  "wp (ok_or e r) Q w = (case r of None \<Rightarrow> Q (Err e) w | Some x \<Rightarrow> Q (Ok x) w)"
  by (cases r) (simp_all add: wp_simps)

lemma wp_fail_if [wp_simps]:
  "wp (fail_if c e) Q w = (if c then Q (Err e) w else Q (Ok ()) w)"
  by (simp add: fail_if_def wp_simps)

lemma wp_if [wp_simps]:
  "wp (if c then a else b) Q w = (if c then wp a Q w else wp b Q w)"
  by simp

lemma wp_case_option [wp_simps]:
  "wp (case x of None \<Rightarrow> a | Some y \<Rightarrow> b y) Q w = (case x of None \<Rightarrow> wp a Q w | Some y \<Rightarrow> wp (b y) Q w)"
  by (cases x) simp_all

lemma wp_case_sum [wp_simps]:
  "wp (case x of Inl e \<Rightarrow> a e | Inr y \<Rightarrow> b y) Q w = (case x of Inl e \<Rightarrow> wp (a e) Q w | Inr y \<Rightarrow> wp (b y) Q w)"
  by (cases x) simp_all

lemma wp_case_prod [wp_simps]:
  "wp (case p of (x, y) \<Rightarrow> f x y) Q w = (case p of (x, y) \<Rightarrow> wp (f x y) Q w)"
  by (cases p) simp_all

lemma wp_case_list [wp_simps]:
  "wp (case xs of [] \<Rightarrow> a | y # ys \<Rightarrow> b y ys) Q w = (case xs of [] \<Rightarrow> wp a Q w | y # ys \<Rightarrow> wp (b y ys) Q w)"
  by (cases xs) simp_all

lemma wp_let [wp_simps]: "wp (Let x f) Q w = (let y = x in wp (f y) Q w)"
  by simp

lemma wp_smap_Nil [wp_simps]: "wp (smap f []) Q w = Q (Ok []) w"
  by (simp add: wp_simps)

lemma wp_now [wp_simps]:
  "wp (now E) Q w = Q (Ok (env_clock E (w_ticks w))) (w\<lparr>w_ticks := Suc (w_ticks w)\<rparr>)"
  by (simp add: wp_def now_def)

lemma wp_new_v4 [wp_simps]:
  "wp (new_v4 E) Q w = Q (Ok (env_uuid E (w_uuids w))) (w\<lparr>w_uuids := Suc (w_uuids w)\<rparr>)"
  by (simp add: wp_def new_v4_def)

lemma wp_random_bytes [wp_simps]:
  "wp (random_bytes E n) Q w = Q (Ok (env_rand E (w_rands w) n)) (w\<lparr>w_rands := Suc (w_rands w)\<rparr>)"
  by (simp add: wp_def random_bytes_def)

lemma wp_with_mutation [wp_simps]:
  "wp (with_mutation m) Q w =
     (if w_mutation w = Held then Q Stuck w
      else wp m (on_ok (\<lambda>x w'. Q (Ok x) (w'\<lparr>w_mutation := Free\<rparr>))
                       (\<lambda>e w'. Q (Err e) (w'\<lparr>w_mutation := Free\<rparr>)) (Q Stuck))
                (w\<lparr>w_mutation := Held\<rparr>))"
  by (auto simp: wp_def with_mutation_def on_ok_def split: prod.splits res.splits)

lemma wp_with_snapshot_read [wp_simps]:
  "wp (with_snapshot_read m) Q w =
     (if w_writer w = Held then Q Stuck w
      else wp m (on_ok (\<lambda>x w'. Q (Ok x) (w'\<lparr>w_readers := w_readers w' - 1\<rparr>))
                       (\<lambda>e w'. Q (Err e) (w'\<lparr>w_readers := w_readers w' - 1\<rparr>)) (Q Stuck))
                (w\<lparr>w_readers := Suc (w_readers w)\<rparr>))"
  by (auto simp: wp_def with_snapshot_read_def on_ok_def split: prod.splits res.splits)

lemma wp_with_snapshot_write [wp_simps]:
  "wp (with_snapshot_write m) Q w =
     (if w_writer w = Held \<or> w_readers w > 0 then Q Stuck w
      else wp m (on_ok (\<lambda>x w'. Q (Ok x) (w'\<lparr>w_writer := Free\<rparr>))
                       (\<lambda>e w'. Q (Err e) (w'\<lparr>w_writer := Free\<rparr>)) (Q Stuck))
                (w\<lparr>w_writer := Held\<rparr>))"
  by (auto simp: wp_def with_snapshot_write_def on_ok_def split: prod.splits res.splits)

lemma wp_db_cmd:
  "wp (db_cmd c) Q w = (case c (w_db w) of
     (Inl e, d) \<Rightarrow> Q (Err (Redis e)) (w\<lparr>w_db := d\<rparr>) | (Inr x, d) \<Rightarrow> Q (Ok x) (w\<lparr>w_db := d\<rparr>))"
  by (auto simp: wp_def db_cmd_def split: prod.splits sum.splits)

text \<open>Specifications: the operation ends (it is never stuck), with \<open>P\<close> when it returns a value and \<open>R\<close>
  when it returns an error.\<close>

definition spec :: "('db, 'a) sm \<Rightarrow> ('a \<Rightarrow> 'db world \<Rightarrow> bool) \<Rightarrow> (store_error \<Rightarrow> 'db world \<Rightarrow> bool) \<Rightarrow>
    'db world \<Rightarrow> bool" where
  "spec m P R w = wp m (on_ok P R (\<lambda>_. False)) w"

lemma wp_use:
  "spec m P R w \<Longrightarrow> (\<And>x w'. P x w' \<Longrightarrow> Q (Ok x) w') \<Longrightarrow> (\<And>e w'. R e w' \<Longrightarrow> Q (Err e) w') \<Longrightarrow> wp m Q w"
  unfolding spec_def by (auto simp: wp_def on_ok_def split: prod.splits res.splits)

lemma specD: "spec m P R w \<Longrightarrow> m w = (r, w') \<Longrightarrow>
    (case r of Ok x \<Rightarrow> P x w' | Err e \<Rightarrow> R e w' | Stuck \<Rightarrow> False)"
  by (simp add: spec_def wp_def on_ok_def)

lemma spec_OkD: "spec m P R w \<Longrightarrow> m w = (Ok x, w') \<Longrightarrow> P x w'"
  by (simp add: spec_def wp_def)

lemma spec_ErrD: "spec m P R w \<Longrightarrow> m w = (Err e, w') \<Longrightarrow> R e w'"
  by (simp add: spec_def wp_def)

lemma spec_StuckD: "spec m P R w \<Longrightarrow> m w \<noteq> (Stuck, w')"
  by (auto simp: spec_def wp_def)

lemma spec_conseq:
  "spec m P R w \<Longrightarrow> (\<And>x w'. P x w' \<Longrightarrow> P' x w') \<Longrightarrow> (\<And>e w'. R e w' \<Longrightarrow> R' e w') \<Longrightarrow> spec m P' R' w"
  unfolding spec_def by (auto simp: wp_def on_ok_def split: prod.splits res.splits)

text \<open>Worlds that differ at most in the database and in how far the clock, the UUID source and the
  random source were read: what every helper below the locks leaves behind.\<close>

definition keeps :: "'db world \<Rightarrow> 'db world \<Rightarrow> bool" where
  "keeps w w' \<longleftrightarrow> w_mutation w' = w_mutation w \<and> w_readers w' = w_readers w \<and> w_writer w' = w_writer w \<and>
     w_touches w' = w_touches w \<and> w_ticks w \<le> w_ticks w' \<and> w_uuids w \<le> w_uuids w' \<and> w_rands w \<le> w_rands w'"

text \<open>No lock of the store is held: the state between two operations of a task.\<close>

definition idle :: "'db world \<Rightarrow> bool" where
  "idle w \<longleftrightarrow> w_mutation w = Free \<and> w_readers w = 0 \<and> w_writer w = Free"

lemma keeps_idle: "keeps w w' \<Longrightarrow> idle w' = idle w"
  by (simp add: keeps_def idle_def)

lemma keeps_refl [simp]: "keeps w w"
  by (simp add: keeps_def)

lemma keeps_trans [trans]: "keeps w w' \<Longrightarrow> keeps w' w'' \<Longrightarrow> keeps w w''"
  by (simp add: keeps_def)

section \<open>Commands and the keys they write\<close>

lemma apply_cmds_Nil [simp]: "apply_cmds [] m = m"
  by (simp add: apply_cmds_def)

lemma apply_cmds_Cons [simp]: "apply_cmds (c # cs) m = apply_cmds cs (apply_cmd c m)"
  by (simp add: apply_cmds_def)

lemma apply_cmds_append [simp]: "apply_cmds (cs @ ds) m = apply_cmds ds (apply_cmds cs m)"
  by (simp add: apply_cmds_def)

lemma cmds_keys_simps [simp]:
  "cmds_keys [] = {}"
  "cmds_keys (c # cs) = cmd_keys c \<union> cmds_keys cs"
  "cmds_keys (cs @ ds) = cmds_keys cs \<union> cmds_keys ds"
  by (auto simp: cmds_keys_def)

lemma fold_upd_other:
  "k \<notin> fst ` set kvs \<Longrightarrow> fold (\<lambda>(k, v) m. m(k \<mapsto> v)) kvs m k = m k"
  by (induction kvs arbitrary: m) auto

lemma apply_cmd_other: "k \<notin> cmd_keys c \<Longrightarrow> apply_cmd c m k = m k"
  by (cases c) (auto simp: fold_upd_other)

lemma apply_cmds_other: "k \<notin> cmds_keys cs \<Longrightarrow> apply_cmds cs m k = m k"
  by (induction cs arbitrary: m) (auto simp: apply_cmd_other)

lemma fold_upd_cong:
  "m k = m' k \<Longrightarrow> fold (\<lambda>(k, v) m. m(k \<mapsto> v)) kvs m k = fold (\<lambda>(k, v) m. m(k \<mapsto> v)) kvs m' k"
proof (induction kvs arbitrary: m m')
  case (Cons a kvs)
  obtain x y where a: "a = (x, y)" by (cases a)
  have "(m(x \<mapsto> y)) k = (m'(x \<mapsto> y)) k" using Cons.prems by simp
  from Cons.IH [of "m(x \<mapsto> y)" "m'(x \<mapsto> y)", OF this] show ?case
    unfolding a fold_simps comp_apply case_prod_conv .
qed simp

text \<open>The effect of commands on one key depends only on that key.\<close>

lemma apply_cmd_cong: "m k = m' k \<Longrightarrow> apply_cmd c m k = apply_cmd c m' k"
  by (cases c) (simp_all add: fold_upd_cong [of m k m'])

lemma apply_cmds_cong: "m k = m' k \<Longrightarrow> apply_cmds cs m k = apply_cmds cs m' k"
proof (induction cs arbitrary: m m')
  case (Cons c cs)
  show ?case using Cons.IH [of "apply_cmd c m" "apply_cmd c m'"] apply_cmd_cong [of m k m' c] Cons.prems by simp
qed simp

lemma cmds_keys_subseq: "subseq cs' cs \<Longrightarrow> cmds_keys cs' \<subseteq> cmds_keys cs"
  by (induction rule: list_emb.induct) (auto simp: cmds_keys_def)

lemma subseq_singleton_right: "subseq xs [c] \<longleftrightarrow> xs = [] \<or> xs = [c]"
  by (cases xs) (auto simp: subseq_singleton_left split: if_splits)

section \<open>The datastore contract\<close>

text \<open>What the code relies on of SableDB, for a client whose commands may fail. \<open>view d\<close> is the
  content of the database: reads report it and leave it alone; a \<open>MULTI\<close>/\<open>EXEC\<close> block takes effect
  as a whole, and one whose reply was lost took effect as a whole or not at all; a plain pipeline
  whose reply was an error may have executed any of its commands. Expiry of a volatile key is not
  an effect of a command: it happens between operations.\<close>

locale sabledb =
  fixes E :: "'db env" and view :: "'db \<Rightarrow> db_view"
  assumes get_law: "\<And>k d r d'. sb_get E k d = (r, d') \<Longrightarrow> view d' = view d \<and> (\<forall>v. r = Inr v \<longrightarrow> v = view d k)"
    and mget_law: "\<And>ks d r d'. sb_mget E ks d = (r, d') \<Longrightarrow>
      view d' = view d \<and> (\<forall>vs. r = Inr vs \<longrightarrow> vs = map (view d) ks)"
    and exec_law: "\<And>cs d r d'. sb_exec E cs d = (r, d') \<Longrightarrow>
      view d' = apply_cmds cs (view d) \<or> (\<exists>e. r = Inl e) \<and> view d' = view d"
    and pipe_law: "\<And>cs d r d'. sb_pipe E cs d = (r, d') \<Longrightarrow>
      view d' = apply_cmds cs (view d) \<or>
      (\<exists>e. r = Inl e) \<and> (\<exists>cs'. subseq cs' cs \<and> view d' = apply_cmds cs' (view d))"
    and getdel_law: "\<And>k d r d'. sb_getdel E k d = (r, d') \<Longrightarrow>
      view d' = (view d)(k := None) \<and> (\<forall>v. r = Inr v \<longrightarrow> v = view d k) \<or>
      (\<exists>e. r = Inl e) \<and> view d' = view d"
    and setnx_law: "\<And>k v ttl d r d'. sb_setnx E k v ttl d = (r, d') \<Longrightarrow>
      view d k = None \<and> view d' = (view d)(k \<mapsto> v) \<and> r \<noteq> Inr False \<or>
      view d k \<noteq> None \<and> view d' = view d \<and> r \<noteq> Inr True \<or>
      (\<exists>e. r = Inl e) \<and> view d' = view d"
    and setxx_law: "\<And>k v ttl d r d'. sb_setxx E k v ttl d = (r, d') \<Longrightarrow>
      view d k \<noteq> None \<and> view d' = (view d)(k \<mapsto> v) \<and> r \<noteq> Inr False \<or>
      view d k = None \<and> view d' = view d \<and> r \<noteq> Inr True \<or>
      (\<exists>e. r = Inl e) \<and> view d' = view d"
    and getex_law: "\<And>k ttl d r d'. sb_getex E k ttl d = (r, d') \<Longrightarrow>
      view d' = view d \<and> (\<forall>v. r = Inr v \<longrightarrow> v = view d k)"
    and delifeq_law: "\<And>k v d r d'. sb_delifeq E k v d = (r, d') \<Longrightarrow>
      view d k = Some v \<and> view d' = (view d)(k := None) \<and> (\<forall>n. r = Inr n \<longrightarrow> n = 1) \<or>
      view d k \<noteq> Some v \<and> view d' = view d \<and> (\<forall>n. r = Inr n \<longrightarrow> n = 0) \<or>
      (\<exists>e. r = Inl e) \<and> view d' = view d"
    and eval_cad_law: "\<And>k v d r d'. sb_eval_cad E k v d = (r, d') \<Longrightarrow>
      view d k = Some v \<and> view d' = (view d)(k := None) \<and> (\<forall>n. r = Inr n \<longrightarrow> n = 1) \<or>
      view d k \<noteq> Some v \<and> view d' = view d \<and> (\<forall>n. r = Inr n \<longrightarrow> n = 0) \<or>
      (\<exists>e. r = Inl e) \<and> view d' = view d"
    and ttl_law: "\<And>k d r d'. sb_ttl E k d = (r, d') \<Longrightarrow>
      view d' = view d \<and> (\<forall>t. r = Inr t \<longrightarrow> -2 \<le> t \<and> (t = -2 \<longleftrightarrow> view d k = None))"
    and incr_law: "\<And>k ttl d r d'. sb_incr E k ttl d = (r, d') \<Longrightarrow>
      (\<exists>n. (view d k = None \<and> n = 0 \<or> view d k = Some (VNum n)) \<and> view d' = (view d)(k \<mapsto> VNum (n + 1)) \<and>
         (\<forall>m. r = Inr m \<longrightarrow> m = n + 1) \<and> unat n < 2 ^ 63 - 1) \<or>
      (\<exists>e. r = Inl e) \<and> view d' = view d"
    and uuid_law: "\<And>u. uuid_parse E (uuid_text E u) = Some u"
begin

abbreviation content :: "'db world \<Rightarrow> db_view" where
  "content w \<equiv> view (w_db w)"

lemma wp_get:
  assumes "\<And>d e. view d = content w \<Longrightarrow> Q (Err (Redis e)) (w\<lparr>w_db := d\<rparr>)"
    and "\<And>d. view d = content w \<Longrightarrow> Q (Ok (content w k)) (w\<lparr>w_db := d\<rparr>)"
  shows "wp (db_cmd (sb_get E k)) Q w"
  using assms get_law[of k "w_db w"] by (auto simp: wp_db_cmd split: prod.splits sum.splits)

lemma wp_mget:
  assumes "\<And>d e. view d = content w \<Longrightarrow> Q (Err (Redis e)) (w\<lparr>w_db := d\<rparr>)"
    and "\<And>d. view d = content w \<Longrightarrow> Q (Ok (map (content w) ks)) (w\<lparr>w_db := d\<rparr>)"
  shows "wp (db_cmd (sb_mget E ks)) Q w"
  using assms mget_law[of ks "w_db w"] by (auto simp: wp_db_cmd split: prod.splits sum.splits)

lemma wp_exec:
  assumes "\<And>d e. view d = content w \<Longrightarrow> Q (Err (Redis e)) (w\<lparr>w_db := d\<rparr>)"
    and "\<And>d e. view d = apply_cmds cs (content w) \<Longrightarrow> Q (Err (Redis e)) (w\<lparr>w_db := d\<rparr>)"
    and "\<And>d. view d = apply_cmds cs (content w) \<Longrightarrow> Q (Ok ()) (w\<lparr>w_db := d\<rparr>)"
  shows "wp (db_cmd (sb_exec E cs)) Q w"
  using assms exec_law[of cs "w_db w"] by (auto simp: wp_db_cmd split: prod.splits sum.splits)

lemma wp_pipe:
  assumes "\<And>d e cs'. subseq cs' cs \<Longrightarrow> view d = apply_cmds cs' (content w) \<Longrightarrow>
      Q (Err (Redis e)) (w\<lparr>w_db := d\<rparr>)"
    and "\<And>d. view d = apply_cmds cs (content w) \<Longrightarrow> Q (Ok ()) (w\<lparr>w_db := d\<rparr>)"
  shows "wp (db_cmd (sb_pipe E cs)) Q w"
  using assms pipe_law[of cs "w_db w"]
  by (auto simp: wp_db_cmd split: prod.splits sum.splits) (meson subseq_order.order_refl)

lemma wp_getdel:
  assumes "\<And>d e. view d = content w \<Longrightarrow> Q (Err (Redis e)) (w\<lparr>w_db := d\<rparr>)"
    and "\<And>d e. view d = (content w)(k := None) \<Longrightarrow> Q (Err (Redis e)) (w\<lparr>w_db := d\<rparr>)"
    and "\<And>d. view d = (content w)(k := None) \<Longrightarrow> Q (Ok (content w k)) (w\<lparr>w_db := d\<rparr>)"
  shows "wp (db_cmd (sb_getdel E k)) Q w"
  using assms getdel_law[of k "w_db w"] by (auto simp: wp_db_cmd split: prod.splits sum.splits)

lemma wp_setnx:
  assumes "\<And>d e. view d = content w \<Longrightarrow> Q (Err (Redis e)) (w\<lparr>w_db := d\<rparr>)"
    and "\<And>d e. content w k = None \<Longrightarrow> view d = (content w)(k \<mapsto> v) \<Longrightarrow> Q (Err (Redis e)) (w\<lparr>w_db := d\<rparr>)"
    and "\<And>d. content w k = None \<Longrightarrow> view d = (content w)(k \<mapsto> v) \<Longrightarrow> Q (Ok True) (w\<lparr>w_db := d\<rparr>)"
    and "\<And>d. content w k \<noteq> None \<Longrightarrow> view d = content w \<Longrightarrow> Q (Ok False) (w\<lparr>w_db := d\<rparr>)"
  shows "wp (db_cmd (sb_setnx E k v ttl)) Q w"
proof -
  obtain r d where r: "sb_setnx E k v ttl (w_db w) = (r, d)" by fastforce
  consider e where "r = Inl e" | "r = Inr True" | "r = Inr False" by (metis (full_types) sum.exhaust)
  then show ?thesis by cases (use assms setnx_law[OF r] in \<open>auto simp: wp_db_cmd r\<close>)
qed

lemma wp_setxx:
  assumes "\<And>d e. view d = content w \<Longrightarrow> Q (Err (Redis e)) (w\<lparr>w_db := d\<rparr>)"
    and "\<And>d e. content w k \<noteq> None \<Longrightarrow> view d = (content w)(k \<mapsto> v) \<Longrightarrow> Q (Err (Redis e)) (w\<lparr>w_db := d\<rparr>)"
    and "\<And>d. content w k \<noteq> None \<Longrightarrow> view d = (content w)(k \<mapsto> v) \<Longrightarrow> Q (Ok True) (w\<lparr>w_db := d\<rparr>)"
    and "\<And>d. content w k = None \<Longrightarrow> view d = content w \<Longrightarrow> Q (Ok False) (w\<lparr>w_db := d\<rparr>)"
  shows "wp (db_cmd (sb_setxx E k v ttl)) Q w"
proof -
  obtain r d where r: "sb_setxx E k v ttl (w_db w) = (r, d)" by fastforce
  consider e where "r = Inl e" | "r = Inr True" | "r = Inr False" by (metis (full_types) sum.exhaust)
  then show ?thesis by cases (use assms setxx_law[OF r] in \<open>auto simp: wp_db_cmd r\<close>)
qed

lemma wp_getex:
  assumes "\<And>d e. view d = content w \<Longrightarrow> Q (Err (Redis e)) (w\<lparr>w_db := d\<rparr>)"
    and "\<And>d. view d = content w \<Longrightarrow> Q (Ok (content w k)) (w\<lparr>w_db := d\<rparr>)"
  shows "wp (db_cmd (sb_getex E k ttl)) Q w"
  using assms getex_law[of k ttl "w_db w"] by (auto simp: wp_db_cmd split: prod.splits sum.splits)

lemma wp_get_json [wp_intros]:
  assumes "\<And>d e. view d = content w \<Longrightarrow>
      (\<exists>t. e = Redis t) \<or> e = Decode \<and> (\<exists>v. content w k = Some v \<and> f v = None) \<Longrightarrow> Q (Err e) (w\<lparr>w_db := d\<rparr>)"
    and "\<And>d. view d = content w \<Longrightarrow> content w k = None \<Longrightarrow> Q (Ok None) (w\<lparr>w_db := d\<rparr>)"
    and "\<And>d v x. view d = content w \<Longrightarrow> content w k = Some v \<Longrightarrow> f v = Some x \<Longrightarrow>
      Q (Ok (Some x)) (w\<lparr>w_db := d\<rparr>)"
  shows "wp (get_json E f k) Q w"
  unfolding get_json_def
  by (auto simp: wp_simps decode_opt_def assms split: option.splits intro!: wp_get)

lemma wp_exists_key [wp_intros]:
  assumes "\<And>d t. view d = content w \<Longrightarrow> Q (Err (Redis t)) (w\<lparr>w_db := d\<rparr>)"
    and "\<And>d. view d = content w \<Longrightarrow> Q (Ok (content w k \<noteq> None)) (w\<lparr>w_db := d\<rparr>)"
  shows "wp (exists_key E k) Q w"
  unfolding exists_key_def using assms by (auto simp: wp_simps intro!: wp_get)

lemma wp_take_json [wp_intros]:
  assumes "\<And>d e. view d = content w \<Longrightarrow> Q (Err e) (w\<lparr>w_db := d\<rparr>)"
    and "\<And>d e. view d = (content w)(k := None) \<Longrightarrow> Q (Err e) (w\<lparr>w_db := d\<rparr>)"
    and "\<And>d. view d = (content w)(k := None) \<Longrightarrow> content w k = None \<Longrightarrow> Q (Ok None) (w\<lparr>w_db := d\<rparr>)"
    and "\<And>d v x. view d = (content w)(k := None) \<Longrightarrow> content w k = Some v \<Longrightarrow> f v = Some x \<Longrightarrow>
      Q (Ok (Some x)) (w\<lparr>w_db := d\<rparr>)"
  shows "wp (take_json E f k) Q w"
  unfolding take_json_def
  by (auto simp: wp_simps decode_opt_def assms split: option.splits intro!: wp_getdel)

lemma uuid_text_inject [simp]: "uuid_text E u = uuid_text E v \<longleftrightarrow> u = v"
  by (metis option.inject uuid_law)

lemma parse_uuid_text [simp]: "parse_uuid E (uuid_text E u) = Inr u"
  by (simp add: parse_uuid_def uuid_law)

lemmas db_intros = wp_exec wp_get_json wp_exists_key wp_take_json wp_setnx wp_setxx wp_mget wp_getex

lemma wp_ttl:
  assumes "\<And>d e. view d = content w \<Longrightarrow> Q (Err (Redis e)) (w\<lparr>w_db := d\<rparr>)"
    and "\<And>d t. view d = content w \<Longrightarrow> -2 \<le> t \<Longrightarrow> t = -2 \<longleftrightarrow> content w k = None \<Longrightarrow> Q (Ok t) (w\<lparr>w_db := d\<rparr>)"
  shows "wp (db_cmd (sb_ttl E k)) Q w"
  using assms ttl_law [of k "w_db w"] by (auto simp: wp_db_cmd split: prod.splits sum.splits)

end

text \<open>The guarantees of \<open>SCAN\<close>: a batch holds keys of the pattern that exist, an iteration that runs
  from cursor 0 back to cursor 0 reports every key that exists throughout, and it ends. \<open>remaining\<close>
  is what an iteration at a cursor is still to report and \<open>rounds\<close> bounds its remaining length.\<close>

locale scanning = sabledb E view for E :: "'db env" and view :: "'db \<Rightarrow> db_view" +
  fixes remaining :: "'db \<Rightarrow> string \<Rightarrow> u64 \<Rightarrow> string set" and rounds :: "'db \<Rightarrow> string \<Rightarrow> u64 \<Rightarrow> nat"
  assumes scan_start: "\<And>d p. remaining d p 0 = {k. starts_with p k \<and> view d k \<noteq> None}"
    and scan_law: "\<And>c p n d r d'. sb_scan E c p n d = (r, d') \<Longrightarrow> view d' = view d \<and>
      (\<forall>c' ks. r = Inr (c', ks) \<longrightarrow> (\<forall>k \<in> set ks. starts_with p k \<and> view d k \<noteq> None) \<and>
         (c' = 0 \<longrightarrow> remaining d p c \<subseteq> set ks) \<and>
         (c' \<noteq> 0 \<longrightarrow> remaining d p c \<subseteq> set ks \<union> remaining d' p c' \<and> rounds d' p c' < rounds d p c))"
begin

definition keys_of :: "db_view \<Rightarrow> string \<Rightarrow> string set" where
  "keys_of v p = {k. starts_with p k \<and> v k \<noteq> None}"

text \<open>The loop with an invariant \<open>I S acc\<close> over the set \<open>S\<close> of keys seen so far.\<close>

lemma scan_from_ends:
  assumes "I S acc" "S \<subseteq> keys_of (view d) p" "keys_of (view d) p \<subseteq> S \<union> remaining d p c"
    and step: "\<And>ks S acc acc'. I S acc \<Longrightarrow> set ks \<subseteq> keys_of (view d) p \<Longrightarrow> f ks acc = Inr acc' \<Longrightarrow> I (S \<union> set ks) acc'"
  shows "\<exists>r d'. scan_from E p n f c acc d = Some (r, d') \<and> view d' = view d \<and>
     (\<forall>x. r = Inr x \<longrightarrow> I (keys_of (view d) p) x)"
  using assms
proof (induction "rounds d p c" arbitrary: c acc d S rule: less_induct)
  case less
  obtain r d1 where sc: "sb_scan E c p n d = (r, d1)" by fastforce
  note law = scan_law [OF sc]
  have v1: "view d1 = view d" using law by blast
  show ?case
  proof (cases r)
    case (Inl e)
    then show ?thesis using sc v1 by (subst scan_from.simps) auto
  next
    case (Inr p1)
    obtain c1 ks where p1: "p1 = (c1, ks)" by (cases p1)
    have ks: "set ks \<subseteq> keys_of (view d) p" using law Inr p1 by (auto simp: keys_of_def)
    show ?thesis
    proof (cases "f ks acc")
      case (Inl e)
      then show ?thesis using sc v1 Inr p1 by (subst scan_from.simps) auto
    next
      case f: (Inr acc1)
      have I1: "I (S \<union> set ks) acc1" using less.prems(4) [OF less.prems(1) ks f] .
      show ?thesis
      proof (cases "c1 = 0")
        case True
        then have "S \<union> set ks = keys_of (view d) p" using less.prems(2,3) ks law Inr p1 by auto
        then show ?thesis using I1 sc v1 Inr p1 f True by (subst scan_from.simps) auto
      next
        case False
        have "\<exists>r d'. scan_from E p n f c1 acc1 d1 = Some (r, d') \<and> view d' = view d1 \<and>
           (\<forall>x. r = Inr x \<longrightarrow> I (keys_of (view d1) p) x)"
        proof (rule less.hyps)
          show "rounds d1 p c1 < rounds d p c" using law Inr p1 False by auto
          show "I (S \<union> set ks) acc1" by (fact I1)
          show "S \<union> set ks \<subseteq> keys_of (view d1) p" using less.prems(2) ks v1 by auto
          show "keys_of (view d1) p \<subseteq> S \<union> set ks \<union> remaining d1 p c1"
            using less.prems(3) law Inr p1 False v1 by auto
        qed (use less.prems(4) v1 in auto)
        then show ?thesis using sc v1 Inr p1 f False by (subst scan_from.simps) auto
      qed
    qed
  qed
qed

lemma wp_scan:
  assumes "I {} acc"
    and "\<And>ks S acc acc'. I S acc \<Longrightarrow> set ks \<subseteq> keys_of (content w) p \<Longrightarrow> f ks acc = Inr acc' \<Longrightarrow> I (S \<union> set ks) acc'"
    and "\<And>d x. view d = content w \<Longrightarrow> I (keys_of (content w) p) x \<Longrightarrow> Q (Ok x) (w\<lparr>w_db := d\<rparr>)"
    and "\<And>d e. view d = content w \<Longrightarrow> Q (Err e) (w\<lparr>w_db := d\<rparr>)"
  shows "wp (scan_all E p n f acc) Q w"
proof -
  have "\<exists>r d'. scan_from E p n f 0 acc (w_db w) = Some (r, d') \<and> view d' = content w \<and>
     (\<forall>x. r = Inr x \<longrightarrow> I (keys_of (content w) p) x)"
  proof (rule scan_from_ends)
    show "I {} acc" by (fact assms(1))
    show "keys_of (content w) p \<subseteq> {} \<union> remaining (w_db w) p 0" by (simp add: scan_start keys_of_def)
    show "I (S \<union> set ks) acc'" if "I S acc" "set ks \<subseteq> keys_of (content w) p" "f ks acc = Inr acc'" for ks S acc acc'
      using assms(2) that .
  qed simp
  then obtain r d' where "scan_from E p n f 0 acc (w_db w) = Some (r, d')" "view d' = content w"
    "\<forall>x. r = Inr x \<longrightarrow> I (keys_of (content w) p) x" by blast
  then show ?thesis using assms(3,4) by (cases r) (auto simp: wp_def scan_all_def)
qed

end

end
