(* ===== verification/Memory.thy ===== *)
theory Memory
  imports Datastore_Laws "HOL-Library.AList"
begin

text \<open>
  An in-memory datastore: an association list and a schedule of command failures (a command whose
  turn is marked \<open>True\<close> reports an error and has no effect). It satisfies the contract of
  \<open>Datastore_Laws\<close>, so the contract can hold, and the concrete runs of the other theories execute
  on it. Its hash, encoding and credential functions are simple stand-ins of the right shape.
\<close>

type_synonym mem = "(string \<times> value) list \<times> bool list"

definition mem_view :: "mem \<Rightarrow> db_view" where
  "mem_view d = map_of (fst d)"

primrec al_cmd :: "cmd \<Rightarrow> (string \<times> value) list \<Rightarrow> (string \<times> value) list" where
  "al_cmd (SET k v) al = AList.update k v al"
| "al_cmd (SETEX k v _) al = AList.update k v al"
| "al_cmd (DEL ks) al = fold AList.delete ks al"
| "al_cmd (MSET kvs) al = fold (\<lambda>(k, v). AList.update k v) kvs al"

definition mem_try :: "((string \<times> value) list \<Rightarrow> 'a \<times> (string \<times> value) list) \<Rightarrow> mem \<Rightarrow> ('a, mem) reply" where
  "mem_try f d = (case snd d of
     True # fs \<Rightarrow> (Inl ''connection reset'', (fst d, fs))
   | fs \<Rightarrow> (case f (fst d) of (x, al) \<Rightarrow> (Inr x, (al, drop 1 fs))))"

definition mem_try_num :: "((string \<times> value) list \<Rightarrow> ('a \<times> (string \<times> value) list) option) \<Rightarrow> mem \<Rightarrow> ('a, mem) reply" where
  "mem_try_num f d = (case f (fst d) of
     None \<Rightarrow> (Inl ''value is not an integer or out of range'', (fst d, drop 1 (snd d)))
   | Some r \<Rightarrow> mem_try (\<lambda>_. r) d)"

definition mem_cad :: "string \<Rightarrow> value \<Rightarrow> mem \<Rightarrow> (nat, mem) reply" where
  "mem_cad k v = mem_try (\<lambda>al. if map_of al k = Some v then (1, AList.delete k al) else (0, al))"

definition mem_env :: "(nat \<Rightarrow> u64) \<Rightarrow> mem env" where
  "mem_env clock = \<lparr>
     sb_get = \<lambda>k. mem_try (\<lambda>al. (map_of al k, al)),
     sb_mget = \<lambda>ks. mem_try (\<lambda>al. (map (map_of al) ks, al)),
     sb_exec = \<lambda>cs. mem_try (\<lambda>al. ((), fold al_cmd cs al)),
     sb_pipe = \<lambda>cs. mem_try (\<lambda>al. ((), fold al_cmd cs al)),
     sb_getdel = \<lambda>k. mem_try (\<lambda>al. (map_of al k, AList.delete k al)),
     sb_setnx = \<lambda>k v _. mem_try (\<lambda>al. if map_of al k = None then (True, AList.update k v al) else (False, al)),
     sb_setxx = \<lambda>k v _. mem_try (\<lambda>al. if map_of al k = None then (False, al) else (True, AList.update k v al)),
     sb_getex = \<lambda>k _. mem_try (\<lambda>al. (map_of al k, al)),
     sb_delifeq = mem_cad,
     sb_eval_cad = mem_cad,
     sb_ttl = \<lambda>k. mem_try (\<lambda>al. (if map_of al k = None then -2 else -1, al)),
     sb_incr = \<lambda>k _. mem_try_num (\<lambda>al. case map_of al k of
         None \<Rightarrow> Some (1, AList.update k (VNum 1) al)
       | Some v \<Rightarrow> (case as_num v of
           None \<Rightarrow> None
         | Some n \<Rightarrow> if unat n < 2 ^ 63 - 1 then Some (n + 1, AList.update k (VNum (n + 1)) al) else None)),
     sb_scan = \<lambda>_ prefix _. mem_try (\<lambda>al. ((0, filter (starts_with prefix) (remdups (map fst al))), al)),
     doc_len = (\<lambda>_. 100),
     sha256_hex = (\<lambda>s. take 64 (s @ replicate 64 CHR ''0'')),
     sha256_b64 = (\<lambda>s. take 43 (s @ replicate 43 CHR ''A'')),
     b64url = (\<lambda>s. s @ replicate ((length s + 2) div 3) CHR ''A''),
     uuid_text = (\<lambda>u. dec_string (unat u)),
     uuid_parse = (\<lambda>s. Some (of_nat (dec_value s))),
     wa_cred_id = (\<lambda>p. p),
     wa_counter = (\<lambda>p. of_nat (length p)),
     wa_update = (\<lambda>p _. Some p),
     ar_cred_id = takeWhile (\<lambda>c. c \<noteq> CHR ''#''),
     ar_counter = (\<lambda>r. of_nat (length (dropWhile (\<lambda>c. c \<noteq> CHR ''#'') r))),
     env_clock = clock,
     env_uuid = (\<lambda>i. of_nat (100 + i)),
     env_rand = (\<lambda>i n. replicate n (char_of (97 + i))),
     env_tenant = ''demo'' \<rparr>"

definition mem_world :: "(string \<times> value) list \<Rightarrow> bool list \<Rightarrow> mem world" where
  "mem_world al faults = \<lparr>w_db = (al, faults), w_ticks = 0, w_uuids = 0, w_rands = 0,
     w_mutation = Free, w_readers = 0, w_writer = Free, w_touches = []\<rparr>"

text \<open>Equations that run an operation on the in-memory datastore by rewriting.\<close>

named_theorems run_simps

lemmas run_base [run_simps] = ret_def fail_def sbind_def attempt_def fail_if_def db_cmd_def now_def
  new_v4_def random_bytes_def with_mutation_def with_snapshot_read_def with_snapshot_write_def
  decode_opt_def get_json_def exists_key_def take_json_def set_json_ex_def delete_key_def set_key_def
  mem_try_def mem_try_num_def mem_world_def scan_all_def scan_from.simps [of "mem_env clock" for clock] mem_cad_def Let_def

lemma mem_env_sel [run_simps]:
  "sb_get (mem_env clock) = (\<lambda>k. mem_try (\<lambda>al. (map_of al k, al)))"
  "sb_mget (mem_env clock) = (\<lambda>ks. mem_try (\<lambda>al. (map (map_of al) ks, al)))"
  "sb_exec (mem_env clock) = (\<lambda>cs. mem_try (\<lambda>al. ((), fold al_cmd cs al)))"
  "sb_pipe (mem_env clock) = (\<lambda>cs. mem_try (\<lambda>al. ((), fold al_cmd cs al)))"
  "sb_getdel (mem_env clock) = (\<lambda>k. mem_try (\<lambda>al. (map_of al k, AList.delete k al)))"
  "sb_setnx (mem_env clock) = (\<lambda>k v _. mem_try (\<lambda>al. if map_of al k = None then (True, AList.update k v al) else (False, al)))"
  "sb_setxx (mem_env clock) = (\<lambda>k v _. mem_try (\<lambda>al. if map_of al k = None then (False, al) else (True, AList.update k v al)))"
  "sb_getex (mem_env clock) = (\<lambda>k _. mem_try (\<lambda>al. (map_of al k, al)))"
  "sb_delifeq (mem_env clock) = (mem_cad)"
  "sb_eval_cad (mem_env clock) = (mem_cad)"
  "sb_ttl (mem_env clock) = (\<lambda>k. mem_try (\<lambda>al. (if map_of al k = None then -2 else -1, al)))"
  "sb_incr (mem_env clock) = (\<lambda>k _. mem_try_num (\<lambda>al. case map_of al k of None \<Rightarrow> Some (1, AList.update k (VNum 1) al) | Some v \<Rightarrow> (case as_num v of None \<Rightarrow> None | Some n \<Rightarrow> if unat n < 2 ^ 63 - 1 then Some (n + 1, AList.update k (VNum (n + 1)) al) else None)))"
  "sb_scan (mem_env clock) = (\<lambda>_ prefix _. mem_try (\<lambda>al. ((0, filter (starts_with prefix) (remdups (map fst al))), al)))"
  "doc_len (mem_env clock) = (\<lambda>_. 100)"
  "sha256_hex (mem_env clock) = (\<lambda>s. take 64 (s @ replicate 64 CHR ''0''))"
  "sha256_b64 (mem_env clock) = (\<lambda>s. take 43 (s @ replicate 43 CHR ''A''))"
  "b64url (mem_env clock) = (\<lambda>s. s @ replicate ((length s + 2) div 3) CHR ''A'')"
  "wa_cred_id (mem_env clock) = (\<lambda>p. p)"
  "wa_counter (mem_env clock) = (\<lambda>p. of_nat (length p))"
  "wa_update (mem_env clock) = (\<lambda>p _. Some p)"
  "ar_cred_id (mem_env clock) = (takeWhile (\<lambda>c. c \<noteq> CHR ''#''))"
  "ar_counter (mem_env clock) = (\<lambda>r. of_nat (length (dropWhile (\<lambda>c. c \<noteq> CHR ''#'') r)))"
  "env_clock (mem_env clock) = (clock)"
  "env_uuid (mem_env clock) = (\<lambda>i. of_nat (100 + i))"
  "env_rand (mem_env clock) = (\<lambda>i n. replicate n (char_of (97 + i)))"
  "env_tenant (mem_env clock) = (''demo'')"
  by (simp_all add: mem_env_def)

lemma run_result: "fst p = r \<Longrightarrow> p = (r, snd p)"
  by (simp add: prod_eq_iff)

lemma map_of_fold_delete: "map_of (fold AList.delete ks al) = (\<lambda>k. if k \<in> set ks then None else map_of al k)"
  by (induction ks arbitrary: al) (auto simp: fun_eq_iff AList.delete_conv')

lemma map_of_fold_update: "map_of (fold (\<lambda>(k, v). AList.update k v) kvs al) = fold (\<lambda>(k, v) m. m(k \<mapsto> v)) kvs (map_of al)"
  by (induction kvs arbitrary: al) (auto simp: AList.update_conv')

lemma map_of_al_cmd: "map_of (al_cmd c al) = apply_cmd c (map_of al)"
  by (cases c) (simp_all add: AList.update_conv' map_of_fold_delete map_of_fold_update)

lemma map_of_fold_al_cmd: "map_of (fold al_cmd cs al) = apply_cmds cs (map_of al)"
  by (induction cs arbitrary: al) (simp_all add: map_of_al_cmd)

lemma mem_try_cases:
  assumes "mem_try f d = (r, d')"
  obtains fs where "r = Inl ''connection reset''" "d' = (fst d, fs)"
  | fs where "r = Inr (fst (f (fst d)))" "d' = (snd (f (fst d)), fs)"
  using assms by (auto simp: mem_try_def split: list.splits bool.splits prod.splits)

lemma mem_try_num_cases:
  assumes "mem_try_num f d = (r, d')"
  obtains fs e where "r = Inl e" "d' = (fst d, fs)"
  | fs x al where "f (fst d) = Some (x, al)" "r = Inr x" "d' = (al, fs)"
  using assms by (auto simp: mem_try_num_def elim!: mem_try_cases split: option.splits)

interpretation memory: sabledb "mem_env clock" mem_view for clock
  by unfold_locales
    (auto simp: mem_env_def mem_view_def mem_cad_def map_of_fold_al_cmd AList.update_conv'
       AList.delete_conv' elim!: mem_try_cases mem_try_num_cases split: if_splits option.splits)

lemmas memory_uuid [run_simps] = memory.uuid_law memory.parse_uuid_text memory.uuid_text_inject

interpretation memory_scan: scanning "mem_env clock" mem_view "\<lambda>d p _. {k. starts_with p k \<and> mem_view d k \<noteq> None}" "\<lambda>_ _ _. 0"
  for clock
  by unfold_locales
    (auto simp: mem_env_def mem_view_def map_of_eq_None_iff elim!: mem_try_cases simp flip: not_None_eq, force+)

end
