(* ===== verification/EventLog.thy ===== *)
theory EventLog
  imports Memory
begin

text \<open>
  The append-only auth event log (\<open>src/src/store/events.rs\<close>): sequence allocation, the batched
  write that commits events with their cursor, and the paged read with its integrity checks. The
  log is specified as the list of retained events; \<open>log_ok\<close> is the invariant that the stored
  cursors and records denote such a list without gaps.
\<close>

section \<open>Operations\<close>

definition event_key :: "u64 \<Rightarrow> string" where
  "event_key n = ''auth:event:'' @ dec_string (unat n)"

abbreviation event_sequence_key :: string where
  "event_sequence_key \<equiv> ''auth:event-sequence''"

abbreviation event_min_key :: string where
  "event_min_key \<equiv> ''auth:event-min-sequence''"

definition empty_event_data :: json where
  "empty_event_data = JObj []"

definition latest_event_sequence :: "'db env \<Rightarrow> ('db, u64) sm" where
  "latest_event_sequence E = sbind (get_json E as_num event_sequence_key)
     (\<lambda>r. ret (case r of None \<Rightarrow> 0 | Some n \<Rightarrow> n))"

definition minimum_event_sequence :: "'db env \<Rightarrow> ('db, u64) sm" where
  "minimum_event_sequence E = sbind (get_json E as_num event_min_key)
     (\<lambda>r. ret (case r of None \<Rightarrow> 1 | Some n \<Rightarrow> n))"

type_synonym event_input = "string \<times> uuid option"

definition pending_event :: "'db env \<Rightarrow> u64 \<Rightarrow> nat \<times> event_input \<Rightarrow> ('db, AuthEvent) sm" where
  "pending_event E first = (\<lambda>(index, event_type, subject).
     sbind (ok_or (Bail ''auth event sequence exhausted'') (checked_add first (of_nat index))) (\<lambda>sequence.
     sbind (new_v4 E) (\<lambda>id.
     sbind (now E) (\<lambda>occurred_at.
     ret \<lparr>ev_sequence = sequence, ev_id = id, ev_tenant_id = env_tenant E, ev_type = event_type,
          ev_subject = subject, ev_occurred_at = occurred_at, ev_data = empty_event_data\<rparr>))))"

definition pending_events :: "'db env \<Rightarrow> event_input list \<Rightarrow> ('db, AuthEvent list) sm" where
  "pending_events E inputs =
     sbind (latest_event_sequence E) (\<lambda>latest.
     sbind (ok_or (Bail ''auth event sequence exhausted'') (checked_add latest 1)) (\<lambda>first.
     smap (pending_event E first) (enumerate 0 inputs)))"

definition queue_events :: "AuthEvent list \<Rightarrow> cmd list" where
  "queue_events events = (if events = [] then [] else
     [MSET (map (\<lambda>e. (event_key (ev_sequence e), VEvent e)) events @
            [(event_sequence_key, VNum (ev_sequence (last events)))])])"

text \<open>The end of a mutation: an atomic pipeline of its own commands followed by its events.\<close>

definition commit :: "'db env \<Rightarrow> cmd list \<Rightarrow> AuthEvent list \<Rightarrow> ('db, unit) sm" where
  "commit E cs events = db_cmd (sb_exec E (cs @ queue_events events))"

definition append_event_locked :: "'db env \<Rightarrow> string \<Rightarrow> uuid option \<Rightarrow> ('db, AuthEvent) sm" where
  "append_event_locked E event_type subject =
     sbind (pending_events E [(event_type, subject)]) (\<lambda>events.
     let event = last events in
     sbind (commit E [] [event]) (\<lambda>_. ret event))"

text \<open>The end of a mutation that writes first and logs in a second round trip.\<close>

definition exec_and_log :: "'db env \<Rightarrow> cmd list \<Rightarrow> string \<Rightarrow> uuid option \<Rightarrow> ('db, AuthEvent) sm" where
  "exec_and_log E cs event_type subject =
     sbind (db_cmd (sb_exec E cs)) (\<lambda>_. append_event_locked E event_type subject)"

definition append_event_within_snapshot :: "'db env \<Rightarrow> string \<Rightarrow> uuid option \<Rightarrow> ('db, AuthEvent) sm" where
  "append_event_within_snapshot E event_type subject =
     with_mutation (append_event_locked E event_type subject)"

definition exec_and_log_within :: "'db env \<Rightarrow> cmd list \<Rightarrow> string \<Rightarrow> uuid option \<Rightarrow> ('db, AuthEvent) sm" where
  "exec_and_log_within E cs event_type subject =
     sbind (db_cmd (sb_exec E cs)) (\<lambda>_. append_event_within_snapshot E event_type subject)"

definition append_event :: "'db env \<Rightarrow> string \<Rightarrow> uuid option \<Rightarrow> ('db, AuthEvent) sm" where
  "append_event E event_type subject =
     with_snapshot_read (append_event_within_snapshot E event_type subject)"

definition append_event_with_data :: "'db env \<Rightarrow> string \<Rightarrow> uuid option \<Rightarrow> json \<Rightarrow> ('db, AuthEvent) sm" where
  "append_event_with_data E event_type subject data =
     with_snapshot_read (with_mutation (
       sbind (pending_events E [(event_type, subject)]) (\<lambda>events.
       let event = (last events)\<lparr>ev_data := data\<rparr> in
       sbind (commit E [] [event]) (\<lambda>_. ret event))))"

definition append_telemetry_events :: "'db env \<Rightarrow> (string \<times> uuid option \<times> json) list \<Rightarrow> ('db, unit) sm" where
  "append_telemetry_events E inputs =
     (if inputs = [] then ret () else
      with_snapshot_read (with_mutation (
        sbind (pending_events E (map (\<lambda>(event_type, subject, _). (event_type, subject)) inputs)) (\<lambda>events.
        let events = map2 (\<lambda>event (_, _, data). event\<lparr>ev_data := data\<rparr>) events inputs in
        commit E [] events))))"

text \<open>The inclusive range \<open>first..=last\<close> of sequence numbers.\<close>

definition seq_range :: "u64 \<Rightarrow> u64 \<Rightarrow> u64 list" where
  "seq_range first last_seq = map of_nat [unat first..<Suc (unat last_seq)]"

text \<open>The loop of \<open>events\<close> over the fetched values: each must be present, decode, and carry the
  sequence number of its key.\<close>

fun check_event :: "u64 \<Rightarrow> value option \<Rightarrow> store_error + AuthEvent" where
  "check_event expected None = Inl (EventLog (MissingSequence expected))"
| "check_event expected (Some v) = (case as_event v of
     None \<Rightarrow> Inl (EventLog (MalformedRecord expected))
   | Some event \<Rightarrow> if ev_sequence event \<noteq> expected
       then Inl (EventLog (UnexpectedSequence expected (ev_sequence event))) else Inr event)"

fun check_events :: "u64 \<Rightarrow> value option list \<Rightarrow> store_error + AuthEvent list" where
  "check_events expected [] = Inr []"
| "check_events expected (v # vs) = (case check_event expected v of
     Inl e \<Rightarrow> Inl e
   | Inr event \<Rightarrow> (case check_events (expected + 1) vs of
       Inl e \<Rightarrow> Inl e | Inr events \<Rightarrow> Inr (event # events)))"

definition events :: "'db env \<Rightarrow> u64 \<Rightarrow> u64 \<Rightarrow> ('db, AuthEvent list) sm" where
  "events E after limit =
     (if limit = 0 then ret [] else
      sbind (minimum_event_sequence E) (\<lambda>minimum.
      if saturating_add after 1 < minimum then fail (EventLog (CursorExpired minimum)) else
      sbind (latest_event_sequence E) (\<lambda>latest.
      let end_seq = min latest (saturating_add after limit) in
      if end_seq \<le> after then ret [] else
      sbind (db_cmd (sb_mget E (map event_key (seq_range (after + 1) end_seq)))) (\<lambda>values.
      lift_result (check_events (after + 1) values)))))"

section \<open>The log as a list\<close>

definition latest_of :: "db_view \<Rightarrow> u64" where
  "latest_of v = (case v event_sequence_key of Some (VNum n) \<Rightarrow> n | _ \<Rightarrow> 0)"

definition minimum_of :: "db_view \<Rightarrow> u64" where
  "minimum_of v = (case v event_min_key of Some (VNum n) \<Rightarrow> n | _ \<Rightarrow> 1)"

definition event_at :: "db_view \<Rightarrow> u64 \<Rightarrow> AuthEvent" where
  "event_at v n = the (Option.bind (v (event_key n)) as_event)"

definition retained :: "db_view \<Rightarrow> AuthEvent list" where
  "retained v = map (event_at v) (seq_range (minimum_of v) (latest_of v))"

definition log_ok :: "db_view \<Rightarrow> bool" where
  "log_ok v \<longleftrightarrow>
     (\<forall>x. v event_sequence_key = Some x \<longrightarrow> (\<exists>n. x = VNum n)) \<and>
     (\<forall>x. v event_min_key = Some x \<longrightarrow> (\<exists>n. x = VNum n)) \<and>
     1 \<le> minimum_of v \<and> unat (minimum_of v) \<le> Suc (unat (latest_of v)) \<and>
     (\<forall>n. minimum_of v \<le> n \<and> n \<le> latest_of v \<longrightarrow>
        (\<exists>e. v (event_key n) = Some (VEvent e) \<and> ev_sequence e = n)) \<and>
     (\<forall>n. n < minimum_of v \<or> latest_of v < n \<longrightarrow> v (event_key n) = None)"

text \<open>The keys the log owns, and what it means for events to be next in line.\<close>

definition event_family :: "string \<Rightarrow> bool" where
  "event_family k \<longleftrightarrow> starts_with ''auth:event'' k"

definition next_events :: "'db env \<Rightarrow> db_view \<Rightarrow> event_input list \<Rightarrow> AuthEvent list \<Rightarrow> bool" where
  "next_events E v inputs evs \<longleftrightarrow>
     map (\<lambda>e. unat (ev_sequence e)) evs = [Suc (unat (latest_of v))..<Suc (unat (latest_of v)) + length inputs] \<and>
     map (\<lambda>e. (ev_type e, ev_subject e)) evs = inputs \<and>
     (\<forall>e \<in> set evs. ev_tenant_id e = env_tenant E)"

text \<open>What a mutation of the realm commits in one step: the map \<open>m\<close> on the keys of the other
  components, and the events \<open>evs\<close> for \<open>inputs\<close> on the keys of the log. \<open>maybe_committed\<close> is what an
  error leaves behind: nothing, or the whole mutation when only its reply was lost.\<close>

definition committed :: "'db env \<Rightarrow> db_view \<Rightarrow> db_view \<Rightarrow> event_input list \<Rightarrow> AuthEvent list \<Rightarrow> db_view \<Rightarrow> bool" where
  "committed E v m inputs evs v' \<longleftrightarrow> next_events E v inputs evs \<and>
     (\<forall>k. \<not> event_family k \<longrightarrow> v' k = m k) \<and>
     (\<forall>k. event_family k \<longrightarrow> v' k = apply_cmds (queue_events evs) v k)"

definition logged :: "'db env \<Rightarrow> db_view \<Rightarrow> db_view \<Rightarrow> event_input list \<Rightarrow> db_view \<Rightarrow> bool" where
  "logged E v m inputs v' \<longleftrightarrow> (\<exists>evs. committed E v m inputs evs v')"

definition maybe_committed :: "'db env \<Rightarrow> db_view \<Rightarrow> db_view \<Rightarrow> event_input list \<Rightarrow> db_view \<Rightarrow> bool" where
  "maybe_committed E v m inputs v' \<longleftrightarrow> v' = v \<or> (\<exists>evs. committed E v m inputs evs v')"

text \<open>What an error leaves behind when the write and its event are two round trips: nothing, the
  write alone, or both.\<close>

definition partly :: "'db env \<Rightarrow> db_view \<Rightarrow> db_view \<Rightarrow> event_input list \<Rightarrow> db_view \<Rightarrow> bool" where
  "partly E v m inputs v' \<longleftrightarrow> v' = v \<or> v' = m \<or> logged E v m inputs v'"

text \<open>The same when the write is one of those \<open>S\<close> allows: \<open>did\<close> after success, \<open>may\<close> after an error of an
  atomic mutation, \<open>may_part\<close> after an error of one in two round trips.\<close>

definition did :: "'db env \<Rightarrow> (db_view \<Rightarrow> bool) \<Rightarrow> event_input list \<Rightarrow> db_view \<Rightarrow> db_view \<Rightarrow> bool" where
  "did E S inputs v v' \<longleftrightarrow> (\<exists>m. S m \<and> logged E v m inputs v')"

definition may :: "'db env \<Rightarrow> (db_view \<Rightarrow> bool) \<Rightarrow> event_input list \<Rightarrow> db_view \<Rightarrow> db_view \<Rightarrow> bool" where
  "may E S inputs v v' \<longleftrightarrow> v' = v \<or> did E S inputs v v'"

definition may_part :: "'db env \<Rightarrow> (db_view \<Rightarrow> bool) \<Rightarrow> event_input list \<Rightarrow> db_view \<Rightarrow> db_view \<Rightarrow> bool" where
  "may_part E S inputs v v' \<longleftrightarrow> v' = v \<or> S v' \<or> did E S inputs v v'"

definition off_log :: "cmd list \<Rightarrow> bool" where
  "off_log cs \<longleftrightarrow> (\<forall>k \<in> cmds_keys cs. \<not> event_family k)"

section \<open>Keys and ranges\<close>

lemma event_key_inject [simp]: "event_key m = event_key n \<longleftrightarrow> m = n"
  by (simp add: event_key_def word_unat_eq_iff)

lemma event_key_simps [simp]:
  "event_key n \<noteq> event_sequence_key" "event_sequence_key \<noteq> event_key n"
  "event_key n \<noteq> event_min_key" "event_min_key \<noteq> event_key n"
  by (simp_all add: event_key_def)

lemma event_family_keys [simp]:
  "event_family (event_key n)" "event_family event_sequence_key" "event_family event_min_key"
  by (simp_all add: event_family_def event_key_def starts_with_def)

lemma set_seq_range: "set (seq_range a b) = {n. a \<le> n \<and> n \<le> b}"
proof -
  have "n \<in> set (seq_range a b) \<longleftrightarrow> a \<le> n \<and> n \<le> b" for n
  proof
    assume "n \<in> set (seq_range a b)"
    then obtain i where i: "n = of_nat i" "unat a \<le> i" "i \<le> unat b" by (auto simp: seq_range_def)
    have "i < 18446744073709551616" using i(3) unat_u64_less [of b] by simp
    then have "unat n = i" using i(1) by (simp add: unat_of_nat_u64)
    then show "a \<le> n \<and> n \<le> b" using i by (simp add: word_le_nat_alt)
  next
    assume "a \<le> n \<and> n \<le> b"
    then show "n \<in> set (seq_range a b)"
      by (auto simp: seq_range_def word_le_nat_alt simp del: upt_Suc intro!: image_eqI [of n of_nat "unat n"])
  qed
  then show ?thesis by auto
qed

lemma length_seq_range [simp]: "length (seq_range a b) = Suc (unat b) - unat a"
  by (simp add: seq_range_def Suc_diff_le)

lemma seq_range_Cons: "a \<le> b \<Longrightarrow> a \<noteq> b \<Longrightarrow> seq_range a b = a # seq_range (a + 1) b"
proof -
  assume "a \<le> b" "a \<noteq> b"
  then have "unat a < unat b" by (simp add: word_less_nat_alt [symmetric])
  moreover from this have "unat (a + 1) = Suc (unat a)"
    using unat_plus_no_wrap [of a 1] unat_u64_less [of b] by simp
  ultimately show ?thesis
    by (simp add: seq_range_def upt_conv_Cons del: upt_Suc)
qed

lemma seq_range_self [simp]: "seq_range a a = [a]"
  by (simp add: seq_range_def)

section \<open>The invariant\<close>

lemma log_ok_cong:
  assumes "\<And>k. event_family k \<Longrightarrow> v k = v' k"
  shows "log_ok v = log_ok v'" "retained v = retained v'"
    "latest_of v = latest_of v'" "minimum_of v = minimum_of v'"
proof -
  have k: "v event_sequence_key = v' event_sequence_key" "v event_min_key = v' event_min_key"
    "v (event_key n) = v' (event_key n)" for n by (simp_all add: assms)
  show "latest_of v = latest_of v'" "minimum_of v = minimum_of v'"
    by (simp_all add: latest_of_def minimum_of_def k)
  then show "log_ok v = log_ok v'" "retained v = retained v'"
    by (simp_all add: log_ok_def retained_def event_at_def k)
qed

lemma log_ok_empty: "(\<And>k. event_family k \<Longrightarrow> v k = None) \<Longrightarrow> log_ok v"
  by (auto simp: log_ok_def latest_of_def minimum_of_def word_le_nat_alt)

text \<open>Commands on other keys leave the log alone.\<close>

lemma log_frame:
  assumes "\<And>k. k \<in> cmds_keys cs \<Longrightarrow> \<not> event_family k"
  shows "log_ok (apply_cmds cs v) = log_ok v" "retained (apply_cmds cs v) = retained v"
    "latest_of (apply_cmds cs v) = latest_of v" "minimum_of (apply_cmds cs v) = minimum_of v"
proof -
  have "apply_cmds cs v k = v k" if "event_family k" for k
    using assms that by (auto intro: apply_cmds_other)
  then show "log_ok (apply_cmds cs v) = log_ok v" "retained (apply_cmds cs v) = retained v"
    "latest_of (apply_cmds cs v) = latest_of v" "minimum_of (apply_cmds cs v) = minimum_of v"
    using log_ok_cong [of "apply_cmds cs v" v] by blast+
qed

lemma next_events_frame:
  assumes "\<And>k. k \<in> cmds_keys cs \<Longrightarrow> \<not> event_family k"
  shows "next_events E (apply_cmds cs v) inputs evs = next_events E v inputs evs"
  by (simp add: next_events_def log_frame(3) [OF assms])

lemma fold_upd_mem:
  "distinct (map fst kvs) \<Longrightarrow> (k, x) \<in> set kvs \<Longrightarrow> fold (\<lambda>(k, v) m. m(k \<mapsto> v)) kvs m k = Some x"
proof (induction kvs arbitrary: m)
  case (Cons a kvs)
  then show ?case by (cases "a = (k, x)") (auto simp: fold_upd_other simp del: fun_upd_apply intro: fun_upd_same)
qed simp

lemma queue_events_keys: "k \<in> cmds_keys (queue_events evs) \<Longrightarrow> event_family k"
  by (auto simp: queue_events_def split: if_splits)

lemma distinct_event_keys:
  assumes "distinct (map (\<lambda>e. unat (ev_sequence e)) evs)"
  shows "distinct (map fst (map (\<lambda>e. (event_key (ev_sequence e), VEvent e)) evs @ [(event_sequence_key, x)]))"
  using assms by (auto simp: distinct_map inj_on_def)

lemma queue_events_apply:
  fixes v :: db_view
  assumes d: "distinct (map (\<lambda>e. unat (ev_sequence e)) evs)" and ne: "evs \<noteq> []"
  defines "v' \<equiv> apply_cmds (queue_events evs) v"
  shows "v' event_sequence_key = Some (VNum (ev_sequence (last evs)))"
    and "v' event_min_key = v event_min_key"
    and "e \<in> set evs \<Longrightarrow> v' (event_key (ev_sequence e)) = Some (VEvent e)"
    and "n \<notin> ev_sequence ` set evs \<Longrightarrow> v' (event_key n) = v (event_key n)"
proof -
  let ?kvs = "map (\<lambda>e. (event_key (ev_sequence e), VEvent e)) evs @
    [(event_sequence_key, VNum (ev_sequence (last evs)))]"
  have v': "v' = fold (\<lambda>(k, v) m. m(k \<mapsto> v)) ?kvs v"
    by (simp add: v'_def queue_events_def ne)
  note dk = distinct_event_keys [OF d]
  show "v' event_sequence_key = Some (VNum (ev_sequence (last evs)))"
    unfolding v' by (rule fold_upd_mem [OF dk]) simp
  show "v' event_min_key = v event_min_key"
    unfolding v' by (rule fold_upd_other) auto
  show "v' (event_key (ev_sequence e)) = Some (VEvent e)" if "e \<in> set evs"
    unfolding v' by (rule fold_upd_mem [OF dk]) (use that in auto)
  show "v' (event_key n) = v (event_key n)" if "n \<notin> ev_sequence ` set evs"
    unfolding v' by (rule fold_upd_other) (use that in auto)
qed

lemma next_events_distinct: "next_events E v inputs evs \<Longrightarrow> distinct (map (\<lambda>e. unat (ev_sequence e)) evs)"
  by (simp add: next_events_def)

lemma next_events_length: "next_events E v inputs evs \<Longrightarrow> length evs = length inputs"
  by (auto simp: next_events_def)

lemma next_events_set:
  assumes "next_events E v inputs evs"
  shows "unat ` ev_sequence ` set evs = {Suc (unat (latest_of v))..unat (latest_of v) + length inputs}"
proof -
  have "unat ` ev_sequence ` set evs = set (map (\<lambda>e. unat (ev_sequence e)) evs)" by auto
  also have "\<dots> = {Suc (unat (latest_of v))..<Suc (unat (latest_of v)) + length inputs}"
    using assms unfolding next_events_def by (metis set_upt)
  finally show ?thesis by auto
qed

lemma next_events_last:
  assumes "next_events E v inputs evs" "inputs \<noteq> []"
  shows "unat (ev_sequence (last evs)) = unat (latest_of v) + length inputs"
proof -
  have ne: "evs \<noteq> []" using assms next_events_length by fastforce
  then have "unat (ev_sequence (last evs)) = last (map (\<lambda>e. unat (ev_sequence e)) evs)"
    by (simp add: last_map)
  also have "\<dots> = unat (latest_of v) + length inputs"
    using assms unfolding next_events_def by (auto simp: last_upt)
  finally show ?thesis .
qed

lemma next_events_mem:
  assumes "next_events E v inputs evs"
  shows "n \<in> ev_sequence ` set evs \<longleftrightarrow>
    unat (latest_of v) < unat n \<and> unat n \<le> unat (latest_of v) + length inputs"
proof -
  have "n \<in> ev_sequence ` set evs \<longleftrightarrow> unat n \<in> unat ` ev_sequence ` set evs"
    by (metis (no_types, lifting) image_iff word_unat_eq_iff)
  then show ?thesis using next_events_set [OF assms] by auto
qed

text \<open>Committing the next events keeps the invariant, and as a list it is an append.\<close>

lemma queue_events_latest:
  assumes "next_events E v inputs evs"
  shows "unat (latest_of (apply_cmds (queue_events evs) v)) = unat (latest_of v) + length inputs"
    and "minimum_of (apply_cmds (queue_events evs) v) = minimum_of v"
proof -
  have "unat (latest_of (apply_cmds (queue_events evs) v)) = unat (latest_of v) + length inputs \<and>
    minimum_of (apply_cmds (queue_events evs) v) = minimum_of v"
  proof (cases "evs = []")
    case True
    then show ?thesis using next_events_length [OF assms] by (simp add: queue_events_def)
  next
    case False
    moreover from this have "inputs \<noteq> []" using next_events_length [OF assms] by auto
    ultimately show ?thesis
      using next_events_last [OF assms] queue_events_apply [OF next_events_distinct [OF assms]]
      by (simp add: latest_of_def minimum_of_def)
  qed
  then show "unat (latest_of (apply_cmds (queue_events evs) v)) = unat (latest_of v) + length inputs"
    "minimum_of (apply_cmds (queue_events evs) v) = minimum_of v" by simp_all
qed

lemma log_ok_queue:
  assumes ok: "log_ok v" and nx: "next_events E v inputs evs"
  shows "log_ok (apply_cmds (queue_events evs) v)" (is "log_ok ?v'")
proof (cases "evs = []")
  case True
  then show ?thesis using ok by (simp add: queue_events_def)
next
  case False
  note q = queue_events_apply [OF next_events_distinct [OF nx] False, where v = v]
  note l = queue_events_latest [OF nx]
  note m = next_events_mem [OF nx]
  have rec: "\<exists>e. ?v' (event_key n) = Some (VEvent e) \<and> ev_sequence e = n"
    if "minimum_of v \<le> n" "n \<le> latest_of ?v'" for n
  proof (cases "n \<in> ev_sequence ` set evs")
    case True
    then show ?thesis using q(3) by auto
  next
    case new: False
    then have "n \<le> latest_of v" using that(2) m l(1) by (auto simp: word_le_nat_alt)
    then show ?thesis using ok that(1) q(4) [OF new] by (auto simp: log_ok_def)
  qed
  have none: "?v' (event_key n) = None" if "n < minimum_of v \<or> latest_of ?v' < n" for n
  proof -
    have "latest_of v < n \<or> n < minimum_of v" "n \<notin> ev_sequence ` set evs"
      using that l(1) m ok by (auto simp: word_less_nat_alt log_ok_def word_le_nat_alt)
    then show ?thesis using ok q(4) by (auto simp: log_ok_def)
  qed
  show ?thesis
    using ok rec none l q(1,2) unfolding log_ok_def by auto
qed

lemma retained_queue:
  assumes ok: "log_ok v" and nx: "next_events E v inputs evs"
  shows "retained (apply_cmds (queue_events evs) v) = retained v @ evs" (is "retained ?v' = _")
proof (cases "evs = []")
  case True
  then show ?thesis by (simp add: queue_events_def)
next
  case False
  let ?m = "unat (minimum_of v)" and ?l = "unat (latest_of v)"
  note q = queue_events_apply [OF next_events_distinct [OF nx] False, where v = v]
  note l = queue_events_latest [OF nx]
  note m = next_events_mem [OF nx]
  have le: "?m \<le> Suc ?l" using ok by (simp add: log_ok_def)
  have split: "seq_range (minimum_of v) (latest_of ?v') =
      seq_range (minimum_of v) (latest_of v) @ map ev_sequence evs"
  proof -
    have "map ev_sequence evs = map of_nat (map (\<lambda>e. unat (ev_sequence e)) evs)" by simp
    also have "\<dots> = map of_nat [Suc ?l..<Suc ?l + length inputs]"
      using nx unfolding next_events_def by metis
    finally show ?thesis
      using le l(1) upt_add_eq_append [of ?m "Suc ?l" "length inputs"]
      by (simp add: seq_range_def del: upt_Suc)
  qed
  have old: "event_at ?v' n = event_at v n" if "n \<in> set (seq_range (minimum_of v) (latest_of v))" for n
    using that m q(4) by (auto simp: set_seq_range event_at_def word_le_nat_alt)
  have new: "map (event_at ?v') (map ev_sequence evs) = evs"
    by (rule map_idI [THEN trans [rotated]]) (auto simp: event_at_def q(3) intro: map_idI)
  show ?thesis unfolding retained_def l(2) split using old new by simp
qed

section \<open>Pages of the log\<close>

lemma log_ok_event:
  assumes "log_ok v" "minimum_of v \<le> n" "n \<le> latest_of v"
  shows "v (event_key n) = Some (VEvent (event_at v n))" "ev_sequence (event_at v n) = n"
  using assms by (fastforce simp: log_ok_def event_at_def)+

lemma check_events_range:
  assumes "log_ok v" "minimum_of v \<le> a" "b \<le> latest_of v" "a \<le> b"
  shows "check_events a (map v (map event_key (seq_range a b))) = Inr (map (event_at v) (seq_range a b))"
  using assms
proof (induction "unat b - unat a" arbitrary: a)
  case 0
  then have "a = b" by (simp add: word_le_nat_alt word_unat_eq_iff)
  then show ?case using log_ok_event [of v a] 0 by simp
next
  case (Suc x)
  then have ne: "a \<noteq> b" by auto
  have lt: "unat a < unat b" using Suc.prems(4) ne by (simp add: word_le_nat_alt word_unat_eq_iff)
  then have u: "unat (a + 1) = Suc (unat a)"
    using unat_plus_no_wrap [of a 1] unat_u64_less [of b] by simp
  have "check_events (a + 1) (map v (map event_key (seq_range (a + 1) b))) = Inr (map (event_at v) (seq_range (a + 1) b))"
    using Suc.hyps(2) Suc.prems u lt by (intro Suc.hyps(1)) (auto simp: word_le_nat_alt)
  moreover have "v (event_key a) = Some (VEvent (event_at v a))" "ev_sequence (event_at v a) = a"
    using log_ok_event [of v a] Suc.prems by auto
  ultimately show ?case by (simp add: seq_range_Cons [OF Suc.prems(4) ne])
qed

lemma filter_upt_gt: "m \<le> Suc a \<Longrightarrow> filter (\<lambda>i. a < i) [m..<n] = [Suc a..<n]"
proof (induction n)
  case (Suc n)
  then show ?case by (cases "m \<le> n") auto
qed simp

lemma retained_after:
  assumes ok: "log_ok v" and "unat (minimum_of v) \<le> Suc (unat a)"
  shows "filter (\<lambda>e. a < ev_sequence e) (retained v) =
    map (event_at v) (map of_nat [Suc (unat a)..<Suc (unat (latest_of v))])"
proof -
  have in_range: "i < 18446744073709551616" if "i \<le> unat (latest_of v)" for i
    using that unat_u64_less [of "latest_of v"] by simp
  have "filter (\<lambda>e. a < ev_sequence e) (retained v) =
      map (event_at v) (filter (\<lambda>n. a < n) (seq_range (minimum_of v) (latest_of v)))"
    unfolding retained_def filter_map comp_def
    by (rule arg_cong [where f = "map (event_at v)"], rule filter_cong)
      (auto simp: set_seq_range log_ok_event(2) [OF ok])
  also have "filter (\<lambda>n. a < n) (seq_range (minimum_of v) (latest_of v)) =
      map of_nat (filter (\<lambda>i. unat a < i) [unat (minimum_of v)..<Suc (unat (latest_of v))])"
    unfolding seq_range_def filter_map comp_def
    by (rule arg_cong [where f = "map of_nat"], rule filter_cong)
      (auto simp: word_less_nat_alt unat_of_nat_u64 in_range simp del: upt_Suc)
  also have "\<dots> = map of_nat [Suc (unat a)..<Suc (unat (latest_of v))]"
    using filter_upt_gt [OF assms(2)] by (simp del: upt_Suc)
  finally show ?thesis .
qed

definition event_page :: "db_view \<Rightarrow> u64 \<Rightarrow> u64 \<Rightarrow> AuthEvent list" where
  "event_page v a limit = take (unat limit) (filter (\<lambda>e. a < ev_sequence e) (retained v))"

lemma event_page_range:
  fixes a limit :: u64
  assumes ok: "log_ok v" and min: "minimum_of v \<le> saturating_add a 1"
  defines "b \<equiv> min (latest_of v) (saturating_add a limit)"
  shows "b \<le> a \<Longrightarrow> limit \<noteq> 0 \<Longrightarrow> event_page v a limit = []"
    and "a < b \<Longrightarrow> event_page v a limit = map (event_at v) (seq_range (a + 1) b)"
    and "a < b \<Longrightarrow> minimum_of v \<le> a + 1 \<and> a + 1 \<le> b"
proof -
  have m: "unat (minimum_of v) \<le> Suc (unat a)"
    using min by (simp add: word_le_nat_alt unat_saturating_add)
  have ub: "unat b = min (unat (latest_of v)) (min (unat a + unat limit) 18446744073709551615)"
    unfolding b_def by (simp add: min_def word_le_nat_alt unat_saturating_add)
  have page: "event_page v a limit =
      map (event_at v) (map of_nat (take (unat limit) [Suc (unat a)..<Suc (unat (latest_of v))]))"
    unfolding event_page_def retained_after [OF ok m] by (simp add: take_map del: upt_Suc)
  show "event_page v a limit = []" if le: "b \<le> a" and nz: "limit \<noteq> 0"
  proof -
    have "unat limit > 0" using nz by (simp add: unat_gt_0)
    then have "unat (latest_of v) \<le> unat a"
      using le ub unat_u64_less [of "latest_of v"] by (auto simp: word_le_nat_alt)
    then show ?thesis unfolding page by (simp del: upt_Suc)
  qed
  show "event_page v a limit = map (event_at v) (seq_range (a + 1) b)" if lt: "a < b"
  proof -
    have u: "unat (a + 1) = Suc (unat a)"
      using lt unat_plus_no_wrap [of a 1] unat_u64_less [of b] by (simp add: word_less_nat_alt)
    have "take (unat limit) [Suc (unat a)..<Suc (unat (latest_of v))] = [Suc (unat a)..<Suc (unat b)]"
      using lt ub unat_u64_less [of "latest_of v"]
      by (auto simp: word_less_nat_alt take_upt min_def not_le simp del: upt_Suc split: if_splits)
    then show ?thesis unfolding page seq_range_def u by simp
  qed
  show "minimum_of v \<le> a + 1 \<and> a + 1 \<le> b" if lt: "a < b"
    using lt m unat_plus_no_wrap [of a 1] unat_u64_less [of b] by (simp add: word_order_nat)
qed

section \<open>The operations under the datastore contract\<close>

context sabledb
begin

lemma latest_spec:
  "spec (latest_event_sequence E)
     (\<lambda>n w'. keeps w w' \<and> content w' = content w \<and> n = latest_of (content w))
     (\<lambda>e w'. keeps w w' \<and> content w' = content w \<and> (log_ok (content w) \<longrightarrow> (\<exists>t. e = Redis t))) w"
  unfolding latest_event_sequence_def spec_def
  by (auto simp: wp_simps latest_of_def keeps_def log_ok_def intro!: wp_get_json)

lemma minimum_spec:
  "spec (minimum_event_sequence E)
     (\<lambda>n w'. keeps w w' \<and> content w' = content w \<and> n = minimum_of (content w))
     (\<lambda>e w'. keeps w w' \<and> content w' = content w \<and> (log_ok (content w) \<longrightarrow> (\<exists>t. e = Redis t))) w"
  unfolding minimum_event_sequence_def spec_def
  by (auto simp: wp_simps minimum_of_def keeps_def log_ok_def intro!: wp_get_json)

end

text \<open>Allocation of consecutive sequence numbers. It stops with an error before the counter can
  wrap, so the numbers are consecutive as naturals.\<close>

lemma wp_pending_event [wp_simps]:
  "wp (pending_event E first (i, ty, s)) Q w = (case checked_add first (of_nat i) of
     None \<Rightarrow> Q (Err (Bail ''auth event sequence exhausted'')) w
   | Some n \<Rightarrow> Q (Ok \<lparr>ev_sequence = n, ev_id = env_uuid E (w_uuids w), ev_tenant_id = env_tenant E, ev_type = ty,
       ev_subject = s, ev_occurred_at = env_clock E (w_ticks w), ev_data = empty_event_data\<rparr>)
       (w\<lparr>w_uuids := Suc (w_uuids w), w_ticks := Suc (w_ticks w)\<rparr>))"
  by (simp add: pending_event_def wp_simps split: option.splits)

lemma pending_event_list_spec:
  assumes "1 \<le> unat first" "unat first + k \<le> 18446744073709551616"
  shows "spec (smap (pending_event E first) (enumerate k inputs))
     (\<lambda>evs w'. keeps w w' \<and> w_db w' = w_db w \<and>
        map (\<lambda>e. unat (ev_sequence e)) evs = [unat first + k..<unat first + k + length inputs] \<and>
        map (\<lambda>e. (ev_type e, ev_subject e)) evs = inputs \<and>
        (\<forall>e \<in> set evs. ev_tenant_id e = env_tenant E \<and> ev_data e = empty_event_data))
     (\<lambda>e w'. keeps w w' \<and> w_db w' = w_db w) w"
  using assms(2)
proof (induction inputs arbitrary: k w)
  case Nil
  then show ?case by (simp add: spec_def wp_simps)
next
  case (Cons i inputs)
  show ?case
  proof (cases "unat first + k < 18446744073709551616")
    case True
    then have k: "unat (of_nat k :: u64) = k" by (simp add: unat_of_nat_u64)
    have s: "unat (first + of_nat k) = unat first + k"
      using unat_plus_no_wrap [of first "of_nat k"] True by (simp add: k)
    show ?thesis unfolding spec_def using True
      by (cases i) (auto simp: wp_simps checked_add_def k s keeps_def upt_conv_Cons
        simp del: upt_Suc intro!: wp_use [OF Cons.IH])
  next
    case False
    then have eq: "unat first + k = 18446744073709551616" using Cons.prems by simp
    then have "unat (of_nat k :: u64) = k" using assms(1) by (simp add: unat_of_nat_u64)
    then show ?thesis unfolding spec_def
      by (cases i) (auto simp: wp_simps checked_add_def eq)
  qed
qed

context sabledb
begin

lemma pending_spec:
  "spec (pending_events E inputs)
     (\<lambda>evs w'. keeps w w' \<and> content w' = content w \<and> next_events E (content w) inputs evs \<and>
        (\<forall>e \<in> set evs. ev_data e = empty_event_data))
     (\<lambda>_ w'. keeps w w' \<and> content w' = content w) w"
proof -
  have nowrap: "spec (smap (pending_event E (latest_of (content w) + 1)) (enumerate 0 inputs))
     (\<lambda>evs w''. keeps w w'' \<and> content w'' = content w \<and> next_events E (content w) inputs evs \<and>
        (\<forall>e \<in> set evs. ev_data e = empty_event_data))
     (\<lambda>_ w''. keeps w w'' \<and> content w'' = content w) w'"
    if w': "keeps w w'" "content w' = content w"
      and c: "unat (latest_of (content w)) + 1 < 18446744073709551616" for w'
  proof -
    have u: "unat (latest_of (content w) + 1) = Suc (unat (latest_of (content w)))"
      using unat_plus_no_wrap [of "latest_of (content w)" 1] c by simp
    show ?thesis
      by (rule spec_conseq [OF pending_event_list_spec])
        (use u c w' keeps_trans [OF w'(1)] in \<open>auto simp: next_events_def\<close>)
  qed
  show ?thesis unfolding pending_events_def spec_def
    by (auto simp: wp_simps checked_add_def intro!: wp_use [OF latest_spec]
      nowrap [unfolded spec_def] split: option.splits)
qed

end

lemma queue_events_other: "\<not> event_family k \<Longrightarrow> apply_cmds (queue_events evs) m k = m k"
  using queue_events_keys by (blast intro: apply_cmds_other)

lemma committedI:
  assumes "next_events E v inputs evs" "\<And>k. event_family k \<Longrightarrow> m k = v k"
    and "v' = apply_cmds (queue_events evs) m"
  shows "committed E v m inputs evs v'"
proof -
  have "v' k = apply_cmds (queue_events evs) v k" if "event_family k" for k
    unfolding assms(3) by (rule apply_cmds_cong) (simp add: assms(2) that)
  then show ?thesis using assms(1,3) by (simp add: committed_def queue_events_other)
qed

lemma committed_log:
  assumes "log_ok v" "committed E v m inputs evs v'"
  shows "log_ok v'" "retained v' = retained v @ evs"
    "unat (latest_of v') = unat (latest_of v) + length inputs" "minimum_of v' = minimum_of v"
proof -
  have nx: "next_events E v inputs evs"
    and k: "event_family k \<Longrightarrow> v' k = apply_cmds (queue_events evs) v k" for k
    using assms(2) by (simp_all add: committed_def)
  note c = log_ok_cong [of v' "apply_cmds (queue_events evs) v", OF k]
  show "log_ok v'" "retained v' = retained v @ evs"
    "unat (latest_of v') = unat (latest_of v) + length inputs" "minimum_of v' = minimum_of v"
    using c log_ok_queue [OF assms(1) nx] retained_queue [OF assms(1) nx] queue_events_latest [OF nx] by simp_all
qed

lemma maybe_committed_refl [simp]: "maybe_committed E v m inputs v"
  by (simp add: maybe_committed_def)

lemma maybe_committedI: "committed E v m inputs evs v' \<Longrightarrow> maybe_committed E v m inputs v'"
  by (auto simp: maybe_committed_def)

lemma maybe_committed_log:
  "log_ok v \<Longrightarrow> maybe_committed E v m inputs v' \<Longrightarrow> log_ok v'"
  using committed_log(1) by (auto simp: maybe_committed_def)

lemma logged_log: "log_ok v \<Longrightarrow> logged E v m inputs v' \<Longrightarrow> log_ok v'"
  using committed_log(1) by (auto simp: logged_def)

lemma maybe_committed_logged: "maybe_committed E v m inputs v' \<longleftrightarrow> v' = v \<or> logged E v m inputs v'"
  by (simp add: maybe_committed_def logged_def)

lemma partly_refl [simp]: "partly E v m inputs v"
  by (simp add: partly_def)

lemma partly_log: "log_ok v \<Longrightarrow> log_ok m \<Longrightarrow> partly E v m inputs v' \<Longrightarrow> log_ok v'"
  using logged_log by (auto simp: partly_def)

lemma may_refl [simp]: "may E S inputs v v" "may_part E S inputs v v"
  by (simp_all add: may_def may_part_def)

lemma didE:
  assumes "did E S inputs v v'"
  obtains m where "S m" "logged E v m inputs v'"
  using assms by (auto simp: did_def)

text \<open>An invariant that does not look at the log and that every write of \<open>S\<close> keeps.\<close>

lemma did_inv:
  assumes "did E S inputs v v'" "\<And>m. S m \<Longrightarrow> P m" "\<And>m. logged E v m inputs v' \<Longrightarrow> P m \<Longrightarrow> P v'"
  shows "P v'"
  using assms by (auto simp: did_def)

lemma did_log: "log_ok v \<Longrightarrow> did E S inputs v v' \<Longrightarrow> log_ok v'"
  using logged_log by (auto simp: did_def)

lemma may_log: "log_ok v \<Longrightarrow> may E S inputs v v' \<Longrightarrow> log_ok v'"
  using did_log by (auto simp: may_def)

lemma may_part_log: "log_ok v \<Longrightarrow> (\<And>m. S m \<Longrightarrow> log_ok m) \<Longrightarrow> may_part E S inputs v v' \<Longrightarrow> log_ok v'"
  using did_log by (auto simp: may_part_def)

lemma off_log_simps [simp]:
  "off_log []" "off_log (SET k x # cs) \<longleftrightarrow> \<not> event_family k \<and> off_log cs"
  "off_log (SETEX k x t # cs) \<longleftrightarrow> \<not> event_family k \<and> off_log cs"
  "off_log (DEL ks # cs) \<longleftrightarrow> (\<forall>k \<in> set ks. \<not> event_family k) \<and> off_log cs"
  "off_log (cs @ cs') \<longleftrightarrow> off_log cs \<and> off_log cs'"
  by (auto simp: off_log_def)

lemma off_log_frame: "off_log cs \<Longrightarrow> log_ok (apply_cmds cs v) = log_ok v"
  unfolding off_log_def by (rule log_frame(1)) blast

lemma logged_other: "logged E v m inputs v' \<Longrightarrow> \<not> event_family k \<Longrightarrow> v' k = m k"
  by (auto simp: logged_def committed_def)

lemma committed_other: "committed E v m inputs evs v' \<Longrightarrow> \<not> event_family k \<Longrightarrow> v' k = m k"
  by (simp add: committed_def)

lemma next_events_data:
  "next_events E v [(ty, s)] evs \<Longrightarrow> next_events E v [(ty, s)] [(last evs)\<lparr>ev_data := x\<rparr>]"
  by (cases evs) (auto simp: next_events_def)

lemma next_events_single: "next_events E v [i] evs \<Longrightarrow> evs = [last evs]"
  using next_events_length [of E v "[i]" evs] by (cases evs) auto

lemma map_set_data:
  assumes "length evs = length inputs" "\<And>e x. f (e\<lparr>ev_data := x\<rparr>) = f e"
  shows "map f (map2 (\<lambda>event (_, _, x). event\<lparr>ev_data := x\<rparr>) evs inputs) = map f evs"
  using assms by (induction evs inputs rule: list_induct2) auto

context sabledb
begin

lemma wp_commit:
  assumes "next_events E (content w) inputs evs"
    and "\<And>k. k \<in> cmds_keys cs \<Longrightarrow> \<not> event_family k"
    and "\<And>w' e. keeps w w' \<Longrightarrow> maybe_committed E (content w) (apply_cmds cs (content w)) inputs (content w') \<Longrightarrow>
      Q (Err e) w'"
    and "\<And>w'. keeps w w' \<Longrightarrow> committed E (content w) (apply_cmds cs (content w)) inputs evs (content w') \<Longrightarrow>
      Q (Ok ()) w'"
  shows "wp (commit E cs evs) Q w"
proof -
  have c: "committed E (content w) (apply_cmds cs (content w)) inputs evs
      (apply_cmds (queue_events evs) (apply_cmds cs (content w)))"
  proof (rule committedI [OF assms(1)])
    show "apply_cmds cs (content w) k = content w k" if "event_family k" for k
      using assms(2) that by (blast intro: apply_cmds_other)
  qed simp
  have k: "keeps w (w\<lparr>w_db := d\<rparr>)" for d by (simp add: keeps_def)
  show ?thesis unfolding commit_def
  proof (rule wp_exec)
    fix d e assume "view d = content w"
    then show "Q (Err (Redis e)) (w\<lparr>w_db := d\<rparr>)" by (intro assms(3) k) simp
  next
    fix d e assume "view d = apply_cmds (cs @ queue_events evs) (content w)"
    then show "Q (Err (Redis e)) (w\<lparr>w_db := d\<rparr>)" by (intro assms(3) k maybe_committedI [of E _ _ _ evs]) (simp add: c)
  next
    fix d assume "view d = apply_cmds (cs @ queue_events evs) (content w)"
    then show "Q (Ok ()) (w\<lparr>w_db := d\<rparr>)" by (intro assms(4) k) (simp add: c)
  qed
qed

lemma wp_commit_logged:
  assumes "next_events E (content w) inputs evs"
    and "\<And>k. k \<in> cmds_keys cs \<Longrightarrow> \<not> event_family k"
    and "\<And>w' e. keeps w w' \<Longrightarrow> maybe_committed E (content w) (apply_cmds cs (content w)) inputs (content w') \<Longrightarrow>
      Q (Err e) w'"
    and "\<And>w'. keeps w w' \<Longrightarrow> logged E (content w) (apply_cmds cs (content w)) inputs (content w') \<Longrightarrow>
      Q (Ok ()) w'"
  shows "wp (commit E cs evs) Q w"
  by (rule wp_commit [OF assms(1)]) (auto intro!: assms(2-4) simp: logged_def)

text \<open>A pipeline with further commands after the events.\<close>

lemma wp_exec_around:
  assumes "next_events E (content w) inputs evs"
    and keys: "\<And>k. k \<in> cmds_keys (cs @ cs') \<Longrightarrow> \<not> event_family k"
    and "\<And>w' e. keeps w w' \<Longrightarrow> maybe_committed E (content w) (apply_cmds (cs @ cs') (content w)) inputs (content w') \<Longrightarrow>
      Q (Err e) w'"
    and "\<And>w'. keeps w w' \<Longrightarrow> logged E (content w) (apply_cmds (cs @ cs') (content w)) inputs (content w') \<Longrightarrow>
      Q (Ok ()) w'"
  shows "wp (db_cmd (sb_exec E (cs @ queue_events evs @ cs'))) Q w"
proof -
  let ?v = "content w" and ?q = "queue_events evs"
  have "apply_cmds (cs @ ?q @ cs') ?v k = apply_cmds ?q (apply_cmds (cs @ cs') ?v) k" for k
  proof (cases "event_family k")
    case True
    then have n: "k \<notin> cmds_keys cs" "k \<notin> cmds_keys cs'" using keys [of k] by auto
    then have "apply_cmds (cs @ cs') ?v k = ?v k" "apply_cmds cs ?v k = ?v k" by (simp_all add: apply_cmds_other)
    then have "apply_cmds ?q (apply_cmds (cs @ cs') ?v) k = apply_cmds ?q (apply_cmds cs ?v) k"
      by (intro apply_cmds_cong) simp
    then show ?thesis using n by (simp add: apply_cmds_other)
  next
    case False
    have "apply_cmds cs' (apply_cmds ?q (apply_cmds cs ?v)) k = apply_cmds cs' (apply_cmds cs ?v) k"
      by (rule apply_cmds_cong) (rule queue_events_other [OF False])
    then show ?thesis using queue_events_other [OF False] by simp
  qed
  then have eq: "apply_cmds (cs @ ?q @ cs') ?v = apply_cmds ?q (apply_cmds (cs @ cs') ?v)" by blast
  have c: "committed E ?v (apply_cmds (cs @ cs') ?v) inputs evs (apply_cmds (cs @ ?q @ cs') ?v)"
    by (rule committedI [OF assms(1) _ eq]) (use keys in \<open>blast intro: apply_cmds_other\<close>)
  show ?thesis
    by (rule wp_exec)
      (use c in \<open>auto simp: logged_def maybe_committed_def keeps_def intro!: assms(3,4)\<close>)
qed

lemma next_events_only_last: "next_events E v [i] evs \<Longrightarrow> next_events E v [i] [last evs]"
  by (metis next_events_single)

lemma append_event_locked_spec:
  "spec (append_event_locked E ty s)
     (\<lambda>ev w'. keeps w w' \<and> committed E (content w) (content w) [(ty, s)] [ev] (content w'))
     (\<lambda>_ w'. keeps w w' \<and> maybe_committed E (content w) (content w) [(ty, s)] (content w')) w"
  unfolding append_event_locked_def spec_def
  by (auto simp: wp_simps Let_def keeps_def intro!: wp_use [OF pending_spec] wp_commit [where inputs = "[(ty, s)]"]
      next_events_only_last)

lemma wp_exec_then_log:
  assumes keys: "\<And>k. k \<in> cmds_keys cs \<Longrightarrow> \<not> event_family k"
    and log: "\<And>w'. keeps w w' \<Longrightarrow> spec log
      (\<lambda>ev w''. keeps w' w'' \<and> committed E (content w') (content w') [(ty, s)] [ev] (content w''))
      (\<lambda>_ w''. keeps w' w'' \<and> maybe_committed E (content w') (content w') [(ty, s)] (content w'')) w'"
    and "\<And>w' e. keeps w w' \<Longrightarrow> partly E (content w) (apply_cmds cs (content w)) [(ty, s)] (content w') \<Longrightarrow> Q (Err e) w'"
    and "\<And>w' ev. keeps w w' \<Longrightarrow> logged E (content w) (apply_cmds cs (content w)) [(ty, s)] (content w') \<Longrightarrow> Q (Ok ev) w'"
  shows "wp (sbind (db_cmd (sb_exec E cs)) (\<lambda>_. log)) Q w"
proof -
  let ?v = "content w" and ?m = "apply_cmds cs (content w)"
  have lift: "logged E ?v ?m [(ty, s)] v'" if "committed E ?m ?m [(ty, s)] evs v'" for evs v'
  proof -
    have m: "?m k = ?v k" if "event_family k" for k using keys that by (blast intro: apply_cmds_other)
    then have "latest_of ?m = latest_of ?v" by (intro log_ok_cong) blast
    moreover have "apply_cmds (queue_events evs) ?m k = apply_cmds (queue_events evs) ?v k" if "event_family k" for k
      by (rule apply_cmds_cong) (rule m [OF that])
    ultimately have "committed E ?v ?m [(ty, s)] evs v'" using that by (simp add: committed_def next_events_def)
    then show ?thesis by (auto simp: logged_def)
  qed
  show ?thesis
    by (auto simp: wp_simps partly_def keeps_def maybe_committed_def intro!: wp_exec wp_use [OF log] assms(3,4))
      (use lift in blast)+
qed

lemma append_event_within_snapshot_spec:
  assumes "w_mutation w = Free"
  shows "spec (append_event_within_snapshot E ty s)
     (\<lambda>ev w'. keeps w w' \<and> committed E (content w) (content w) [(ty, s)] [ev] (content w'))
     (\<lambda>_ w'. keeps w w' \<and> maybe_committed E (content w) (content w) [(ty, s)] (content w')) w"
  unfolding append_event_within_snapshot_def spec_def
  using assms by (auto simp: wp_simps keeps_def intro!: wp_use [OF append_event_locked_spec])

lemma wp_commit_step:
  assumes "next_events E (content w) inputs evs" "off_log cs"
    and "\<And>w'. keeps w w' \<Longrightarrow> did E (S x) inputs (content w) (content w') \<Longrightarrow> Q (Ok ()) w'"
    and "\<And>w' e. keeps w w' \<Longrightarrow> may E (\<lambda>m. \<exists>x. S x m) inputs (content w) (content w') \<Longrightarrow> Q (Err e) w'"
    and "S x (apply_cmds cs (content w))"
  shows "wp (commit E cs evs) Q w"
  by (rule wp_commit_logged [OF assms(1)],
      use assms(2,5) in \<open>auto simp: off_log_def did_def may_def maybe_committed_logged intro!: assms(3,4)\<close>) blast+

lemma wp_exec_around_step:
  assumes "next_events E (content w) inputs evs" "off_log cs" "off_log cs'"
    and "\<And>w'. keeps w w' \<Longrightarrow> did E (S x) inputs (content w) (content w') \<Longrightarrow> Q (Ok ()) w'"
    and "\<And>w' e. keeps w w' \<Longrightarrow> may E (\<lambda>m. \<exists>x. S x m) inputs (content w) (content w') \<Longrightarrow> Q (Err e) w'"
    and "S x (apply_cmds (cs @ cs') (content w))"
  shows "wp (db_cmd (sb_exec E (cs @ queue_events evs @ cs'))) Q w"
  by (rule wp_exec_around [OF assms(1)],
      use assms(2,3,6) in \<open>auto simp: off_log_def did_def may_def maybe_committed_logged intro!: assms(4,5)\<close>) blast+

lemma wp_exec_and_log_step:
  assumes "off_log cs"
    and "\<And>w' ev. keeps w w' \<Longrightarrow> did E (S x) [(ty, s)] (content w) (content w') \<Longrightarrow> Q (Ok ev) w'"
    and "\<And>w' e. keeps w w' \<Longrightarrow> may_part E (\<lambda>m. \<exists>x. S x m) [(ty, s)] (content w) (content w') \<Longrightarrow> Q (Err e) w'"
    and "S x (apply_cmds cs (content w))"
  shows "wp (exec_and_log E cs ty s) Q w"
  unfolding exec_and_log_def
  by (rule wp_exec_then_log [OF _ append_event_locked_spec],
      use assms(1,4) in \<open>auto simp: off_log_def did_def may_part_def partly_def intro!: assms(2,3)\<close>) blast+

lemma wp_exec_and_log_within_step:
  assumes "off_log cs" "w_mutation w = Free"
    and "\<And>w' ev. keeps w w' \<Longrightarrow> did E (S x) [(ty, s)] (content w) (content w') \<Longrightarrow> Q (Ok ev) w'"
    and "\<And>w' e. keeps w w' \<Longrightarrow> may_part E (\<lambda>m. \<exists>x. S x m) [(ty, s)] (content w) (content w') \<Longrightarrow> Q (Err e) w'"
    and "S x (apply_cmds cs (content w))"
  shows "wp (exec_and_log_within E cs ty s) Q w"
  unfolding exec_and_log_within_def
  by (rule wp_exec_then_log [OF _ append_event_within_snapshot_spec],
      use assms(1,2,5) in \<open>auto simp: off_log_def did_def may_part_def partly_def keeps_def intro!: assms(3,4)\<close>) blast+

lemma append_event_spec:
  assumes "w_mutation w = Free" "w_writer w = Free"
  shows "spec (append_event E ty s)
     (\<lambda>ev w'. keeps w w' \<and> committed E (content w) (content w) [(ty, s)] [ev] (content w'))
     (\<lambda>_ w'. keeps w w' \<and> maybe_committed E (content w) (content w) [(ty, s)] (content w')) w"
  unfolding append_event_def spec_def
  using assms by (auto simp: wp_simps keeps_def intro!: wp_use [OF append_event_within_snapshot_spec])

lemma append_event_with_data_spec:
  assumes "w_mutation w = Free" "w_writer w = Free"
  shows "spec (append_event_with_data E ty s x)
     (\<lambda>ev w'. keeps w w' \<and> committed E (content w) (content w) [(ty, s)] [ev] (content w') \<and> ev_data ev = x)
     (\<lambda>_ w'. keeps w w' \<and> maybe_committed E (content w) (content w) [(ty, s)] (content w')) w"
  unfolding append_event_with_data_def spec_def
  using assms by (auto simp: wp_simps Let_def keeps_def intro!: wp_use [OF pending_spec]
      wp_commit [where inputs = "[(ty, s)]"] next_events_data)

lemma append_telemetry_spec:
  assumes "w_mutation w = Free" "w_writer w = Free"
  shows "spec (append_telemetry_events E inputs)
     (\<lambda>_ w'. keeps w w' \<and> (\<exists>evs. committed E (content w) (content w) (map (\<lambda>(t, s, _). (t, s)) inputs) evs (content w') \<and>
        map ev_data evs = map (\<lambda>(_, _, x). x) inputs))
     (\<lambda>_ w'. keeps w w' \<and> maybe_committed E (content w) (content w) (map (\<lambda>(t, s, _). (t, s)) inputs) (content w')) w"
proof (cases "inputs = []")
  case True
  then show ?thesis
    by (auto simp: append_telemetry_events_def spec_def wp_simps committed_def next_events_def queue_events_def)
next
  case False
  let ?in = "map (\<lambda>(t, s, _). (t, s)) inputs"
  have nx: "next_events E v ?in (map2 (\<lambda>event (_, _, x). event\<lparr>ev_data := x\<rparr>) evs inputs)"
    and dt: "map ev_data (map2 (\<lambda>event (_, _, x). event\<lparr>ev_data := x\<rparr>) evs inputs) = map (\<lambda>(_, _, x). x) inputs"
    if n: "next_events E v ?in evs" for v evs
  proof -
    let ?evs = "map2 (\<lambda>event (_, _, x). event\<lparr>ev_data := x\<rparr>) evs inputs"
    have l: "length evs = length inputs" using next_events_length [OF n] by simp
    have sq: "map (\<lambda>e. unat (ev_sequence e)) ?evs = map (\<lambda>e. unat (ev_sequence e)) evs"
      by (rule map_set_data [OF l]) simp
    have ty: "map (\<lambda>e. (ev_type e, ev_subject e)) ?evs = map (\<lambda>e. (ev_type e, ev_subject e)) evs"
      by (rule map_set_data [OF l]) simp
    show "next_events E v ?in (map2 (\<lambda>event (_, _, x). event\<lparr>ev_data := x\<rparr>) evs inputs)"
      using n unfolding next_events_def sq ty by (auto dest!: set_zip_leftD)
    show "map ev_data (map2 (\<lambda>event (_, _, x). event\<lparr>ev_data := x\<rparr>) evs inputs) = map (\<lambda>(_, _, x). x) inputs"
      using l by (induction evs inputs rule: list_induct2) auto
  qed
  show ?thesis unfolding append_telemetry_events_def spec_def using assms False
    by (auto simp: wp_simps Let_def keeps_def intro!: wp_use [OF pending_spec] wp_commit [where inputs = ?in] nx)
      (use dt in blast)
qed

text \<open>Reading a page of a well-formed log: the retained events after the cursor, in order, at most
  \<open>limit\<close>; a cursor before the retained window is reported as such.\<close>

lemma events_spec:
  assumes ok: "log_ok (content w)"
  shows "spec (events E after limit)
     (\<lambda>es w'. keeps w w' \<and> content w' = content w \<and> es = event_page (content w) after limit)
     (\<lambda>e w'. keeps w w' \<and> content w' = content w \<and>
        ((\<exists>t. e = Redis t) \<or>
         e = EventLog (CursorExpired (minimum_of (content w))) \<and> saturating_add after 1 < minimum_of (content w))) w"
proof -
  note r = event_page_range [OF ok, of after limit]
  show ?thesis
  proof (cases "limit = 0")
    case True
    then show ?thesis by (simp add: events_def spec_def wp_simps event_page_def)
  next
    case False
    let ?v = "content w"
    have page: "check_events (after + 1) (map (?v \<circ> event_key) (seq_range (after + 1) (min (latest_of ?v) (saturating_add after limit)))) =
        Inr (event_page ?v after limit)"
      if "minimum_of ?v \<le> saturating_add after 1" "after < latest_of ?v" "after < saturating_add after limit"
      using check_events_range [OF ok, of "after + 1" "min (latest_of ?v) (saturating_add after limit)"]
        r [OF that(1)] that(2,3) by simp
    show ?thesis unfolding events_def spec_def using False ok
      by (auto simp: wp_simps Let_def keeps_def not_less not_le page r(1) min_le_iff_disj
          intro!: wp_use [OF minimum_spec] wp_use [OF latest_spec] wp_mget)
  qed
qed

end

section \<open>Properties\<close>

declare exec_and_log_def [run_simps] append_event_def [run_simps] append_event_within_snapshot_def [run_simps]
  append_event_locked_def [run_simps] pending_events_def [run_simps] pending_event_def [run_simps]
  latest_event_sequence_def [run_simps] minimum_event_sequence_def [run_simps] commit_def [run_simps]
  queue_events_def [run_simps] checked_add_def [run_simps] empty_event_data_def [run_simps]
  events_def [run_simps] event_key_def [run_simps] seq_range_def [run_simps] saturating_add_def [run_simps]

text \<open>C1: appending refines list append. From a well-formed log, an \<open>append_event\<close> that succeeds
  extends the retained list by exactly the returned event, which carries the next sequence number,
  the requested type and subject and the tenant of the store; every other key is unchanged and no
  lock stays held. One that fails changed nothing, or appended one such event whose reply was lost;
  it is never stuck.\<close>

theorem append_event_refines_append:
  assumes "sabledb E view" "idle w" "log_ok (view (w_db w))" "append_event E ty s w = (r, w')"
  shows "idle w' \<and> log_ok (view (w_db w')) \<and>
    (\<forall>k. \<not> event_family k \<longrightarrow> view (w_db w') k = view (w_db w) k) \<and>
    (case r of
       Ok ev \<Rightarrow> retained (view (w_db w')) = retained (view (w_db w)) @ [ev] \<and>
         unat (ev_sequence ev) = Suc (unat (latest_of (view (w_db w)))) \<and>
         ev_type ev = ty \<and> ev_subject ev = s \<and> ev_tenant_id ev = env_tenant E
     | Err _ \<Rightarrow> \<exists>evs. length evs \<le> 1 \<and> retained (view (w_db w')) = retained (view (w_db w)) @ evs
     | Stuck \<Rightarrow> False)"
proof -
  have free: "w_mutation w = Free" "w_writer w = Free" using assms(2) by (simp_all add: idle_def)
  have sq: "unat (ev_sequence ev) = Suc (unat (latest_of v)) \<and> ev_type ev = ty \<and> ev_subject ev = s \<and>
      ev_tenant_id ev = env_tenant E" if "committed E v m [(ty, s)] [ev] v'" for ev m v v'
    using that by (simp add: committed_def next_events_def)
  have len: "length evs \<le> Suc 0" if "committed E v m [(ty, s)] evs v'" for evs m v v'
    using that next_events_length by (fastforce simp: committed_def)
  show ?thesis
    using specD [OF sabledb.append_event_spec [OF assms(1) free] assms(4)] assms(2,3)
    by (auto simp: keeps_idle committed_other committed_log maybe_committed_def sq len split: res.splits
        dest: keeps_idle len)
qed

theorem append_event_refines_append_witness:
  "let E = mem_env (\<lambda>_. 7); w = mem_world [] []; (r, w') = append_event E ''a.b'' None w in
     \<exists>ev. r = Ok ev \<and> retained (mem_view (w_db w')) = [ev] \<and> ev_sequence ev = 1"
proof -
  let ?E = "mem_env (\<lambda>_. 7)" and ?w = "mem_world [] []"
  let ?ev = "\<lparr>ev_sequence = 1, ev_id = 100, ev_tenant_id = ''demo'', ev_type = ''a.b'', ev_subject = None,
    ev_occurred_at = 7, ev_data = JObj []\<rparr>"
  let ?run = "append_event ?E ''a.b'' None ?w"
  have r: "fst ?run = Ok ?ev" by (simp add: run_simps)
  have ok: "idle ?w" "log_ok (mem_view (w_db ?w))"
    by (simp add: mem_world_def idle_def, rule log_ok_empty) (simp add: mem_world_def mem_view_def)
  have "retained (mem_view (w_db ?w)) = []"
    by (simp add: retained_def latest_of_def minimum_of_def mem_world_def mem_view_def seq_range_def)
  then show ?thesis
    using append_event_refines_append [OF memory.sabledb_axioms ok run_result [OF r]] r
    by (cases ?run) auto
qed

text \<open>C2: a page of a well-formed log. \<open>events\<close> returns the retained events with a sequence number
  after the cursor, in order and at most \<open>limit\<close> of them, and leaves the datastore alone; apart from
  datastore errors it fails only for a cursor that lies before the retained window, and then it
  reports the first retained number.\<close>

theorem events_page:
  assumes "sabledb E view" "log_ok (view (w_db w))" "events E after limit w = (r, w')"
  shows "view (w_db w') = view (w_db w) \<and>
    (case r of
       Ok es \<Rightarrow> es = take (unat limit) (filter (\<lambda>e. after < ev_sequence e) (retained (view (w_db w))))
     | Err e \<Rightarrow> (\<exists>t. e = Redis t) \<or>
         e = EventLog (CursorExpired (minimum_of (view (w_db w)))) \<and> saturating_add after 1 < minimum_of (view (w_db w))
     | Stuck \<Rightarrow> False)"
  using specD [OF sabledb.events_spec [OF assms(1,2)] assms(3)]
  by (auto simp: event_page_def split: res.splits)

theorem events_page_witness:
  "let E = mem_env (\<lambda>_. 7); w = mem_world [] []; (r, w') = events E 0 5 w in
     mem_view (w_db w') = mem_view (w_db w) \<and> r = Ok []"
proof -
  let ?E = "mem_env (\<lambda>_. 7)" and ?w = "mem_world [] []"
  have r: "fst (events ?E 0 5 ?w) = Ok []" by (simp add: run_simps)
  have ok: "log_ok (mem_view (w_db ?w))"
    by (rule log_ok_empty) (simp add: mem_world_def mem_view_def)
  show ?thesis using events_page [OF memory.sabledb_axioms ok run_result [OF r]] r
    by (cases "events ?E 0 5 ?w") auto
qed

end
