(* ===== verification/Identifiers.thy ===== *)
theory Identifiers
  imports EventLog
begin

text \<open>
  Contact identifiers and profile text (\<open>src/src/store/users/identifiers.rs\<close>, \<open>profile.rs\<close>): the
  canonical forms of email addresses and phone numbers, the canonical form of display text, and
  the checks a stored value must pass. A Rust \<open>str\<close> is its UTF-8 bytes; \<open>chars\<close> is \<open>utf8_chars\<close>.
\<close>

section \<open>Identifiers\<close>

fun kind_str :: "IdentifierKind \<Rightarrow> string" where
  "kind_str Email = ''email''"
| "kind_str Phone = ''phone''"

definition local_byte :: "char \<Rightarrow> bool" where
  "local_byte c \<longleftrightarrow> is_ascii_alphanumeric c \<or>
     c \<in> set [CHR ''!'', CHR ''#'', CHR ''$'', CHR ''%'', CHR ''&'', CHR 0x27, CHR ''*'', CHR ''+'', CHR ''-'',
       CHR ''.'', CHR ''/'', CHR ''='', CHR ''?'', CHR ''^'', CHR ''_'', CHR 0x60, CHR ''{'', CHR ''|'', CHR ''}'',
       CHR ''~'']"

definition bad_label :: "string \<Rightarrow> bool" where
  "bad_label label \<longleftrightarrow> label = [] \<or> length label > 63 \<or>
     \<not> list_all (\<lambda>c. is_ascii_alphanumeric c \<or> c = CHR ''-'') label \<or>
     \<not> is_ascii_alphanumeric (hd label) \<or> \<not> is_ascii_alphanumeric (last label)"

definition canonical_email_value :: "string \<Rightarrow> IdentifierValidationError + string" where
  "canonical_email_value value =
     (let email = to_ascii_lowercase (trim value) in
      if email = [] \<or> length email > 320 \<or> \<not> is_ascii email then Inl InvalidEmail else
      case split_once (CHR ''@'') email of
        None \<Rightarrow> Inl InvalidEmail
      | Some (local, domain) \<Rightarrow>
          if local = [] \<or> length local > 64 \<or> domain = [] \<or> length domain > 253 \<or>
             CHR ''@'' \<in> set domain \<or> starts_with ''.'' local \<or> last local = CHR ''.'' \<or>
             contains_sub ''..'' local \<or> \<not> list_all local_byte local \<or>
             list_ex bad_label (split_on (CHR ''.'') domain)
          then Inl InvalidEmail else Inr email)"

text \<open>The loop over the characters after the plus sign: digits are kept, separators dropped.\<close>

fun phone_digits :: "nat list \<Rightarrow> string option" where
  "phone_digits [] = Some []"
| "phone_digits (c # cs) =
     (if 48 \<le> c \<and> c \<le> 57 then map_option (Cons (char_of c)) (phone_digits cs)
      else if c \<in> {32, 9, 10, 12, 13} \<or> c \<in> {45, 40, 41, 46} then phone_digits cs
      else None)"

definition canonical_phone_value :: "string \<Rightarrow> IdentifierValidationError + string" where
  "canonical_phone_value value =
     (let value = trim value in
      if length value > 64 \<or> \<not> starts_with ''+'' value then Inl InvalidPhone else
      case phone_digits (utf8_chars (drop 1 value)) of
        None \<Rightarrow> Inl InvalidPhone
      | Some digits \<Rightarrow>
          if \<not> (8 \<le> length digits \<and> length digits \<le> 15) \<or> starts_with ''0'' digits
          then Inl InvalidPhone else Inr (''+'' @ digits))"

definition canonical :: "IdentifierKind \<Rightarrow> string \<Rightarrow> IdentifierValidationError + IdentifierValue" where
  "canonical kind value =
     map_sum id (\<lambda>v. \<lparr>iv_kind = kind, iv_value = v\<rparr>)
       (case kind of Email \<Rightarrow> canonical_email_value value | Phone \<Rightarrow> canonical_phone_value value)"

definition require_canonical_identifier :: "IdentifierValue \<Rightarrow> store_error + unit" where
  "require_canonical_identifier identifier =
     (case canonical (iv_kind identifier) (iv_value identifier) of
        Inl e \<Rightarrow> Inl (IdentifierError e)
      | Inr c \<Rightarrow> if c \<noteq> identifier then Inl (Bail ''account identifier is not canonical'') else Inr ())"

definition identifier_key :: "IdentifierValue \<Rightarrow> string" where
  "identifier_key identifier = ''auth:identifier:'' @ kind_str (iv_kind identifier) @ '':'' @ iv_value identifier"

section \<open>Profile text\<close>

definition forbidden_display_character :: "nat \<Rightarrow> bool" where
  "forbidden_display_character c \<longleftrightarrow> is_control c \<or>
     c = 0x200B \<or> (0x202A \<le> c \<and> c \<le> 0x202E) \<or> c = 0x2060 \<or> (0x2066 \<le> c \<and> c \<le> 0x2069) \<or> c = 0xFEFF"

definition canonical_profile_value :: "string option \<Rightarrow> string \<Rightarrow> nat \<Rightarrow> store_error + string option" where
  "canonical_profile_value value field maximum = (case value of
     None \<Rightarrow> Inr None
   | Some value \<Rightarrow>
       let value = trim value in
       if value = [] then Inr None
       else if length (utf8_chars value) > maximum \<or> list_ex forbidden_display_character (utf8_chars value)
       then Inl (ProfileError field maximum) else Inr (Some value))"

definition canonical_profile :: "string option \<Rightarrow> string option \<Rightarrow> string option \<Rightarrow> store_error + AccountProfile" where
  "canonical_profile given family display =
     (case canonical_profile_value given ''given name'' 100 of Inl e \<Rightarrow> Inl e | Inr g \<Rightarrow>
      case canonical_profile_value family ''family name'' 100 of Inl e \<Rightarrow> Inl e | Inr f \<Rightarrow>
      case canonical_profile_value display ''display name'' 200 of Inl e \<Rightarrow> Inl e | Inr d \<Rightarrow>
      Inr \<lparr>given_name = g, family_name = f, display_name = d\<rparr>)"

definition validate_profile_value :: "string option \<Rightarrow> nat \<Rightarrow> store_error + unit" where
  "validate_profile_value value maximum = (case value of
     None \<Rightarrow> Inr ()
   | Some value \<Rightarrow>
       if value = [] \<or> trim value \<noteq> value \<or> length (utf8_chars value) > maximum \<or>
          list_ex forbidden_display_character (utf8_chars value)
       then Inl (Bail ''stored user has invalid profile data'') else Inr ())"

definition validate_account_profile :: "AccountProfile \<Rightarrow> store_error + unit" where
  "validate_account_profile profile =
     (case validate_profile_value (given_name profile) 100 of Inl e \<Rightarrow> Inl e | Inr _ \<Rightarrow>
      case validate_profile_value (family_name profile) 100 of Inl e \<Rightarrow> Inl e | Inr _ \<Rightarrow>
      validate_profile_value (display_name profile) 200)"

section \<open>Canonical forms\<close>

definition printable :: "string \<Rightarrow> bool" where
  "printable s \<longleftrightarrow> (\<forall>c \<in> set s. 33 \<le> byte c \<and> byte c \<le> 126)"

lemma printable_append [simp]: "printable (s @ t) \<longleftrightarrow> printable s \<and> printable t"
  by (auto simp: printable_def)

lemma printable_Cons [simp]: "printable (c # s) \<longleftrightarrow> 33 \<le> byte c \<and> byte c \<le> 126 \<and> printable s"
  by (auto simp: printable_def)

lemma printable_ascii: "printable s \<Longrightarrow> is_ascii s"
  by (fastforce simp: printable_def is_ascii_def)

lemma printable_trim: "printable s \<Longrightarrow> trim s = s"
  by (rule trim_ascii_no_ws [OF printable_ascii]) (auto simp: printable_def is_whitespace_def)

lemma printable_displayable: "printable s \<Longrightarrow> \<not> list_ex forbidden_display_character (utf8_chars s)"
  by (auto simp: utf8_chars_ascii printable_ascii list_ex_iff forbidden_display_character_def is_control_def printable_def)

lemma alphanumeric_printable: "is_ascii_alphanumeric c \<Longrightarrow> 33 \<le> byte c \<and> byte c \<le> 126"
  by (auto simp: is_ascii_alphanumeric_def is_ascii_digit_def is_ascii_uppercase_def is_ascii_lowercase_def)

lemma local_byte_printable: "local_byte c \<Longrightarrow> 33 \<le> byte c \<and> byte c \<le> 126"
  unfolding local_byte_def by (auto dest: alphanumeric_printable simp: byte_def)

lemma ascii_lower_idem [simp]: "ascii_lower (ascii_lower c) = ascii_lower c"
  by (auto simp: ascii_lower_def is_ascii_uppercase_def)

lemma to_ascii_lowercase_idem [simp]: "to_ascii_lowercase (to_ascii_lowercase s) = to_ascii_lowercase s"
  by (simp add: to_ascii_lowercase_def)

lemma domain_printable:
  assumes "\<not> list_ex bad_label (split_on (CHR ''.'') domain)"
  shows "printable domain"
  unfolding printable_def
proof
  fix c assume c: "c \<in> set domain"
  show "33 \<le> byte c \<and> byte c \<le> 126"
  proof (cases "c = CHR ''.''")
    case True
    then show ?thesis by (simp add: byte_def)
  next
    case False
    then obtain l where "l \<in> set (split_on (CHR ''.'') domain)" "c \<in> set l"
      using set_split_on [OF c] by blast
    then have "is_ascii_alphanumeric c \<or> c = CHR ''-''"
      using assms by (auto simp: list_ex_iff bad_label_def list_all_iff)
    then show ?thesis using alphanumeric_printable by (auto simp: byte_def)
  qed
qed

lemma canonical_email_Inr:
  assumes "canonical_email_value v = Inr e"
  shows "e = to_ascii_lowercase (trim v)" "printable e" "e \<noteq> []" "length e \<le> 320"
    and "canonical_email_value e = Inr e"
proof -
  show e: "e = to_ascii_lowercase (trim v)" and ne: "e \<noteq> []" and len: "length e \<le> 320"
    using assms by (auto simp: canonical_email_value_def Let_def split: if_splits option.splits)
  obtain l d where s: "split_once (CHR ''@'') e = Some (l, d)" and l: "list_all local_byte l"
    and d: "\<not> list_ex bad_label (split_on (CHR ''.'') d)"
    using assms e by (auto simp: canonical_email_value_def Let_def split: if_splits option.splits)
  have "e = l @ CHR ''@'' # d" using split_once_append [OF s] by simp
  moreover have "printable l" using l by (auto simp: printable_def list_all_iff dest!: local_byte_printable)
  ultimately show p: "printable e" using domain_printable [OF d] by (simp add: byte_def)
  have "to_ascii_lowercase (trim e) = e" using printable_trim [OF p] e by simp
  then show "canonical_email_value e = Inr e"
    using assms e unfolding canonical_email_value_def by simp
qed

lemma phone_digits_Some: "phone_digits cs = Some d \<Longrightarrow> \<forall>c \<in> set d. is_ascii_digit c"
  by (induction cs arbitrary: d) (auto simp: is_ascii_digit_def split: if_splits)

lemma phone_digits_id: "\<forall>c \<in> set d. is_ascii_digit c \<Longrightarrow> phone_digits (map byte d) = Some d"
  by (induction d) (auto simp: is_ascii_digit_def)

lemma canonical_phone_Inr:
  assumes "canonical_phone_value v = Inr p"
  obtains d where "p = CHR ''+'' # d" "8 \<le> length d" "length d \<le> 15" "\<forall>c \<in> set d. is_ascii_digit c"
    "hd d \<noteq> CHR ''0''" "canonical_phone_value p = Inr p"
proof -
  obtain d where d: "phone_digits (utf8_chars (drop 1 (trim v))) = Some d" "p = CHR ''+'' # d"
    "8 \<le> length d" "length d \<le> 15" "\<not> starts_with ''0'' d"
    using assms by (auto simp: canonical_phone_value_def Let_def split: if_splits option.splits)
  have dig: "\<forall>c \<in> set d. is_ascii_digit c" by (rule phone_digits_Some [OF d(1)])
  have pr: "printable p" using dig d(2) by (auto simp: printable_def is_ascii_digit_def byte_def)
  have "utf8_chars d = map byte d"
    using pr d(2) printable_ascii [of d] by (simp add: utf8_chars_ascii)
  then have "canonical_phone_value p = Inr p"
    using d printable_trim [OF pr] phone_digits_id [OF dig]
    by (simp add: canonical_phone_value_def Let_def starts_with_def)
  moreover have "hd d \<noteq> CHR ''0''" using d(3,5) by (cases d) (auto simp: starts_with_def)
  ultimately show thesis using that d dig by blast
qed

lemma canonical_Inr:
  assumes "canonical k v = Inr i"
  shows "iv_kind i = k" "iv_value i \<noteq> []" "length (iv_value i) \<le> 320" "printable (iv_value i)"
    "canonical k (iv_value i) = Inr i"
proof -
  have "iv_kind i = k \<and> iv_value i \<noteq> [] \<and> length (iv_value i) \<le> 320 \<and> printable (iv_value i) \<and>
    canonical k (iv_value i) = Inr i"
  proof (cases k)
    case Email
    then obtain e where e: "canonical_email_value v = Inr e" "i = \<lparr>iv_kind = Email, iv_value = e\<rparr>"
      using assms by (cases "canonical_email_value v") (auto simp: canonical_def)
    then show ?thesis using Email canonical_email_Inr [OF e(1)] by (simp add: canonical_def)
  next
    case Phone
    then obtain p where p: "canonical_phone_value v = Inr p" "i = \<lparr>iv_kind = Phone, iv_value = p\<rparr>"
      using assms by (cases "canonical_phone_value v") (auto simp: canonical_def)
    obtain d where "p = CHR ''+'' # d" "length d \<le> 15" "\<forall>c \<in> set d. is_ascii_digit c" "canonical_phone_value p = Inr p"
      using canonical_phone_Inr [OF p(1)] by blast
    then show ?thesis using Phone p(2) by (auto simp: canonical_def printable_def is_ascii_digit_def byte_def)
  qed
  then show "iv_kind i = k" "iv_value i \<noteq> []" "length (iv_value i) \<le> 320" "printable (iv_value i)"
    "canonical k (iv_value i) = Inr i" by simp_all
qed

lemma require_canonical_Inr:
  "require_canonical_identifier i = Inr () \<longleftrightarrow> canonical (iv_kind i) (iv_value i) = Inr i"
  by (auto simp: require_canonical_identifier_def split: sum.splits if_splits)

lemma canonical_profile_value_valid:
  assumes "canonical_profile_value x fld n = Inr y" "\<And>s. x = Some s \<Longrightarrow> valid_str s"
  shows "validate_profile_value y n = Inr ()" "canonical_profile_value y fld n = Inr y"
  using assms trim_idem
  by (auto simp: canonical_profile_value_def validate_profile_value_def Let_def split: option.splits if_splits)

lemma validate_profile_value_fixed:
  "validate_profile_value y n = Inr () \<Longrightarrow> canonical_profile_value y fld n = Inr y"
  by (auto simp: canonical_profile_value_def validate_profile_value_def Let_def split: option.splits if_splits)

section \<open>Properties\<close>

text \<open>C3: canonical identifiers. Whatever text \<open>IdentifierValue::canonical\<close> accepts, its result has
  the requested kind, is a fixed point of canonicalisation (so \<open>require_canonical_identifier\<close> accepts
  it), is not empty, at most 320 bytes long, and printable ASCII without any character that display
  text forbids; a phone number is a plus sign followed by 8 to 15 digits that do not start with zero,
  and an email address is the trimmed, lower-cased input.\<close>

theorem canonical_identifier_shape:
  assumes "canonical k v = Inr i"
  shows "iv_kind i = k \<and> canonical k (iv_value i) = Inr i \<and> require_canonical_identifier i = Inr () \<and>
    iv_value i \<noteq> [] \<and> length (iv_value i) \<le> 320 \<and> printable (iv_value i) \<and>
    \<not> list_ex forbidden_display_character (utf8_chars (iv_value i)) \<and>
    (k = Email \<longrightarrow> iv_value i = to_ascii_lowercase (trim v)) \<and>
    (k = Phone \<longrightarrow> (\<exists>d. iv_value i = CHR ''+'' # d \<and> 8 \<le> length d \<and> length d \<le> 15 \<and>
       (\<forall>c \<in> set d. is_ascii_digit c) \<and> hd d \<noteq> CHR ''0''))"
proof -
  have email: "iv_value i = to_ascii_lowercase (trim v)" if "k = Email"
    using assms that canonical_email_Inr(1)
    by (cases "canonical_email_value v") (auto simp: canonical_def)
  have phone: "\<exists>d. iv_value i = CHR ''+'' # d \<and> 8 \<le> length d \<and> length d \<le> 15 \<and>
       (\<forall>c \<in> set d. is_ascii_digit c) \<and> hd d \<noteq> CHR ''0''" if k: "k = Phone"
  proof -
    obtain q where q: "canonical_phone_value v = Inr q" "iv_value i = q"
      using assms k by (cases "canonical_phone_value v") (auto simp: canonical_def)
    show ?thesis by (rule canonical_phone_Inr [OF q(1)]) (use q(2) in blast)
  qed
  show ?thesis
    using canonical_Inr [OF assms] email phone printable_displayable by (simp add: require_canonical_Inr)
qed

lemmas string_run = trim_def trim_chars_def is_whitespace_def utf8_encode_def utf8_encode_char_def byte_def
  starts_with_def Let_def char_of_eq_iff

theorem canonical_identifier_shape_witness:
  "canonical Phone ''+44 (7700) 900-123'' = Inr \<lparr>iv_kind = Phone, iv_value = ''+447700900123''\<rparr> \<and>
   canonical Phone ''+447700900123'' = Inr \<lparr>iv_kind = Phone, iv_value = ''+447700900123''\<rparr>"
proof -
  have "canonical Phone ''+44 (7700) 900-123'' = Inr \<lparr>iv_kind = Phone, iv_value = ''+447700900123''\<rparr>"
    by (simp add: canonical_def canonical_phone_value_def string_run)
  from this canonical_identifier_shape [OF this] show ?thesis by simp
qed

text \<open>C4: canonical profiles. A profile that \<open>AccountProfile::canonical\<close> builds from UTF-8 text passes
  the fail-closed validation of stored accounts, and canonicalising its fields again changes nothing.\<close>

theorem canonical_profile_validates:
  assumes "canonical_profile given family display = Inr p"
    and "\<And>s. given = Some s \<Longrightarrow> valid_str s" "\<And>s. family = Some s \<Longrightarrow> valid_str s"
    and "\<And>s. display = Some s \<Longrightarrow> valid_str s"
  shows "validate_account_profile p = Inr () \<and>
    canonical_profile (given_name p) (family_name p) (display_name p) = Inr p"
proof -
  obtain g f d where v: "canonical_profile_value given ''given name'' 100 = Inr g"
    "canonical_profile_value family ''family name'' 100 = Inr f"
    "canonical_profile_value display ''display name'' 200 = Inr d"
    and p: "p = \<lparr>given_name = g, family_name = f, display_name = d\<rparr>"
    using assms(1) by (auto simp: canonical_profile_def split: sum.splits)
  show ?thesis
    using canonical_profile_value_valid [OF v(1) assms(2)] canonical_profile_value_valid [OF v(2) assms(3)]
      canonical_profile_value_valid [OF v(3) assms(4)]
    by (simp add: p canonical_profile_def validate_account_profile_def)
qed

theorem canonical_profile_validates_witness:
  "validate_account_profile \<lparr>given_name = Some ''Ada'', family_name = None, display_name = None\<rparr> = Inr ()"
proof -
  have "canonical_profile (Some '' Ada '') None None = Inr \<lparr>given_name = Some ''Ada'', family_name = None, display_name = None\<rparr>"
    by (simp add: canonical_profile_def canonical_profile_value_def forbidden_display_character_def is_control_def string_run)
  moreover have "valid_str '' Ada ''" by (simp add: valid_str_def byte_def)
  ultimately show ?thesis using canonical_profile_validates [of "Some '' Ada ''" None None] by simp
qed

end
