(* ===== verification/Accounts.thy ===== *)
theory Accounts
  imports Identifiers "HOL-Library.Product_Lexorder"
begin

text \<open>
  The user aggregate (\<open>src/src/store/users/records.rs\<close>) and the mutations of its identifiers and
  profile (\<open>identifiers.rs\<close>, \<open>profile.rs\<close>): hydration of stored records with their fail-closed
  validation, the lookup indexes, and the operations that keep the indexes consistent with the
  records. \<open>accounts_ok\<close> is the invariant: every identifier and every passkey of a stored account
  is indexed to that account, so no two accounts share one.
\<close>

section \<open>Hydration and validation\<close>

abbreviation MAX_IDENTIFIERS :: nat where
  "MAX_IDENTIFIERS \<equiv> 20"

definition ident_of :: "AccountIdentifier \<Rightarrow> IdentifierValue" where
  "ident_of i = \<lparr>iv_kind = ai_kind i, iv_value = ai_value i\<rparr>"

definition primary_rank :: "AccountIdentifier \<Rightarrow> bool \<times> u64" where
  "primary_rank i = (\<not> ai_primary i, ai_created_at i)"

definition sync_legacy_email :: "User \<Rightarrow> User" where
  "sync_legacy_email u =
     (case min_by_key primary_rank (filter (\<lambda>i. ai_kind i = Email) (user_identifiers u)) of
        Some i \<Rightarrow> u\<lparr>user_email := ai_value i, user_email_verified := ai_verified i\<rparr>
      | None \<Rightarrow> u\<lparr>user_email := [], user_email_verified := False\<rparr>)"

text \<open>The first step of \<open>normalize_and_validate\<close>: an account written before identifiers existed gets
  its email address as its primary identifier.\<close>

definition hydrate :: "User \<Rightarrow> User" where
  "hydrate u = (if user_identifiers u = [] \<and> user_email u \<noteq> []
     then u\<lparr>user_identifiers := [\<lparr>ai_kind = Email, ai_value = user_email u, ai_verified = user_email_verified u,
             ai_verified_at = None, ai_primary = True, ai_created_at = user_created_at u\<rparr>]\<rparr>
     else u)"

definition seen_key :: "AccountIdentifier \<Rightarrow> string" where
  "seen_key i = kind_str (ai_kind i) @ '':'' @ ai_value i"

definition check_phone :: "AccountIdentifier \<Rightarrow> store_error + unit" where
  "check_phone i =
     (if ai_kind i = Phone then
        (case canonical (ai_kind i) (ai_value i) of
           Inl _ \<Rightarrow> Inl (Bail ''stored user has an invalid phone identifier'')
         | Inr c \<Rightarrow> if iv_value c \<noteq> ai_value i
             then Inl (Bail ''stored user has a non-canonical phone identifier'') else Inr ())
      else Inr ())"

text \<open>The loop over the identifiers, with the set of those seen; the result counts the primary ones.\<close>

fun check_identifiers :: "string set \<Rightarrow> AccountIdentifier list \<Rightarrow> store_error + nat" where
  "check_identifiers seen [] = Inr 0"
| "check_identifiers seen (i # is) =
     (if ai_value i = [] \<or> length (ai_value i) > 320 \<or>
         list_ex forbidden_display_character (utf8_chars (ai_value i)) \<or> seen_key i \<in> seen
      then Inl (Bail ''stored user has an invalid or duplicate account identifier'')
      else if ai_verified_at i \<noteq> None \<and> \<not> ai_verified i
      then Inl (Bail ''stored user has inconsistent identifier verification state'')
      else case check_phone i of
        Inl e \<Rightarrow> Inl e
      | Inr _ \<Rightarrow> map_sum id (\<lambda>n. of_bool (ai_primary i) + n) (check_identifiers (insert (seen_key i) seen) is))"

fun check_recovery_codes :: "string set \<Rightarrow> RecoveryCodeRecord list \<Rightarrow> store_error + unit" where
  "check_recovery_codes seen [] = Inr ()"
| "check_recovery_codes seen (c # cs) =
     (if length (rc_digest c) \<noteq> 64 \<or> \<not> list_all is_ascii_hexdigit (rc_digest c) \<or> rc_digest c \<in> seen
      then Inl (Bail ''stored user has invalid or duplicate recovery-code state'')
      else check_recovery_codes (insert (rc_digest c) seen) cs)"

definition normalize_and_validate :: "User \<Rightarrow> store_error + User" where
  "normalize_and_validate user =
     (let user = hydrate user in
      if user_identifiers user = [] then Inl (Bail ''stored user has no account identifiers'')
      else if length (user_identifiers user) > MAX_IDENTIFIERS
      then Inl (Bail ''stored user exceeds the account identifier limit'')
      else case check_identifiers {} (user_identifiers user) of
        Inl e \<Rightarrow> Inl e
      | Inr primary_count \<Rightarrow>
          if primary_count \<noteq> 1 then Inl (Bail ''stored user must have exactly one primary account identifier'')
          else case validate_account_profile (user_profile user) of
            Inl e \<Rightarrow> Inl e
          | Inr _ \<Rightarrow> (case check_recovery_codes {} (user_recovery_codes user) of
              Inl e \<Rightarrow> Inl e
            | Inr _ \<Rightarrow> Inr (sync_legacy_email user)))"

definition primary_identifier :: "User \<Rightarrow> AccountIdentifier option" where
  "primary_identifier u = (case find ai_primary (user_identifiers u) of
     Some i \<Rightarrow> Some i
   | None \<Rightarrow> (case user_identifiers u of [] \<Rightarrow> None | i # _ \<Rightarrow> Some i))"

definition primary_email :: "User \<Rightarrow> AccountIdentifier option" where
  "primary_email u = min_by_key primary_rank (filter (\<lambda>i. ai_kind i = Email) (user_identifiers u))"

definition primary_phone :: "User \<Rightarrow> AccountIdentifier option" where
  "primary_phone u = min_by_key primary_rank (filter (\<lambda>i. ai_kind i = Phone) (user_identifiers u))"

definition passkey_name :: "'db env \<Rightarrow> User \<Rightarrow> string" where
  "passkey_name E u = (case primary_identifier u of Some i \<Rightarrow> ai_value i | None \<Rightarrow> uuid_text E (user_id u))"

fun join_space :: "string list \<Rightarrow> string" where
  "join_space [] = []"
| "join_space [s] = s"
| "join_space (s # ss) = s @ '' '' @ join_space ss"

definition passkey_display_name :: "'db env \<Rightarrow> User \<Rightarrow> string" where
  "passkey_display_name E u = (case display_name (user_profile u) of
     Some d \<Rightarrow> d
   | None \<Rightarrow>
       (let full_name = join_space (List.map_filter id [given_name (user_profile u), family_name (user_profile u)]) in
        if full_name = [] then passkey_name E u else full_name))"

section \<open>Reads\<close>

definition user_key :: "'db env \<Rightarrow> uuid \<Rightarrow> string" where
  "user_key E uid = ''auth:user:'' @ uuid_text E uid"

definition email_key :: "string \<Rightarrow> string" where
  "email_key v = ''auth:email:'' @ v"

definition credential_key :: "string \<Rightarrow> string" where
  "credential_key c = ''auth:credential:'' @ c"

definition user :: "'db env \<Rightarrow> uuid \<Rightarrow> ('db, User option) sm" where
  "user E uid = sbind (get_json E as_user (user_key E uid)) (\<lambda>r. case r of
     None \<Rightarrow> ret None
   | Some u \<Rightarrow> sbind (lift_result (normalize_and_validate u)) (\<lambda>u. ret (Some u)))"

definition user_by_identifier :: "'db env \<Rightarrow> IdentifierValue \<Rightarrow> ('db, User option) sm" where
  "user_by_identifier E identifier =
     sbind (get_json E as_str (identifier_key identifier)) (\<lambda>uid.
     sbind (if uid = None \<and> iv_kind identifier = Email
            then get_json E as_str (email_key (iv_value identifier)) else ret uid) (\<lambda>uid.
     case uid of
       None \<Rightarrow> ret None
     | Some uid \<Rightarrow> sbind (lift_result (parse_uuid E uid)) (\<lambda>uid. user E uid)))"

definition user_by_email :: "'db env \<Rightarrow> string \<Rightarrow> ('db, User option) sm" where
  "user_by_email E email = user_by_identifier E \<lparr>iv_kind = Email, iv_value = email\<rparr>"

definition user_by_credential_id :: "'db env \<Rightarrow> string \<Rightarrow> ('db, User option) sm" where
  "user_by_credential_id E credential_id =
     sbind (get_json E as_str (credential_key credential_id)) (\<lambda>uid. case uid of
       None \<Rightarrow> ret None
     | Some uid \<Rightarrow> sbind (lift_result (parse_uuid E uid)) (\<lambda>uid. user E uid))"

section \<open>Mutations\<close>

definition persist_user :: "'db env \<Rightarrow> User \<Rightarrow> ('db, unit) sm" where
  "persist_user E u = db_cmd (sb_exec E [SET (user_key E (user_id u)) (VUser u)])"

definition persist_user_with_event :: "'db env \<Rightarrow> User \<Rightarrow> string \<Rightarrow> ('db, unit) sm" where
  "persist_user_with_event E u event_type =
     sbind (pending_events E [(event_type, Some (user_id u))]) (\<lambda>events.
     commit E [SET (user_key E (user_id u)) (VUser u)] events)"

text \<open>\<open>user(uid).await?.ok_or(UserMissing)?\<close>.\<close>

definition require_user :: "'db env \<Rightarrow> uuid \<Rightarrow> ('db, User) sm" where
  "require_user E uid = sbind (user E uid) (ok_or (Policy UserMissing))"

definition same_identifier :: "IdentifierValue \<Rightarrow> AccountIdentifier \<Rightarrow> bool" where
  "same_identifier identifier stored \<longleftrightarrow> ai_kind stored = iv_kind identifier \<and> ai_value stored = iv_value identifier"

definition add_identifier_cmds :: "'db env \<Rightarrow> uuid \<Rightarrow> IdentifierValue \<Rightarrow> User \<Rightarrow> cmd list" where
  "add_identifier_cmds E uid identifier u =
     [SET (user_key E uid) (VUser u), SET (identifier_key identifier) (VStr (uuid_text E uid))] @
     (if iv_kind identifier = Email then [SET (email_key (iv_value identifier)) (VStr (uuid_text E uid))] else [])"

definition add_identifier_events :: "uuid \<Rightarrow> IdentifierValue \<Rightarrow> bool \<Rightarrow> event_input list" where
  "add_identifier_events uid identifier verified = (''identifier.added'', Some uid) #
     (if verified then [] else [(kind_str (iv_kind identifier) @ ''.verification.requested'', Some uid)])"

definition new_identifier :: "IdentifierValue \<Rightarrow> bool \<Rightarrow> u64 \<Rightarrow> u64 \<Rightarrow> AccountIdentifier" where
  "new_identifier identifier verified verified_now created_at =
     \<lparr>ai_kind = iv_kind identifier, ai_value = iv_value identifier, ai_verified = verified,
      ai_verified_at = (if verified then Some verified_now else None), ai_primary = False,
      ai_created_at = created_at\<rparr>"

definition add_identifier :: "'db env \<Rightarrow> uuid \<Rightarrow> IdentifierValue \<Rightarrow> bool \<Rightarrow> ('db, User) sm" where
  "add_identifier E uid identifier verified =
     sbind (lift_result (require_canonical_identifier identifier)) (\<lambda>_.
     with_snapshot_read (with_mutation (
       sbind (user_by_identifier E identifier) (\<lambda>owner.
       sbind (fail_if (owner \<noteq> None) (Policy IdentifierAlreadyExists)) (\<lambda>_.
       sbind (require_user E uid) (\<lambda>user.
       sbind (fail_if (length (user_identifiers user) \<ge> MAX_IDENTIFIERS) (Policy IdentifierLimit)) (\<lambda>_.
       sbind (now E) (\<lambda>verified_now.
       sbind (now E) (\<lambda>created_at.
       let user = sync_legacy_email (user\<lparr>user_identifiers := user_identifiers user @
             [new_identifier identifier verified verified_now created_at]\<rparr>) in
       sbind (pending_events E (add_identifier_events uid identifier verified)) (\<lambda>events.
       sbind (commit E (add_identifier_cmds E uid identifier user) events) (\<lambda>_.
       ret user)))))))))))"

text \<open>\<open>user.identifiers[0].primary = true\<close> panics when no identifier is left.\<close>

fun promote_first :: "AccountIdentifier list \<Rightarrow> store_error + AccountIdentifier list" where
  "promote_first [] = Inl (Panic ''index out of bounds'')"
| "promote_first (i # is) = Inr (i\<lparr>ai_primary := True\<rparr> # is)"

definition remove_identifier_cmds :: "'db env \<Rightarrow> uuid \<Rightarrow> IdentifierValue \<Rightarrow> User \<Rightarrow> cmd list" where
  "remove_identifier_cmds E uid identifier u =
     [SET (user_key E uid) (VUser u), DEL [identifier_key identifier]] @
     (if iv_kind identifier = Email then [DEL [email_key (iv_value identifier)]] else [])"

text \<open>The part of \<open>remove_identifier\<close> that works on the loaded account.\<close>

definition unlink_identifier :: "IdentifierValue \<Rightarrow> User \<Rightarrow> store_error + User" where
  "unlink_identifier identifier u =
     (if length (user_identifiers u) \<le> 1 then Inl (Policy FinalIdentifier) else
      case position (same_identifier identifier) (user_identifiers u) of
        None \<Rightarrow> Inl (Policy IdentifierNotLinked)
      | Some pos \<Rightarrow>
          let removed_primary = ai_primary (user_identifiers u ! pos);
              kept = filter (\<lambda>x. ai_kind x \<noteq> iv_kind identifier \<or> ai_value x \<noteq> iv_value identifier)
                       (user_identifiers u) in
          map_sum id (\<lambda>kept. sync_legacy_email (u\<lparr>user_identifiers := kept\<rparr>))
            (if removed_primary then promote_first kept else Inr kept))"

definition remove_identifier :: "'db env \<Rightarrow> uuid \<Rightarrow> IdentifierValue \<Rightarrow> ('db, User) sm" where
  "remove_identifier E uid identifier =
     sbind (lift_result (require_canonical_identifier identifier)) (\<lambda>_.
     with_snapshot_read (with_mutation (
       sbind (require_user E uid) (\<lambda>user.
       sbind (lift_result (unlink_identifier identifier user)) (\<lambda>user.
       sbind (pending_events E [(''identifier.removed'', Some uid)]) (\<lambda>events.
       sbind (commit E (remove_identifier_cmds E uid identifier user) events) (\<lambda>_.
       ret user)))))))"

definition set_primary_identifier :: "'db env \<Rightarrow> uuid \<Rightarrow> IdentifierValue \<Rightarrow> ('db, User) sm" where
  "set_primary_identifier E uid identifier =
     sbind (lift_result (require_canonical_identifier identifier)) (\<lambda>_.
     with_snapshot_read (with_mutation (
       sbind (require_user E uid) (\<lambda>user.
       sbind (fail_if (\<not> list_ex (same_identifier identifier) (user_identifiers user)) (Policy IdentifierNotLinked)) (\<lambda>_.
       let user = sync_legacy_email (user\<lparr>user_identifiers :=
             map (\<lambda>stored. stored\<lparr>ai_primary := same_identifier identifier stored\<rparr>) (user_identifiers user)\<rparr>) in
       sbind (persist_user_with_event E user ''identifier.primary_changed'') (\<lambda>_.
       ret user))))))"

definition set_identifier_verification :: "'db env \<Rightarrow> uuid \<Rightarrow> IdentifierValue \<Rightarrow> bool \<Rightarrow> ('db, User) sm" where
  "set_identifier_verification E uid identifier verified =
     sbind (lift_result (require_canonical_identifier identifier)) (\<lambda>_.
     with_snapshot_read (with_mutation (
       sbind (require_user E uid) (\<lambda>user.
       sbind (fail_if (find (same_identifier identifier) (user_identifiers user) = None) (Policy IdentifierNotLinked)) (\<lambda>_.
       sbind (now E) (\<lambda>verified_now.
       let user = sync_legacy_email (user\<lparr>user_identifiers :=
             update_first (same_identifier identifier) (\<lambda>stored. stored\<lparr>ai_verified := verified,
               ai_verified_at := (if verified then Some verified_now else None)\<rparr>) (user_identifiers user)\<rparr>) in
       sbind (persist_user_with_event E user (if verified then ''identifier.verified'' else ''identifier.unverified'')) (\<lambda>_.
       ret user)))))))"

definition update_profile :: "'db env \<Rightarrow> uuid \<Rightarrow> AccountProfile \<Rightarrow> ('db, User) sm" where
  "update_profile E uid profile =
     sbind (lift_result (validate_account_profile profile)) (\<lambda>_.
     with_snapshot_read (with_mutation (
       sbind (require_user E uid) (\<lambda>user.
       let user = user\<lparr>user_profile := profile\<rparr> in
       sbind (persist_user_with_event E user ''profile.updated'') (\<lambda>_.
       ret user)))))"

section \<open>Well-formed accounts\<close>

definition identifier_ok :: "AccountIdentifier \<Rightarrow> bool" where
  "identifier_ok i \<longleftrightarrow> ai_value i \<noteq> [] \<and> length (ai_value i) \<le> 320 \<and>
     \<not> list_ex forbidden_display_character (utf8_chars (ai_value i)) \<and>
     (ai_verified_at i \<noteq> None \<longrightarrow> ai_verified i) \<and>
     (ai_kind i = Phone \<longrightarrow> canonical Phone (ai_value i) = Inr (ident_of i))"

definition recovery_ok :: "RecoveryCodeRecord list \<Rightarrow> bool" where
  "recovery_ok cs \<longleftrightarrow> (\<forall>c \<in> set cs. length (rc_digest c) = 64 \<and> list_all is_ascii_hexdigit (rc_digest c)) \<and>
     distinct (map rc_digest cs)"

definition user_wf :: "User \<Rightarrow> bool" where
  "user_wf u \<longleftrightarrow> user_identifiers u \<noteq> [] \<and> length (user_identifiers u) \<le> MAX_IDENTIFIERS \<and>
     (\<forall>i \<in> set (user_identifiers u). identifier_ok i) \<and>
     distinct (map ident_of (user_identifiers u)) \<and>
     length (filter ai_primary (user_identifiers u)) = 1 \<and>
     validate_account_profile (user_profile u) = Inr () \<and> recovery_ok (user_recovery_codes u)"

lemma kind_str_inject [simp]: "kind_str k @ CHR '':'' # v = kind_str k' @ CHR '':'' # v' \<longleftrightarrow> k = k' \<and> v = v'"
  by (cases k; cases k') auto

lemma seen_key_inject [simp]: "seen_key i = seen_key j \<longleftrightarrow> ident_of i = ident_of j"
  by (simp add: seen_key_def ident_of_def)

lemma canonical_phone_ok:
  "canonical Phone v = Inr c \<Longrightarrow> iv_value c = v \<longleftrightarrow> c = \<lparr>iv_kind = Phone, iv_value = v\<rparr>"
  using canonical_Inr(1) [of Phone v c] by (cases c) auto

lemma check_phone_Inr:
  "check_phone i = Inr () \<longleftrightarrow> (ai_kind i = Phone \<longrightarrow> canonical Phone (ai_value i) = Inr (ident_of i))"
  using canonical_phone_ok [of "ai_value i"]
  by (auto simp: check_phone_def ident_of_def split: sum.splits)

lemma check_identifiers_Inr:
  "check_identifiers seen is = Inr n \<longleftrightarrow>
     (\<forall>i \<in> set is. identifier_ok i \<and> seen_key i \<notin> seen) \<and> distinct (map ident_of is) \<and>
     n = length (filter ai_primary is)"
proof (induction "is" arbitrary: seen n)
  case (Cons i "is")
  have step: "check_identifiers seen (i # is) = Inr n \<longleftrightarrow> identifier_ok i \<and> seen_key i \<notin> seen \<and>
      (\<exists>m. check_identifiers (insert (seen_key i) seen) is = Inr m \<and> n = of_bool (ai_primary i) + m)"
    using check_phone_Inr [of i]
    by (cases "check_phone i"; cases "check_identifiers (insert (seen_key i) seen) is")
      (auto simp: identifier_ok_def)
  show ?case unfolding step Cons.IH by (auto, (metis image_eqI)+)
qed auto

lemma check_recovery_codes_Inr:
  "check_recovery_codes seen cs = Inr () \<longleftrightarrow> recovery_ok cs \<and> (\<forall>c \<in> set cs. rc_digest c \<notin> seen)"
proof (induction cs arbitrary: seen)
  case (Cons c cs)
  show ?case unfolding check_recovery_codes.simps by (simp add: Cons.IH) (auto simp: recovery_ok_def, metis image_eqI)
qed (simp add: recovery_ok_def)

lemma sync_fields [simp]:
  "user_id (sync_legacy_email u) = user_id u"
  "user_identifiers (sync_legacy_email u) = user_identifiers u"
  "user_profile (sync_legacy_email u) = user_profile u"
  "user_recovery_codes (sync_legacy_email u) = user_recovery_codes u"
  "user_passkeys (sync_legacy_email u) = user_passkeys u"
  "user_session_version (sync_legacy_email u) = user_session_version u"
  "user_created_at (sync_legacy_email u) = user_created_at u"
  by (simp_all add: sync_legacy_email_def split: option.splits)

lemma sync_idem [simp]: "sync_legacy_email (sync_legacy_email u) = sync_legacy_email u"
  by (simp add: sync_legacy_email_def split: option.splits)

lemma user_wf_sync [simp]: "user_wf (sync_legacy_email u) = user_wf u"
  by (simp add: user_wf_def)

lemma hydrate_fields [simp]:
  "user_id (hydrate u) = user_id u" "user_passkeys (hydrate u) = user_passkeys u"
  "user_session_version (hydrate u) = user_session_version u" "user_profile (hydrate u) = user_profile u"
  "user_recovery_codes (hydrate u) = user_recovery_codes u"
  by (simp_all add: hydrate_def)

lemma hydrate_id: "user_identifiers u \<noteq> [] \<Longrightarrow> hydrate u = u"
  by (simp add: hydrate_def)

lemma normalize_Inr:
  "normalize_and_validate u = Inr u' \<longleftrightarrow> user_wf (hydrate u) \<and> u' = sync_legacy_email (hydrate u)"
proof -
  have "normalize_and_validate u = Inr u' \<longleftrightarrow> user_identifiers (hydrate u) \<noteq> [] \<and>
      length (user_identifiers (hydrate u)) \<le> MAX_IDENTIFIERS \<and>
      check_identifiers {} (user_identifiers (hydrate u)) = Inr 1 \<and>
      validate_account_profile (user_profile (hydrate u)) = Inr () \<and>
      check_recovery_codes {} (user_recovery_codes (hydrate u)) = Inr () \<and> u' = sync_legacy_email (hydrate u)"
    by (auto simp: normalize_and_validate_def Let_def simp del: hydrate_fields split: sum.splits if_splits)
  then show ?thesis by (auto simp: user_wf_def check_identifiers_Inr check_recovery_codes_Inr)
qed

lemma normalize_fixed: "user_wf u \<Longrightarrow> normalize_and_validate (sync_legacy_email u) = Inr (sync_legacy_email u)"
  using hydrate_id [of "sync_legacy_email u"] by (auto simp: normalize_Inr user_wf_def)

section \<open>The account invariant\<close>

definition stored :: "'db env \<Rightarrow> db_view \<Rightarrow> uuid \<Rightarrow> User \<Rightarrow> bool" where
  "stored E v uid u \<longleftrightarrow> (\<exists>u0. v (user_key E uid) = Some (VUser u0) \<and> normalize_and_validate u0 = Inr u)"

definition index_owner :: "db_view \<Rightarrow> IdentifierValue \<Rightarrow> value option" where
  "index_owner v i = (case v (identifier_key i) of
     Some x \<Rightarrow> Some x | None \<Rightarrow> if iv_kind i = Email then v (email_key (iv_value i)) else None)"

definition no_owner :: "'db env \<Rightarrow> db_view \<Rightarrow> IdentifierValue \<Rightarrow> bool" where
  "no_owner E v i \<longleftrightarrow> index_owner v i = None \<or> (\<exists>x s uid. index_owner v i = Some x \<and>
     as_str x = Some s \<and> uuid_parse E s = Some uid \<and> v (user_key E uid) = None)"

definition idents :: "User \<Rightarrow> IdentifierValue set" where
  "idents u = ident_of ` set (user_identifiers (hydrate u))"

definition creds :: "User \<Rightarrow> string set" where
  "creds u = pk_id ` set (user_passkeys u)"

definition owns :: "'db env \<Rightarrow> db_view \<Rightarrow> uuid \<Rightarrow> IdentifierValue \<Rightarrow> bool" where
  "owns E v uid i \<longleftrightarrow> (\<exists>u. v (user_key E uid) = Some (VUser u) \<and> i \<in> idents u)"

definition holds :: "'db env \<Rightarrow> db_view \<Rightarrow> uuid \<Rightarrow> string \<Rightarrow> bool" where
  "holds E v uid c \<longleftrightarrow> (\<exists>u. v (user_key E uid) = Some (VUser u) \<and> c \<in> creds u)"

text \<open>Every account record is well formed and carries its own id, and the identifier and credential
  indexes say exactly which account owns an identifier or a passkey.\<close>

definition account_ok :: "uuid \<Rightarrow> User \<Rightarrow> bool" where
  "account_ok uid u \<longleftrightarrow> user_id u = uid \<and> user_wf (hydrate u) \<and> distinct (map pk_id (user_passkeys u))"

definition accounts_ok :: "'db env \<Rightarrow> db_view \<Rightarrow> bool" where
  "accounts_ok E v \<longleftrightarrow>
     (\<forall>uid x. v (user_key E uid) = Some x \<longrightarrow> (\<exists>u. x = VUser u \<and> account_ok uid u)) \<and>
     (\<forall>i x. index_owner v i = Some x \<longleftrightarrow> (\<exists>uid. x = VStr (uuid_text E uid) \<and> owns E v uid i)) \<and>
     (\<forall>c x. v (credential_key c) = Some x \<longleftrightarrow> (\<exists>uid. x = VStr (uuid_text E uid) \<and> holds E v uid c))"

definition account_family :: "string \<Rightarrow> bool" where
  "account_family k \<longleftrightarrow> starts_with ''auth:user:'' k \<or> starts_with ''auth:identifier:'' k \<or>
     starts_with ''auth:email:'' k \<or> starts_with ''auth:credential:'' k"

lemmas account_keys [run_simps] = user_key_def email_key_def credential_key_def identifier_key_def

lemma identifier_key_inject [simp]: "identifier_key i = identifier_key j \<longleftrightarrow> i = j"
  by (cases i; cases j) (simp add: identifier_key_def)

lemma account_key_simps [simp]:
  "email_key v = email_key v' \<longleftrightarrow> v = v'" "credential_key c = credential_key c' \<longleftrightarrow> c = c'"
  "user_key E uid \<noteq> email_key v" "email_key v \<noteq> user_key E uid"
  "user_key E uid \<noteq> credential_key c" "credential_key c \<noteq> user_key E uid"
  "user_key E uid \<noteq> identifier_key i" "identifier_key i \<noteq> user_key E uid"
  "email_key v \<noteq> credential_key c" "credential_key c \<noteq> email_key v"
  "email_key v \<noteq> identifier_key i" "identifier_key i \<noteq> email_key v"
  "identifier_key i \<noteq> credential_key c" "credential_key c \<noteq> identifier_key i"
  by (simp_all add: account_keys)

lemma account_family_keys [simp]:
  "account_family (user_key E uid)" "account_family (email_key v)" "account_family (credential_key c)"
  "account_family (identifier_key i)"
  by (simp_all add: account_family_def account_keys starts_with_def)

lemma account_not_event [simp]:
  "\<not> event_family (user_key E uid)" "\<not> event_family (email_key v)" "\<not> event_family (credential_key c)"
  "\<not> event_family (identifier_key i)"
  by (simp_all add: event_family_def account_keys starts_with_def)

lemma event_not_account: "event_family k \<Longrightarrow> \<not> account_family k"
  by (auto simp: event_family_def account_family_def starts_with_iff)

lemma owns_index: "accounts_ok E v \<Longrightarrow> owns E v uid i \<Longrightarrow> index_owner v i = Some (VStr (uuid_text E uid))"
  unfolding accounts_ok_def by blast

lemma holds_index: "accounts_ok E v \<Longrightarrow> holds E v uid c \<Longrightarrow> v (credential_key c) = Some (VStr (uuid_text E uid))"
  unfolding accounts_ok_def by blast

lemma accounts_ok_cong:
  assumes "\<And>k. account_family k \<Longrightarrow> v k = v' k"
  shows "accounts_ok E v = accounts_ok E v'"
proof -
  have "v (user_key E uid) = v' (user_key E uid)" "v (credential_key c) = v' (credential_key c)"
    "v (email_key e) = v' (email_key e)" "v (identifier_key i) = v' (identifier_key i)" for uid c e i
    by (simp_all add: assms)
  then show ?thesis by (simp add: accounts_ok_def owns_def holds_def index_owner_def cong: option.case_cong)
qed

lemma accounts_ok_frame:
  "(\<And>k. k \<in> cmds_keys cs \<Longrightarrow> \<not> account_family k) \<Longrightarrow> accounts_ok E (apply_cmds cs v) = accounts_ok E v"
  by (rule accounts_ok_cong) (blast intro: apply_cmds_other)

text \<open>A commit inherits the invariant from the map it commits.\<close>

lemma committed_accounts: "committed E v m inputs evs v' \<Longrightarrow> accounts_ok E v' = accounts_ok E m"
  using event_not_account by (intro accounts_ok_cong) (auto simp: committed_def)

lemma logged_accounts: "logged E v m inputs v' \<Longrightarrow> accounts_ok E v' = accounts_ok E m"
  unfolding logged_def by (elim exE) (rule committed_accounts)

lemma maybe_committed_accounts:
  "maybe_committed E v m inputs v' \<Longrightarrow> accounts_ok E v \<Longrightarrow> accounts_ok E m \<Longrightarrow> accounts_ok E v'"
  by (auto simp: maybe_committed_def committed_accounts)

lemma ball_map_cong: "map f xs = map f ys \<Longrightarrow> \<forall>y \<in> set ys. P (f y) \<Longrightarrow> \<forall>x \<in> set xs. P (f x)"
proof
  assume h: "map f xs = map f ys" "\<forall>y \<in> set ys. P (f y)"
  fix x assume "x \<in> set xs"
  then have "f x \<in> set (map f ys)" unfolding h(1) [symmetric] by simp
  then show "P (f x)" using h(2) by auto
qed

context sabledb
begin

lemma user_key_inject [simp]: "user_key E uid = user_key E uid' \<longleftrightarrow> uid = uid'"
  by (simp add: user_key_def)

lemma stored_ok:
  assumes "accounts_ok E v" "stored E v uid u"
  obtains u0 where "v (user_key E uid) = Some (VUser u0)" "account_ok uid u0" "u = sync_legacy_email (hydrate u0)"
    "user_wf u" "user_id u = uid" "distinct (map pk_id (user_passkeys u))" "idents u0 = idents u" "creds u0 = creds u"
    "idents u = ident_of ` set (user_identifiers u)"
proof -
  obtain u0 where k: "v (user_key E uid) = Some (VUser u0)" "normalize_and_validate u0 = Inr u"
    using assms(2) by (auto simp: stored_def)
  then have a: "account_ok uid u0" using assms(1) by (auto simp: accounts_ok_def)
  have u: "user_wf (hydrate u0)" "u = sync_legacy_email (hydrate u0)" using k(2) by (simp_all add: normalize_Inr)
  then have "hydrate u = u" by (intro hydrate_id) (simp add: user_wf_def)
  then show thesis using that [OF k(1) a u(2)] a u by (simp add: account_ok_def idents_def creds_def)
qed

lemma owner_iff:
  assumes "accounts_ok E v" "stored E v uid u"
  shows "index_owner v i = Some (VStr (uuid_text E uid)) \<longleftrightarrow> i \<in> ident_of ` set (user_identifiers u)"
proof -
  obtain u0 where "v (user_key E uid) = Some (VUser u0)" "idents u0 = idents u" "idents u = ident_of ` set (user_identifiers u)"
    using stored_ok [OF assms] by blast
  then show ?thesis using assms(1) by (auto simp: accounts_ok_def owns_def)
qed

lemma credential_iff:
  assumes "accounts_ok E v" "stored E v uid u"
  shows "v (credential_key c) = Some (VStr (uuid_text E uid)) \<longleftrightarrow> c \<in> creds u"
proof -
  obtain u0 where "v (user_key E uid) = Some (VUser u0)" "creds u0 = creds u" using stored_ok [OF assms] by blast
  then show ?thesis using assms(1) by (auto simp: accounts_ok_def holds_def)
qed

lemma no_owner_iff: "accounts_ok E v \<Longrightarrow> no_owner E v i \<longleftrightarrow> index_owner v i = None"
proof -
  assume ok: "accounts_ok E v"
  have "index_owner v i = Some x \<Longrightarrow> \<exists>uid. x = VStr (uuid_text E uid) \<and> owns E v uid i" for x
    using ok by (simp add: accounts_ok_def)
  then show ?thesis by (fastforce simp: no_owner_def owns_def uuid_law)
qed

text \<open>One index entry when the account \<open>u0\<close> is replaced: \<open>b\<close> says whether it now has the entry.\<close>

lemma index_entry_update:
  assumes "\<And>x. f = Some x \<longleftrightarrow> (\<exists>u. x = VStr (uuid_text E u) \<and> P u)"
    and "b \<Longrightarrow> f = None \<or> f = Some (VStr (uuid_text E u0))"
  shows "(if b then Some (VStr (uuid_text E u0)) else if f = Some (VStr (uuid_text E u0)) then None else f) = Some x \<longleftrightarrow>
     (\<exists>u. x = VStr (uuid_text E u) \<and> (if u = u0 then b else P u))"
proof (cases f)
  case None
  then have "\<not> P u" for u using assms(1) by auto
  then show ?thesis using None by auto
next
  case (Some y)
  then obtain u1 where u1: "y = VStr (uuid_text E u1)" "P u1" using assms(1) [of y] by auto
  have "P u \<longleftrightarrow> u = u1" for u using assms(1) [of "VStr (uuid_text E u)"] Some u1 by auto
  then show ?thesis using Some u1 assms(2) by (cases "u1 = u0") auto
qed

text \<open>Replacing one account together with its index entries: an identifier or passkey it gains was
  free, one it loses is removed from the index, and the other entries stay.\<close>

lemma accounts_ok_update:
  assumes ok: "accounts_ok E v" and u: "m (user_key E uid) = Some (VUser u)" "account_ok uid u"
    and users: "\<And>uid'. uid' \<noteq> uid \<Longrightarrow> m (user_key E uid') = v (user_key E uid')"
    and free: "\<And>i. i \<in> idents u \<Longrightarrow> index_owner v i = None \<or> index_owner v i = Some (VStr (uuid_text E uid))"
    and index: "\<And>i. index_owner m i = (if i \<in> idents u then Some (VStr (uuid_text E uid))
        else if index_owner v i = Some (VStr (uuid_text E uid)) then None else index_owner v i)"
    and cfree: "\<And>c. c \<in> creds u \<Longrightarrow> v (credential_key c) = None \<or> v (credential_key c) = Some (VStr (uuid_text E uid))"
    and cindex: "\<And>c. m (credential_key c) = (if c \<in> creds u then Some (VStr (uuid_text E uid))
        else if v (credential_key c) = Some (VStr (uuid_text E uid)) then None else v (credential_key c))"
  shows "accounts_ok E m"
proof -
  have o: "owns E m uid' i = (if uid' = uid then i \<in> idents u else owns E v uid' i)" for uid' i
    using u(1) users [of uid'] by (auto simp: owns_def)
  have h: "holds E m uid' c = (if uid' = uid then c \<in> creds u else holds E v uid' c)" for uid' c
    using u(1) users [of uid'] by (auto simp: holds_def)
  have vo: "index_owner v i = Some x \<longleftrightarrow> (\<exists>uid. x = VStr (uuid_text E uid) \<and> owns E v uid i)" for i x
    using ok by (simp add: accounts_ok_def)
  have vh: "v (credential_key c) = Some x \<longleftrightarrow> (\<exists>uid. x = VStr (uuid_text E uid) \<and> holds E v uid c)" for c x
    using ok by (simp add: accounts_ok_def)
  have "\<exists>u. x = VUser u \<and> account_ok uid' u" if "m (user_key E uid') = Some x" for uid' x
    using that u users [of uid'] ok by (cases "uid' = uid") (auto simp: accounts_ok_def)
  moreover have "index_owner m i = Some x \<longleftrightarrow> (\<exists>uid. x = VStr (uuid_text E uid) \<and> owns E m uid i)" for i x
    unfolding index o using vo free by (rule index_entry_update)
  moreover have "m (credential_key c) = Some x \<longleftrightarrow> (\<exists>uid. x = VStr (uuid_text E uid) \<and> holds E m uid c)" for c x
    unfolding cindex h using vh cfree by (rule index_entry_update)
  ultimately show ?thesis unfolding accounts_ok_def by blast
qed

lemma account_record_update:
  assumes ok: "accounts_ok E v" "stored E v uid u" "user_id u' = uid" "user_wf u'"
    and same: "map ident_of (user_identifiers u') = map ident_of (user_identifiers u)"
      "map pk_id (user_passkeys u') = map pk_id (user_passkeys u)"
  shows "accounts_ok E (v(user_key E uid \<mapsto> VUser u'))"
proof -
  obtain u0 where a: "distinct (map pk_id (user_passkeys u))" "idents u = ident_of ` set (user_identifiers u)"
    using stored_ok [OF ok(1,2)] by blast
  have h: "hydrate u' = u'" using ok(4) by (simp add: hydrate_id user_wf_def)
  have "ident_of ` set (user_identifiers u') = ident_of ` set (user_identifiers u)"
    "pk_id ` set (user_passkeys u') = pk_id ` set (user_passkeys u)"
    using same [THEN arg_cong, of set] by simp_all
  then have i: "idents u' = ident_of ` set (user_identifiers u)" "creds u' = creds u" by (simp_all add: idents_def creds_def h)
  have o: "index_owner (v(user_key E uid \<mapsto> VUser u')) j = index_owner v j" for j
    by (simp add: index_owner_def split: option.splits)
  show ?thesis
    by (rule accounts_ok_update [OF ok(1), of _ uid u'], unfold o)
      (use ok a h i same owner_iff [OF ok(1,2)] credential_iff [OF ok(1,2)] in \<open>simp_all add: account_ok_def\<close>)
qed

end

section \<open>Specifications of the operations\<close>

text \<open>A mutation that rewrites one account record and logs one event: \<open>F\<close> relates the account that
  was read to the one written.\<close>

definition rewritten :: "'db env \<Rightarrow> uuid \<Rightarrow> (User \<Rightarrow> User \<Rightarrow> bool) \<Rightarrow> string \<Rightarrow> db_view \<Rightarrow> User \<Rightarrow> db_view \<Rightarrow> bool" where
  "rewritten E uid F ty v u' v' \<longleftrightarrow> (\<exists>u. stored E v uid u \<and> F u u' \<and>
     logged E v (v(user_key E (user_id u') \<mapsto> VUser u')) [(ty, Some (user_id u'))] v')"

definition maybe_rewritten :: "'db env \<Rightarrow> uuid \<Rightarrow> (User \<Rightarrow> User \<Rightarrow> bool) \<Rightarrow> string \<Rightarrow> db_view \<Rightarrow> db_view \<Rightarrow> bool" where
  "maybe_rewritten E uid F ty v v' \<longleftrightarrow> v' = v \<or> (\<exists>u'. rewritten E uid F ty v u' v')"

lemma maybe_rewritten_refl [simp]: "maybe_rewritten E uid F ty v v"
  by (simp add: maybe_rewritten_def)

lemma maybe_rewrittenI:
  assumes "stored E v uid u" "F u u'"
    and "maybe_committed E v (v(user_key E (user_id u') \<mapsto> VUser u')) [(ty, Some (user_id u'))] v'"
  shows "maybe_rewritten E uid F ty v v'"
  using assms unfolding maybe_rewritten_def rewritten_def maybe_committed_logged by blast

lemma rewritten_log: "log_ok v \<Longrightarrow> rewritten E uid F ty v u' v' \<Longrightarrow> log_ok v'"
  using logged_log by (fastforce simp: rewritten_def)

lemma maybe_rewritten_log: "log_ok v \<Longrightarrow> maybe_rewritten E uid F ty v v' \<Longrightarrow> log_ok v'"
  using rewritten_log by (fastforce simp: maybe_rewritten_def)

definition keeps_account :: "User \<Rightarrow> User \<Rightarrow> bool" where
  "keeps_account u u' \<longleftrightarrow> user_id u' = user_id u \<and> user_wf u' \<and>
     map ident_of (user_identifiers u') = map ident_of (user_identifiers u) \<and>
     map pk_id (user_passkeys u') = map pk_id (user_passkeys u)"

context sabledb
begin

lemma rewritten_accounts:
  assumes "accounts_ok E v" "rewritten E uid F ty v u' v'" "\<And>u. user_wf u \<Longrightarrow> F u u' \<Longrightarrow> keeps_account u u'"
  shows "accounts_ok E v'"
proof -
  obtain u where s: "stored E v uid u" "F u u'"
    and c: "logged E v (v(user_key E (user_id u') \<mapsto> VUser u')) [(ty, Some (user_id u'))] v'"
    using assms(2) by (auto simp: rewritten_def)
  obtain "user_wf u" "user_id u = uid" using stored_ok [OF assms(1) s(1)] by blast
  then have "accounts_ok E (v(user_key E uid \<mapsto> VUser u'))" "user_id u' = uid"
    using assms(3) [OF _ s(2)] account_record_update [OF assms(1) s(1), of u'] by (simp_all add: keeps_account_def)
  then show ?thesis using logged_accounts [OF c] by simp
qed

lemma maybe_rewritten_accounts:
  assumes "accounts_ok E v" "maybe_rewritten E uid F ty v v'" "\<And>u u'. user_wf u \<Longrightarrow> F u u' \<Longrightarrow> keeps_account u u'"
  shows "accounts_ok E v'"
  using assms rewritten_accounts by (auto simp: maybe_rewritten_def)

lemma user_spec:
  "spec (user E uid)
     (\<lambda>r w'. keeps w w' \<and> content w' = content w \<and>
        (case r of None \<Rightarrow> content w (user_key E uid) = None | Some u \<Rightarrow> stored E (content w) uid u))
     (\<lambda>_ w'. keeps w w' \<and> content w' = content w) w"
  unfolding user_def spec_def
  by (auto simp: wp_simps keeps_def stored_def intro!: wp_get_json split: sum.splits)

lemma require_user_spec:
  "spec (require_user E uid)
     (\<lambda>u w'. keeps w w' \<and> content w' = content w \<and> stored E (content w) uid u)
     (\<lambda>_ w'. keeps w w' \<and> content w' = content w) w"
  unfolding require_user_def spec_def
  by (auto simp: wp_simps intro!: wp_use [OF user_spec] split: option.splits)

lemma user_by_identifier_spec:
  "spec (user_by_identifier E i)
     (\<lambda>r w'. keeps w w' \<and> content w' = content w \<and>
        (case r of
           None \<Rightarrow> no_owner E (content w) i
         | Some u \<Rightarrow> \<exists>x s uid. index_owner (content w) i = Some x \<and> as_str x = Some s \<and> uuid_parse E s = Some uid \<and>
             stored E (content w) uid u))
     (\<lambda>_ w'. keeps w w' \<and> content w' = content w) w"
  unfolding user_by_identifier_def spec_def
  by (auto simp: wp_simps keeps_def index_owner_def no_owner_def parse_uuid_def intro!: wp_get_json wp_use [OF user_spec]
      split: option.splits sum.splits)

lemma persist_spec:
  "spec (persist_user_with_event E u ty)
     (\<lambda>_ w'. keeps w w' \<and> logged E (content w) ((content w)(user_key E (user_id u) \<mapsto> VUser u))
        [(ty, Some (user_id u))] (content w'))
     (\<lambda>_ w'. keeps w w' \<and> maybe_committed E (content w) ((content w)(user_key E (user_id u) \<mapsto> VUser u))
        [(ty, Some (user_id u))] (content w')) w"
  unfolding persist_user_with_event_def spec_def
  by (auto simp: wp_simps keeps_def intro!: wp_use [OF pending_spec] wp_commit_logged [where inputs = "[(ty, Some (user_id u))]"])

end

section \<open>Profile, primary and verification changes\<close>

definition with_profile :: "AccountProfile \<Rightarrow> User \<Rightarrow> User \<Rightarrow> bool" where
  "with_profile p u u' \<longleftrightarrow> validate_account_profile p = Inr () \<and> u' = u\<lparr>user_profile := p\<rparr>"

definition with_primary :: "IdentifierValue \<Rightarrow> User \<Rightarrow> User \<Rightarrow> bool" where
  "with_primary i u u' \<longleftrightarrow> list_ex (same_identifier i) (user_identifiers u) \<and>
     u' = sync_legacy_email (u\<lparr>user_identifiers :=
       map (\<lambda>stored. stored\<lparr>ai_primary := same_identifier i stored\<rparr>) (user_identifiers u)\<rparr>)"

definition with_verification :: "IdentifierValue \<Rightarrow> bool \<Rightarrow> User \<Rightarrow> User \<Rightarrow> bool" where
  "with_verification i b u u' \<longleftrightarrow> find (same_identifier i) (user_identifiers u) \<noteq> None \<and>
     (\<exists>t. u' = sync_legacy_email (u\<lparr>user_identifiers :=
       update_first (same_identifier i) (\<lambda>stored. stored\<lparr>ai_verified := b,
         ai_verified_at := (if b then Some t else None)\<rparr>) (user_identifiers u)\<rparr>))"

lemma same_identifier_iff: "same_identifier i x \<longleftrightarrow> ident_of x = i"
  by (cases i) (auto simp: same_identifier_def ident_of_def)

lemma filter_same_length:
  "distinct (map ident_of xs) \<Longrightarrow> list_ex (same_identifier i) xs \<Longrightarrow> length (filter (same_identifier i) xs) = 1"
proof (induction xs)
  case (Cons x xs)
  have "filter (same_identifier i) xs = []" if "ident_of x = i"
    using Cons.prems(1) that by (auto simp: same_identifier_iff filter_empty_conv) (metis image_eqI)
  moreover have "same_identifier i x \<longleftrightarrow> ident_of x = i" by (rule same_identifier_iff)
  ultimately show ?case using Cons by auto
qed simp

lemma length_filter_map: "length (filter P xs) = length (filter id (map P xs))"
  by (induction xs) auto

lemma with_profile_keeps: "user_wf u \<Longrightarrow> with_profile p u u' \<Longrightarrow> keeps_account u u'"
  by (auto simp: keeps_account_def with_profile_def user_wf_def)

lemma with_primary_keeps:
  assumes "user_wf u" "with_primary i u u'"
  shows "keeps_account u u'"
proof -
  let ?f = "\<lambda>stored. stored\<lparr>ai_primary := same_identifier i stored\<rparr>"
  have "length (filter ai_primary (map ?f (user_identifiers u))) = length (filter (same_identifier i) (user_identifiers u))"
    by (simp add: filter_map comp_def)
  also have "\<dots> = 1" using assms by (intro filter_same_length) (auto simp: user_wf_def with_primary_def)
  finally have one: "length (filter ai_primary (map ?f (user_identifiers u))) = 1" .
  have ids: "map ident_of (map ?f (user_identifiers u)) = map ident_of (user_identifiers u)"
    by (simp add: ident_of_def)
  have ok: "identifier_ok (?f x) = identifier_ok x" for x by (simp add: identifier_ok_def ident_of_def)
  show ?thesis using assms one ids ok
    by (auto simp: keeps_account_def with_primary_def user_wf_def simp del: map_map)
qed

lemma with_verification_keeps:
  assumes "user_wf u" "with_verification i b u u'"
  shows "keeps_account u u'"
proof -
  obtain t where u': "u' = sync_legacy_email (u\<lparr>user_identifiers :=
       update_first (same_identifier i) (\<lambda>stored. stored\<lparr>ai_verified := b,
         ai_verified_at := (if b then Some t else None)\<rparr>) (user_identifiers u)\<rparr>)"
    using assms(2) by (auto simp: with_verification_def)
  let ?f = "\<lambda>stored. stored\<lparr>ai_verified := b, ai_verified_at := (if b then Some t else None)\<rparr>"
  let ?ids = "update_first (same_identifier i) ?f (user_identifiers u)"
  have maps: "map ident_of ?ids = map ident_of (user_identifiers u)" "map ai_primary ?ids = map ai_primary (user_identifiers u)"
    by (intro map_update_first, simp add: ident_of_def)+
  have ok: "identifier_ok x" if "x \<in> set ?ids" for x
    using set_update_first [OF that] assms(1) by (auto simp: user_wf_def identifier_ok_def ident_of_def split: if_splits)
  have "?ids \<noteq> []" using assms(1) by (cases "user_identifiers u") (auto simp: user_wf_def)
  moreover have "length (filter ai_primary ?ids) = length (filter ai_primary (user_identifiers u))"
    by (simp only: length_filter_map [of ai_primary] maps)
  ultimately have "user_wf u'" using assms(1) maps(1) ok unfolding u' user_wf_sync by (simp add: user_wf_def)
  then show ?thesis using maps(1) by (simp add: keeps_account_def u')
qed

section \<open>Linking and unlinking identifiers\<close>

definition linked :: "'db env \<Rightarrow> uuid \<Rightarrow> IdentifierValue \<Rightarrow> bool \<Rightarrow> db_view \<Rightarrow> User \<Rightarrow> bool" where
  "linked E uid i b v u' \<longleftrightarrow> (\<exists>u t t'. canonical (iv_kind i) (iv_value i) = Inr i \<and> no_owner E v i \<and>
     stored E v uid u \<and> length (user_identifiers u) < MAX_IDENTIFIERS \<and>
     u' = sync_legacy_email (u\<lparr>user_identifiers := user_identifiers u @ [new_identifier i b t t']\<rparr>))"

definition unlinked :: "'db env \<Rightarrow> uuid \<Rightarrow> IdentifierValue \<Rightarrow> db_view \<Rightarrow> User \<Rightarrow> bool" where
  "unlinked E uid i v u' \<longleftrightarrow> (\<exists>u. stored E v uid u \<and> unlink_identifier i u = Inr u')"

lemma identifier_cmds_keys:
  "k \<in> cmds_keys (add_identifier_cmds E uid i u) \<Longrightarrow> \<not> event_family k"
  "k \<in> cmds_keys (remove_identifier_cmds E uid i u) \<Longrightarrow> \<not> event_family k"
  by (auto simp: add_identifier_cmds_def remove_identifier_cmds_def split: if_splits)

lemma linkedI:
  "canonical (iv_kind i) (iv_value i) = Inr i \<Longrightarrow> no_owner E v i \<Longrightarrow> stored E v uid u \<Longrightarrow>
   length (user_identifiers u) < MAX_IDENTIFIERS \<Longrightarrow>
   linked E uid i b v (sync_legacy_email (u\<lparr>user_identifiers := user_identifiers u @ [new_identifier i b t t']\<rparr>))"
  by (auto simp: linked_def)

context sabledb
begin

lemma wp_persist_rewrite:
  assumes "\<exists>u. stored E (content w) uid u \<and> F u u'"
    "\<And>w'. keeps w w' \<Longrightarrow> rewritten E uid F ty (content w) u' (content w') \<Longrightarrow> Q (Ok ()) w'"
    "\<And>e w'. keeps w w' \<Longrightarrow> maybe_rewritten E uid F ty (content w) (content w') \<Longrightarrow> Q (Err e) w'"
  shows "wp (persist_user_with_event E u' ty) Q w"
proof (rule wp_use [OF persist_spec])
  fix x w'
  assume "keeps w w' \<and> logged E (content w) ((content w)(user_key E (user_id u') \<mapsto> VUser u')) [(ty, Some (user_id u'))] (content w')"
  then show "Q (Ok x) w'" using assms(1,2) by (auto simp: rewritten_def)
next
  fix e w'
  assume "keeps w w' \<and> maybe_committed E (content w) ((content w)(user_key E (user_id u') \<mapsto> VUser u')) [(ty, Some (user_id u'))] (content w')"
  then show "Q (Err e) w'" using assms(1,3) maybe_rewrittenI [of E "content w" uid _ F u' ty "content w'"] by auto
qed

lemma update_profile_spec:
  assumes "w_mutation w = Free" "w_writer w = Free"
  shows "spec (update_profile E uid p)
     (\<lambda>u' w'. keeps w w' \<and> rewritten E uid (with_profile p) ''profile.updated'' (content w) u' (content w'))
     (\<lambda>_ w'. keeps w w' \<and> maybe_rewritten E uid (with_profile p) ''profile.updated'' (content w) (content w')) w"
  unfolding update_profile_def spec_def using assms
  by (auto simp: wp_simps Let_def keeps_def with_profile_def split: sum.splits
      intro!: wp_use [OF require_user_spec] wp_persist_rewrite [where uid = uid and F = "with_profile p"]) blast+

lemma set_primary_identifier_spec:
  assumes "w_mutation w = Free" "w_writer w = Free"
  shows "spec (set_primary_identifier E uid i)
     (\<lambda>u' w'. keeps w w' \<and> rewritten E uid (with_primary i) ''identifier.primary_changed'' (content w) u' (content w'))
     (\<lambda>_ w'. keeps w w' \<and> maybe_rewritten E uid (with_primary i) ''identifier.primary_changed'' (content w) (content w')) w"
  unfolding set_primary_identifier_def spec_def using assms
  by (auto simp: wp_simps Let_def keeps_def with_primary_def split: sum.splits
      intro!: wp_use [OF require_user_spec] wp_persist_rewrite [where uid = uid and F = "with_primary i"]) blast+

lemma set_identifier_verification_spec:
  fixes b :: bool
  assumes "w_mutation w = Free" "w_writer w = Free"
  defines "ty \<equiv> (if b then ''identifier.verified'' else ''identifier.unverified'')"
  shows "spec (set_identifier_verification E uid i b)
     (\<lambda>u' w'. keeps w w' \<and> rewritten E uid (with_verification i b) ty (content w) u' (content w'))
     (\<lambda>_ w'. keeps w w' \<and> maybe_rewritten E uid (with_verification i b) ty (content w) (content w')) w"
  unfolding set_identifier_verification_def spec_def ty_def [symmetric] using assms(1,2)
  by (auto simp: wp_simps Let_def keeps_def with_verification_def split: sum.splits
      intro!: wp_use [OF require_user_spec] wp_persist_rewrite [where uid = uid and F = "with_verification i b"]) blast+

lemma add_identifier_spec:
  assumes "w_mutation w = Free" "w_writer w = Free"
  shows "spec (add_identifier E uid i b)
     (\<lambda>u' w'. keeps w w' \<and> linked E uid i b (content w) u' \<and>
        logged E (content w) (apply_cmds (add_identifier_cmds E uid i u') (content w)) (add_identifier_events uid i b) (content w'))
     (\<lambda>_ w'. keeps w w' \<and> (content w' = content w \<or> (\<exists>u'. linked E uid i b (content w) u' \<and>
        maybe_committed E (content w) (apply_cmds (add_identifier_cmds E uid i u') (content w)) (add_identifier_events uid i b) (content w')))) w"
  unfolding add_identifier_def spec_def using assms
  by (auto simp: wp_simps Let_def keeps_def require_canonical_Inr not_le split: sum.splits option.splits
      intro!: wp_use [OF user_by_identifier_spec] wp_use [OF require_user_spec] wp_use [OF pending_spec]
        wp_commit_logged [where inputs = "add_identifier_events uid i b"])
     (blast intro: linkedI dest: identifier_cmds_keys)+

lemma unlinkedI: "stored E v uid u \<Longrightarrow> unlink_identifier i u = Inr u' \<Longrightarrow> unlinked E uid i v u'"
  by (auto simp: unlinked_def)

lemma remove_identifier_spec:
  assumes "w_mutation w = Free" "w_writer w = Free"
  shows "spec (remove_identifier E uid i)
     (\<lambda>u' w'. keeps w w' \<and> unlinked E uid i (content w) u' \<and>
        logged E (content w) (apply_cmds (remove_identifier_cmds E uid i u') (content w)) [(''identifier.removed'', Some uid)] (content w'))
     (\<lambda>_ w'. keeps w w' \<and> (content w' = content w \<or> (\<exists>u'. unlinked E uid i (content w) u' \<and>
        maybe_committed E (content w) (apply_cmds (remove_identifier_cmds E uid i u') (content w)) [(''identifier.removed'', Some uid)] (content w')))) w"
  unfolding remove_identifier_def spec_def using assms
  by (auto simp: wp_simps Let_def keeps_def not_le split: sum.splits option.splits
      intro!: wp_use [OF require_user_spec] wp_use [OF pending_spec]
        wp_commit_logged [where inputs = "[(''identifier.removed'', Some uid)]"])
     (blast intro: unlinkedI dest: identifier_cmds_keys)+

lemma index_owner_add:
  "index_owner (apply_cmds (add_identifier_cmds E uid i u') v) j =
     (if j = i then Some (VStr (uuid_text E uid)) else index_owner v j)"
  by (cases i; cases j) (auto simp: add_identifier_cmds_def index_owner_def split: option.split)

lemma index_owner_remove:
  "index_owner (apply_cmds (remove_identifier_cmds E uid i u') v) j = (if j = i then None else index_owner v j)"
  by (cases i; cases j) (auto simp: remove_identifier_cmds_def index_owner_def split: option.split)

lemma identifier_cmds_other:
  "apply_cmds (add_identifier_cmds E uid i u') v (credential_key c) = v (credential_key c)"
  "apply_cmds (remove_identifier_cmds E uid i u') v (credential_key c) = v (credential_key c)"
  "apply_cmds (add_identifier_cmds E uid i u') v (user_key E uid') = (if uid' = uid then Some (VUser u') else v (user_key E uid'))"
  "apply_cmds (remove_identifier_cmds E uid i u') v (user_key E uid') = (if uid' = uid then Some (VUser u') else v (user_key E uid'))"
  by (simp_all add: add_identifier_cmds_def remove_identifier_cmds_def)

lemma new_identifier_ok:
  assumes "canonical (iv_kind i) (iv_value i) = Inr i"
  shows "identifier_ok (new_identifier i b t t')" "ident_of (new_identifier i b t t') = i"
  using canonical_Inr [OF assms] assms printable_displayable
  by (auto simp: identifier_ok_def new_identifier_def ident_of_def)

lemma linked_accounts:
  assumes ok: "accounts_ok E v" and l: "linked E uid i b v u'"
  shows "accounts_ok E (apply_cmds (add_identifier_cmds E uid i u') v)"
proof -
  obtain u t t' where c: "canonical (iv_kind i) (iv_value i) = Inr i" and n: "index_owner v i = None"
    and s: "stored E v uid u" and len: "length (user_identifiers u) < MAX_IDENTIFIERS"
    and u': "u' = sync_legacy_email (u\<lparr>user_identifiers := user_identifiers u @ [new_identifier i b t t']\<rparr>)"
    using l no_owner_iff [OF ok] by (auto simp: linked_def)
  obtain u0 where a: "user_wf u" "user_id u = uid" "distinct (map pk_id (user_passkeys u))" using stored_ok [OF ok s] by blast
  note o = owner_iff [OF ok s] credential_iff [OF ok s]
  have fresh: "i \<notin> ident_of ` set (user_identifiers u)" using o(1) [of i] n by auto
  note new = new_identifier_ok [OF c, of b t t']
  have "\<not> ai_primary (new_identifier i b t t')" by (simp add: new_identifier_def)
  then have wf: "user_wf u'" using a(1) len fresh new unfolding u' user_wf_sync by (auto simp: user_wf_def)
  then have "hydrate u' = u'" by (simp add: hydrate_id user_wf_def)
  then have ids: "idents u' = insert i (ident_of ` set (user_identifiers u))" "creds u' = creds u"
    using new(2) by (auto simp: idents_def creds_def u')
  show ?thesis
  proof (rule accounts_ok_update [OF ok, of _ uid u'], unfold ids index_owner_add identifier_cmds_other)
    show "account_ok uid u'" using wf a by (simp add: account_ok_def hydrate_id user_wf_def) (simp add: u')
  qed (use n o in auto)
qed

end

lemma filter_unlinked:
  assumes "distinct (map ident_of xs)" "position (same_identifier i) xs = Some pos"
  shows "filter (\<lambda>x. \<not> same_identifier i x) xs = take pos xs @ drop (Suc pos) xs" "pos < length xs" "ident_of (xs ! pos) = i"
proof -
  show p: "pos < length xs" "ident_of (xs ! pos) = i"
    using position_Some [OF assms(2)] by (auto simp: same_identifier_iff)
  have d: "xs = take pos xs @ xs ! pos # drop (Suc pos) xs" by (rule id_take_nth_drop [OF p(1)])
  have "\<not> same_identifier i x" if "x \<in> set (take pos xs) \<union> set (drop (Suc pos) xs)" for x
    using assms(1) p(2) that
    by (subst (asm) d) (auto simp: same_identifier_iff, (metis image_eqI)+)
  then have "filter (\<lambda>x. \<not> same_identifier i x) (take pos xs @ xs ! pos # drop (Suc pos) xs) = take pos xs @ drop (Suc pos) xs"
    using p(2) by (auto simp: same_identifier_iff filter_id_conv)
  then show "filter (\<lambda>x. \<not> same_identifier i x) xs = take pos xs @ drop (Suc pos) xs" using d by simp
qed

text \<open>Removing an identifier of a well-formed account: it never panics, the account keeps at least one
  identifier and exactly one primary one.\<close>

lemma unlink_wf:
  assumes wf: "user_wf u"
  shows "unlink_identifier i u \<noteq> Inl (Panic s)"
    and "unlink_identifier i u = Inr u' \<Longrightarrow> user_wf u' \<and> user_id u' = user_id u \<and> user_passkeys u' = user_passkeys u \<and>
      i \<in> ident_of ` set (user_identifiers u) \<and>
      map ident_of (user_identifiers u') = filter (\<lambda>j. j \<noteq> i) (map ident_of (user_identifiers u))"
proof -
  let ?ids = "user_identifiers u"
  have f: "(\<lambda>x. ai_kind x = iv_kind i \<longrightarrow> ai_value x \<noteq> iv_value i) = (\<lambda>x. \<not> same_identifier i x)"
    by (auto simp: same_identifier_def)
  have "unlink_identifier i u \<noteq> Inl (Panic s) \<and> (unlink_identifier i u = Inr u' \<longrightarrow>
      user_wf u' \<and> user_id u' = user_id u \<and> user_passkeys u' = user_passkeys u \<and>
      i \<in> ident_of ` set ?ids \<and> map ident_of (user_identifiers u') = filter (\<lambda>j. j \<noteq> i) (map ident_of ?ids))"
  proof (cases "length ?ids \<le> 1 \<or> position (same_identifier i) ?ids = None")
    case True
    then show ?thesis by (auto simp: unlink_identifier_def)
  next
    case False
    then obtain pos where len: "1 < length ?ids" and pos: "position (same_identifier i) ?ids = Some pos" by auto
    let ?kept = "filter (\<lambda>x. \<not> same_identifier i x) ?ids"
    have d: "distinct (map ident_of ?ids)" and one: "length (filter ai_primary ?ids) = 1"
      using wf by (simp_all add: user_wf_def)
    note k = filter_unlinked [OF d pos]
    have ids: "?ids = take pos ?ids @ ?ids ! pos # drop (Suc pos) ?ids" by (rule id_take_nth_drop [OF k(2)])
    have ne: "?kept \<noteq> []" "length ?kept \<le> length ?ids" using k len by auto
    have cnt: "length (filter ai_primary ?kept) = (if ai_primary (?ids ! pos) then 0 else 1)"
      using one unfolding k(1) by (subst (asm) ids) (auto split: if_splits)
    have m: "map ident_of ?kept = filter (\<lambda>j. j \<noteq> i) (map ident_of ?ids)"
      by (simp add: filter_map comp_def same_identifier_iff)
    have dk: "distinct (map ident_of ?kept)" using d unfolding m by (rule distinct_filter)
    have mem: "i \<in> ident_of ` set ?ids" using k(2,3) nth_mem by blast
    have okk: "\<forall>x \<in> set ?kept. identifier_ok x" using wf by (auto simp: user_wf_def)
    obtain x xs where x: "?kept = x # xs" using ne(1) by (cases ?kept) auto
    show ?thesis
    proof (cases "ai_primary (?ids ! pos)")
      case True
      then have "unlink_identifier i u = Inr (sync_legacy_email (u\<lparr>user_identifiers := x\<lparr>ai_primary := True\<rparr> # xs\<rparr>))"
        using len pos x by (simp add: unlink_identifier_def Let_def f)
      moreover have "user_wf (u\<lparr>user_identifiers := x\<lparr>ai_primary := True\<rparr> # xs\<rparr>)"
        using wf cnt dk okk ne(2) True unfolding x user_wf_def
        by (auto simp: identifier_ok_def ident_of_def split: if_splits)
      moreover have "map ident_of (x\<lparr>ai_primary := True\<rparr> # xs) = map ident_of ?kept" by (simp add: x ident_of_def)
      ultimately show ?thesis using m mem by auto
    next
      case False
      then have "unlink_identifier i u = Inr (sync_legacy_email (u\<lparr>user_identifiers := ?kept\<rparr>))"
        using len pos by (simp add: unlink_identifier_def Let_def f)
      moreover have "user_wf (u\<lparr>user_identifiers := ?kept\<rparr>)"
        using wf cnt dk okk ne False unfolding user_wf_def by (auto intro: le_trans [OF length_filter_le])
      ultimately show ?thesis using m mem by auto
    qed
  qed
  then show "unlink_identifier i u \<noteq> Inl (Panic s)"
    and "unlink_identifier i u = Inr u' \<Longrightarrow> user_wf u' \<and> user_id u' = user_id u \<and> user_passkeys u' = user_passkeys u \<and>
      i \<in> ident_of ` set ?ids \<and> map ident_of (user_identifiers u') = filter (\<lambda>j. j \<noteq> i) (map ident_of ?ids)"
    by blast+
qed

context sabledb
begin

lemma unlinked_accounts:
  assumes ok: "accounts_ok E v" and l: "unlinked E uid i v u'"
  shows "accounts_ok E (apply_cmds (remove_identifier_cmds E uid i u') v)"
proof -
  obtain u where s: "stored E v uid u" and un: "unlink_identifier i u = Inr u'" using l by (auto simp: unlinked_def)
  obtain u0 where a: "user_wf u" "user_id u = uid" "distinct (map pk_id (user_passkeys u))" using stored_ok [OF ok s] by blast
  note w = unlink_wf(2) [OF a(1) un] and o = owner_iff [OF ok s] credential_iff [OF ok s]
  have h: "hydrate u' = u'" using w by (simp add: hydrate_id user_wf_def)
  have "map ident_of (user_identifiers u') = filter (\<lambda>j. j \<noteq> i) (map ident_of (user_identifiers u))" using w by blast
  from arg_cong [OF this, of set] have "ident_of ` set (user_identifiers u') = ident_of ` set (user_identifiers u) - {i}"
    by (simp add: set_diff_eq)
  then have ids: "idents u' = ident_of ` set (user_identifiers u) - {i}" "creds u' = creds u"
    using w by (simp_all add: idents_def creds_def h)
  show ?thesis
  proof (rule accounts_ok_update [OF ok, of _ uid u'], unfold ids index_owner_remove identifier_cmds_other)
    show "account_ok uid u'" using w a by (simp add: account_ok_def hydrate_id user_wf_def)
  qed (use w o in auto)
qed

end

section \<open>A realm with one account\<close>

definition alice_mail :: IdentifierValue where
  "alice_mail = \<lparr>iv_kind = Email, iv_value = ''a@b.co''\<rparr>"

definition alice_phone :: IdentifierValue where
  "alice_phone = \<lparr>iv_kind = Phone, iv_value = ''+447700900123''\<rparr>"

definition alice :: User where
  "alice = \<lparr>user_id = 7, user_email = ''a@b.co'', user_email_verified = True,
     user_profile = \<lparr>given_name = None, family_name = None, display_name = None\<rparr>,
     user_identifiers = [
       \<lparr>ai_kind = Email, ai_value = ''a@b.co'', ai_verified = True, ai_verified_at = Some 3, ai_primary = True, ai_created_at = 2\<rparr>,
       \<lparr>ai_kind = Phone, ai_value = ''+447700900123'', ai_verified = False, ai_verified_at = None, ai_primary = False,
        ai_created_at = 4\<rparr>],
     user_session_version = 1, user_recovery_codes = [], user_created_at = 2,
     user_passkeys = [
       \<lparr>pk_id = ''k1A'', pk_label = ''laptop'', pk_counter = 2, pk_created_at = 2, pk_last_used_at = None, pk_passkey = ''k1''\<rparr>,
       \<lparr>pk_id = ''k2A'', pk_label = ''phone'', pk_counter = 2, pk_created_at = 2, pk_last_used_at = None, pk_passkey = ''k2''\<rparr>]\<rparr>"

definition alice_db :: "(nat \<Rightarrow> u64) \<Rightarrow> (string \<times> value) list" where
  "alice_db clock = (let E = mem_env clock; owner = VStr (uuid_text E 7) in
     [(user_key E 7, VUser alice), (identifier_key alice_mail, owner), (email_key ''a@b.co'', owner),
      (identifier_key alice_phone, owner), (credential_key ''k1A'', owner), (credential_key ''k2A'', owner)])"

abbreviation alice_world :: "(nat \<Rightarrow> u64) \<Rightarrow> bool list \<Rightarrow> mem world" where
  "alice_world clock faults \<equiv> mem_world (alice_db clock) faults"

lemma alice_norm [run_simps]: "normalize_and_validate alice = Inr alice"
  by (simp add: alice_def normalize_and_validate_def hydrate_def check_phone_def canonical_def canonical_phone_value_def
      forbidden_display_character_def is_control_def seen_key_def string_run validate_account_profile_def
      validate_profile_value_def sync_legacy_email_def primary_rank_def)

lemma eq_char_of_iff: "(c :: char) = char_of n \<longleftrightarrow> of_char c = take_bit 8 (n :: nat)"
  using char_of_eq_iff [of n c] by auto

lemma alice_canonical [run_simps]:
  "require_canonical_identifier alice_mail = Inr ()" "require_canonical_identifier alice_phone = Inr ()"
  by (simp_all add: require_canonical_identifier_def canonical_def canonical_phone_value_def canonical_email_value_def
      alice_mail_def alice_phone_def string_run to_ascii_lowercase_def ascii_lower_def is_ascii_def is_ascii_uppercase_def
      local_byte_def bad_label_def is_ascii_alphanumeric_def is_ascii_digit_def is_ascii_lowercase_def eq_char_of_iff)

lemma accounts_ok_empty: "(\<And>k. account_family k \<Longrightarrow> v k = None) \<Longrightarrow> accounts_ok E v"
  by (simp add: accounts_ok_def owns_def holds_def index_owner_def)

lemma alice_wf: "user_wf alice" "hydrate alice = alice"
proof -
  show h: "hydrate alice = alice" by (simp add: alice_def hydrate_def)
  show "user_wf alice" using alice_norm unfolding normalize_Inr h by blast
qed

lemma alice_idents: "idents alice = {alice_mail, alice_phone}" "creds alice = {''k1A'', ''k2A''}"
  by (simp_all add: idents_def creds_def alice_wf(2)) (simp_all add: alice_def ident_of_def alice_mail_def alice_phone_def)

lemma alice_ok: "accounts_ok (mem_env clock) (map_of (alice_db clock))"
proof -
  let ?E = "mem_env clock"
  have "index_owner (map_of (alice_db clock)) i = (if i \<in> idents alice then Some (VStr (uuid_text ?E 7)) else None)" for i
    by (cases i) (auto simp: index_owner_def alice_db_def Let_def alice_idents alice_mail_def alice_phone_def)
  then show ?thesis
    by (intro memory.accounts_ok_update [of clock Map.empty "map_of (alice_db clock)" 7 alice])
      (auto simp: accounts_ok_empty alice_db_def Let_def account_ok_def alice_wf alice_idents index_owner_def split: option.splits if_splits,
       simp_all add: alice_def)
qed

section \<open>Properties\<close>

text \<open>C5: reading an account record. \<open>normalize_and_validate\<close> accepts exactly the records that are
  well formed once a legacy email address has become an identifier; what it returns is well formed,
  is accepted unchanged when it is stored and read again, keeps the account's id, identifiers and
  passkeys, and its legacy email fields mirror its preferred email identifier.\<close>

theorem normalize_exact_and_stable:
  "case normalize_and_validate u of
     Inl _ \<Rightarrow> \<not> user_wf (hydrate u)
   | Inr u' \<Rightarrow> user_wf u' \<and> normalize_and_validate u' = Inr u' \<and> user_id u' = user_id u \<and>
       user_identifiers u' = user_identifiers (hydrate u) \<and> user_passkeys u' = user_passkeys u \<and>
       (case primary_email u' of
          None \<Rightarrow> user_email u' = [] \<and> \<not> user_email_verified u'
        | Some i \<Rightarrow> user_email u' = ai_value i \<and> user_email_verified u' = ai_verified i)"
proof (cases "normalize_and_validate u")
  case (Inl e)
  then show ?thesis using normalize_Inr [of u] by auto
next
  case (Inr u')
  then have u': "user_wf (hydrate u)" "u' = sync_legacy_email (hydrate u)" by (simp_all add: normalize_Inr)
  have "case primary_email u' of None \<Rightarrow> user_email u' = [] \<and> \<not> user_email_verified u'
      | Some i \<Rightarrow> user_email u' = ai_value i \<and> user_email_verified u' = ai_verified i"
    unfolding u'(2) primary_email_def sync_fields
    by (cases "min_by_key primary_rank (filter (\<lambda>i. ai_kind i = Email) (user_identifiers (hydrate u)))")
      (simp_all add: sync_legacy_email_def)
  moreover have "normalize_and_validate u' = Inr u'" "user_wf u'" using u' normalize_fixed [of "hydrate u"] by simp_all
  ultimately show ?thesis unfolding Inr sum.case by (simp add: u'(2))
qed

text \<open>C6: resolving an identifier. In a realm whose account records and indexes agree,
  \<open>user_by_identifier\<close> finds the account that owns the identifier, which is unique, and reports
  none only when no account owns it.\<close>

theorem identifier_lookup_exact:
  assumes "sabledb E view" "accounts_ok E (view (w_db w))" "user_by_identifier E i w = (Ok r, w')"
  shows "view (w_db w') = view (w_db w) \<and>
    (case r of
       None \<Rightarrow> \<forall>uid. \<not> owns E (view (w_db w)) uid i
     | Some u \<Rightarrow> stored E (view (w_db w)) (user_id u) u \<and> (\<forall>uid. owns E (view (w_db w)) uid i \<longleftrightarrow> uid = user_id u))"
proof -
  let ?v = "view (w_db w)"
  have own: "index_owner ?v i = Some x \<longleftrightarrow> (\<exists>uid. x = VStr (uuid_text E uid) \<and> owns E ?v uid i)" for x
    using assms(2) by (simp add: accounts_ok_def)
  note law = sabledb.uuid_law [OF assms(1)] sabledb.uuid_text_inject [OF assms(1)]
  note found = specD [OF sabledb.user_by_identifier_spec [OF assms(1)] assms(3)]
  show ?thesis
  proof (cases r)
    case None
    then have "index_owner ?v i = None" using found sabledb.no_owner_iff [OF assms(1,2)] by simp
    then show ?thesis using found own None by auto
  next
    case (Some u)
    then obtain x s uid where x: "index_owner ?v i = Some x" "as_str x = Some s" "uuid_parse E s = Some uid" "stored E ?v uid u"
      using found by auto
    obtain uid' where o: "x = VStr (uuid_text E uid')" "owns E ?v uid' i" using own [THEN iffD1, OF x(1)] by blast
    then have uid: "uid' = uid" using x(2,3) law(1) [of uid'] by simp
    have id: "user_id u = uid" using sabledb.stored_ok [OF assms(1,2) x(4)] by blast
    have uniq: "uid'' = uid'" if "owns E ?v uid'' i" for uid''
    proof -
      have "index_owner ?v i = Some (VStr (uuid_text E uid''))" using that by (intro own [THEN iffD2]) blast
      then show ?thesis using x(1) o(1) law(2) by simp
    qed
    have "view (w_db w') = ?v" using found by simp
    then show ?thesis using x(4) o(2) uid id uniq by (simp add: Some) blast
  qed
qed

theorem identifier_lookup_exact_witness:
  "fst (user_by_identifier (mem_env (\<lambda>_. 9)) alice_phone (alice_world (\<lambda>_. 9) [])) = Ok (Some alice) \<and>
   (\<forall>uid. owns (mem_env (\<lambda>_. 9)) (map_of (alice_db (\<lambda>_. 9))) uid alice_phone \<longleftrightarrow> uid = 7)"
proof -
  let ?E = "mem_env (\<lambda>_. 9)" and ?w = "alice_world (\<lambda>_. 9) []"
  have r: "fst (user_by_identifier ?E alice_phone ?w) = Ok (Some alice)"
    by (simp add: run_simps user_by_identifier_def user_def alice_db_def alice_mail_def alice_phone_def)
  have "accounts_ok ?E (mem_view (w_db ?w))" using alice_ok by (simp add: mem_world_def mem_view_def)
  from identifier_lookup_exact [OF memory.sabledb_axioms this run_result [OF r]] r show ?thesis
    by (simp add: mem_world_def mem_view_def alice_def)
qed

text \<open>C7: an identifier belongs to one account. Linking an identifier that an account of the realm
  already owns fails, whoever asks, and changes nothing.\<close>

theorem add_identifier_exclusive:
  assumes "sabledb E view" "idle w" "accounts_ok E (view (w_db w))" "owns E (view (w_db w)) owner i"
    and "add_identifier E uid i verified w = (r, w')"
  shows "(\<exists>e. r = Err e) \<and> view (w_db w') = view (w_db w)"
proof -
  let ?v = "view (w_db w)"
  have "index_owner ?v i \<noteq> None" using owns_index [OF assms(3,4)] by simp
  then have "\<not> linked E uid i verified ?v u" for u
    using sabledb.no_owner_iff [OF assms(1,3)] by (auto simp: linked_def)
  then show ?thesis
    using specD [OF sabledb.add_identifier_spec [OF assms(1), of w uid i verified] assms(5)] assms(2)
    by (auto simp: idle_def split: res.splits)
qed

theorem add_identifier_exclusive_witness:
  "\<exists>e. fst (add_identifier (mem_env (\<lambda>_. 9)) 8 alice_mail True (alice_world (\<lambda>_. 9) [])) = Err e"
proof -
  let ?E = "mem_env (\<lambda>_. 9)" and ?w = "alice_world (\<lambda>_. 9) []"
  have "accounts_ok ?E (mem_view (w_db ?w))" "owns ?E (mem_view (w_db ?w)) 7 alice_mail"
    using alice_ok by (simp_all add: mem_world_def mem_view_def owns_def alice_db_def Let_def alice_idents)
  from add_identifier_exclusive [OF memory.sabledb_axioms _ this prod.collapse [symmetric]]
  show ?thesis by (simp add: idle_def mem_world_def)
qed



end
