(* ===== verification/Scan.thy ===== *)
theory Scan
  imports Memory
begin

text \<open>
  Reading the ids of a record family (\<open>Store::record_ids\<close> in \<open>src/src/store.rs\<close>): a \<open>SCAN\<close> loop over
  the keys of a prefix whose suffixes are UUIDs. A \<open>BTreeSet\<close> is the sorted list of its elements.
\<close>

abbreviation MAX_SNAPSHOT_KEYS :: nat where
  "MAX_SNAPSHOT_KEYS \<equiv> 1000000"

text \<open>One batch of the loop.\<close>

fun collect_ids :: "'db env \<Rightarrow> string \<Rightarrow> string list \<Rightarrow> uuid list \<Rightarrow> store_error + uuid list" where
  "collect_ids E pre [] ids = (if length ids > MAX_SNAPSHOT_KEYS
     then Inl (Bail ''RustyAuth record family exceeds the one-million-key safety limit'') else Inr ids)"
| "collect_ids E pre (key # keys) ids = (case strip_prefix pre key of
     None \<Rightarrow> Inl (Bail ''record scan returned an invalid key'')
   | Some s \<Rightarrow> (case uuid_parse E s of
       None \<Rightarrow> Inl (Bail ''stored record key has an invalid id'')
     | Some uid \<Rightarrow> collect_ids E pre keys (insort_insert uid ids)))"

definition record_ids :: "'db env \<Rightarrow> string \<Rightarrow> ('db, uuid list) sm" where
  "record_ids E pre = scan_all E pre 500 (collect_ids E pre) []"

text \<open>The ids a set of keys stands for.\<close>

definition ids_of :: "'db env \<Rightarrow> string \<Rightarrow> string set \<Rightarrow> uuid set" where
  "ids_of E pre ks = {uid. \<exists>s. pre @ s \<in> ks \<and> uuid_parse E s = Some uid}"

definition all_ids :: "'db env \<Rightarrow> string \<Rightarrow> db_view \<Rightarrow> uuid set" where
  "all_ids E pre v = {uid. \<exists>s. v (pre @ s) \<noteq> None \<and> uuid_parse E s = Some uid}"

lemma collect_ids_Inr:
  "collect_ids E pre ks ids = Inr ids' \<Longrightarrow> sorted ids \<Longrightarrow> distinct ids \<Longrightarrow>
     sorted ids' \<and> distinct ids' \<and> set ids' = set ids \<union> ids_of E pre (set ks)"
proof (induction ks arbitrary: ids)
  case Nil
  then show ?case by (auto simp: ids_of_def split: if_splits)
next
  case (Cons k ks)
  then obtain s uid where k: "k = pre @ s" "uuid_parse E s = Some uid"
    and r: "collect_ids E pre ks (insort_insert uid ids) = Inr ids'"
    by (auto simp: strip_prefix_Some split: option.splits)
  have "ids_of E pre (set (k # ks)) = insert uid (ids_of E pre (set ks))"
    using k by (auto simp: ids_of_def)
  then show ?case
    using Cons.IH [OF r] Cons.prems by (simp add: sorted_insort_insert distinct_insort_insert set_insort_insert)
qed

context scanning
begin

lemma record_ids_spec:
  "spec (record_ids E pre)
     (\<lambda>ids w'. keeps w w' \<and> content w' = content w \<and> sorted ids \<and> distinct ids \<and> set ids = all_ids E pre (content w))
     (\<lambda>_ w'. keeps w w' \<and> content w' = content w) w"
proof -
  have "ids_of E pre (keys_of (content w) pre) = all_ids E pre (content w)"
    by (auto simp: ids_of_def keys_of_def all_ids_def)
  then show ?thesis unfolding record_ids_def spec_def
    by (intro wp_scan [where I = "\<lambda>ks ids. sorted ids \<and> distinct ids \<and> set ids = ids_of E pre ks"])
      (auto simp: keeps_def ids_of_def dest!: collect_ids_Inr)
qed

end

declare record_ids_def [run_simps]

end
