(* ===== verification/Invitations.thy ===== *)
theory Invitations
  imports Accounts Scan
begin

text \<open>
  Account invitations (\<open>src/src/store/invitations.rs\<close>) and the registration that may consume one
  (\<open>create_user_with_passkey\<close> in \<open>src/src/store/users/records.rs\<close>). An invitation code is stored only
  as its digest; the digest key leads to the invitation while it is unused.
\<close>

section \<open>Keys and digests\<close>

definition invitation_key :: "'db env \<Rightarrow> uuid \<Rightarrow> string" where
  "invitation_key E uid = ''auth:invitation:'' @ uuid_text E uid"

definition invitation_code_key :: "string \<Rightarrow> string" where
  "invitation_code_key digest = ''auth:invitation-code:'' @ digest"

definition INVITATION_DOMAIN :: string where
  "INVITATION_DOMAIN = ''rustyauth.account-invitation.v1'' @ [CHR 0x00]"

abbreviation invitation_invalid :: store_error where
  "invitation_invalid \<equiv> Bail ''invitation is invalid or already used''"

definition validate_invitation_code :: "string \<Rightarrow> store_error + unit" where
  "validate_invitation_code raw_code =
     (if length raw_code \<noteq> 48 \<or> \<not> starts_with ''rinv_'' raw_code \<or>
         \<not> list_all (\<lambda>b. is_ascii_alphanumeric b \<or> b = CHR ''-'' \<or> b = CHR ''_'') (drop 5 raw_code)
      then Inl invitation_invalid else Inr ())"

definition invitation_digest :: "'db env \<Rightarrow> string \<Rightarrow> string" where
  "invitation_digest E raw_code = sha256_hex E (INVITATION_DOMAIN @ raw_code)"

text \<open>The clock is read only when the identifier matches: \<open>||\<close> is evaluated from the left.\<close>

definition validate_invitation_record ::
  "'db env \<Rightarrow> AccountInvitationRecord \<Rightarrow> IdentifierValue \<Rightarrow> string \<Rightarrow> ('db, unit) sm" where
  "validate_invitation_record E record identifier digest =
     (if inv_identifier record \<noteq> identifier then fail invitation_invalid else
      sbind (now E) (\<lambda>current.
      fail_if (inv_expires_at record \<le> current \<or> inv_consumed_at record \<noteq> None \<or> inv_revoked_at record \<noteq> None \<or>
        inv_code_digest record \<noteq> digest) invitation_invalid))"

section \<open>Operations\<close>

definition create_account_invitation ::
  "'db env \<Rightarrow> IdentifierValue \<Rightarrow> uuid \<Rightarrow> u64 \<Rightarrow> ('db, AccountInvitationRecord \<times> string) sm" where
  "create_account_invitation E identifier created_by lifetime_seconds =
     sbind (lift_result (require_canonical_identifier identifier)) (\<lambda>_.
     sbind (fail_if (\<not> (300 \<le> lifetime_seconds \<and> lifetime_seconds \<le> 604800))
       (Bail ''invitation lifetime must be between five minutes and seven days'')) (\<lambda>_.
     with_snapshot_read (with_mutation (
       sbind (user_by_identifier E identifier) (\<lambda>owner.
       sbind (fail_if (owner \<noteq> None) (Bail ''identifier already has an account'')) (\<lambda>_.
       sbind (random_bytes E 32) (\<lambda>random.
       let raw_code = ''rinv_'' @ b64url E random; digest = invitation_digest E raw_code in
       sbind (now E) (\<lambda>created_at.
       sbind (new_v4 E) (\<lambda>uid.
       let record = \<lparr>inv_id = uid, inv_identifier = identifier, inv_code_digest = digest, inv_created_by = created_by,
             inv_created_at = created_at, inv_expires_at = saturating_add created_at lifetime_seconds,
             inv_consumed_at = None, inv_revoked_at = None\<rparr> in
       sbind (exec_and_log E [SET (invitation_key E uid) (VInvitation record),
           SET (invitation_code_key digest) (VStr (uuid_text E uid))] ''account.invitation.created'' None) (\<lambda>_.
       ret (record, raw_code)))))))))))"

definition account_invitation :: "'db env \<Rightarrow> uuid \<Rightarrow> ('db, AccountInvitationRecord option) sm" where
  "account_invitation E uid = get_json E as_invitation (invitation_key E uid)"

definition account_invitations :: "'db env \<Rightarrow> ('db, AccountInvitationRecord list) sm" where
  "account_invitations E =
     sbind (record_ids E ''auth:invitation:'') (\<lambda>ids.
     sbind (smap (account_invitation E) ids) (\<lambda>records.
     ret (sort_key (\<lambda>r. (inv_created_at r, inv_id r)) (List.map_filter id records))))"

text \<open>The id a code digest leads to.\<close>

definition indexed_invitation :: "'db env \<Rightarrow> string \<Rightarrow> ('db, uuid) sm" where
  "indexed_invitation E digest =
     sbind (get_json E as_str (invitation_code_key digest)) (\<lambda>s.
     sbind (ok_or invitation_invalid s) (\<lambda>s.
     lift_result (parse_uuid E s)))"

definition validate_account_invitation :: "'db env \<Rightarrow> IdentifierValue \<Rightarrow> string \<Rightarrow> ('db, uuid \<times> string) sm" where
  "validate_account_invitation E identifier raw_code =
     sbind (lift_result (require_canonical_identifier identifier)) (\<lambda>_.
     sbind (lift_result (validate_invitation_code raw_code)) (\<lambda>_.
     let digest = invitation_digest E raw_code in
     sbind (indexed_invitation E digest) (\<lambda>uid.
     sbind (account_invitation E uid) (\<lambda>record.
     sbind (ok_or invitation_invalid record) (\<lambda>record.
     sbind (validate_invitation_record E record identifier digest) (\<lambda>_.
     ret (uid, digest)))))))"

definition consume_cmds :: "'db env \<Rightarrow> uuid \<Rightarrow> string \<Rightarrow> AccountInvitationRecord \<Rightarrow> cmd list" where
  "consume_cmds E uid digest record =
     [SET (invitation_key E uid) (VInvitation record), DEL [invitation_code_key digest]]"

definition consume_account_invitation_claim ::
  "'db env \<Rightarrow> IdentifierValue \<Rightarrow> uuid \<Rightarrow> string \<Rightarrow> ('db, AccountInvitationRecord) sm" where
  "consume_account_invitation_claim E identifier uid digest =
     sbind (lift_result (require_canonical_identifier identifier)) (\<lambda>_.
     sbind (fail_if (length digest \<noteq> 64 \<or> \<not> list_all is_ascii_hexdigit digest) invitation_invalid) (\<lambda>_.
     with_snapshot_read (with_mutation (
       sbind (indexed_invitation E digest) (\<lambda>indexed_id.
       sbind (fail_if (indexed_id \<noteq> uid) invitation_invalid) (\<lambda>_.
       sbind (account_invitation E uid) (\<lambda>record.
       sbind (ok_or invitation_invalid record) (\<lambda>record.
       sbind (validate_invitation_record E record identifier digest) (\<lambda>_.
       sbind (now E) (\<lambda>current.
       let record = record\<lparr>inv_consumed_at := Some current\<rparr> in
       sbind (exec_and_log E (consume_cmds E uid digest record) ''account.invitation.consumed'' None) (\<lambda>_.
       ret record)))))))))))"

definition consume_account_invitation :: "'db env \<Rightarrow> IdentifierValue \<Rightarrow> string \<Rightarrow> ('db, AccountInvitationRecord) sm" where
  "consume_account_invitation E identifier raw_code =
     sbind (lift_result (require_canonical_identifier identifier)) (\<lambda>_.
     sbind (lift_result (validate_invitation_code raw_code)) (\<lambda>_.
     let digest = invitation_digest E raw_code in
     sbind (indexed_invitation E digest) (\<lambda>uid.
     consume_account_invitation_claim E identifier uid digest)))"

definition revoke_account_invitation :: "'db env \<Rightarrow> uuid \<Rightarrow> ('db, AccountInvitationRecord) sm" where
  "revoke_account_invitation E uid =
     with_snapshot_read (with_mutation (
       sbind (account_invitation E uid) (\<lambda>record.
       sbind (ok_or (Bail ''invitation is missing'') record) (\<lambda>record.
       sbind (fail_if (inv_consumed_at record \<noteq> None) (Bail ''consumed invitations cannot be revoked'')) (\<lambda>_.
       sbind (if inv_revoked_at record = None
              then sbind (now E) (\<lambda>current. ret (record\<lparr>inv_revoked_at := Some current\<rparr>)) else ret record) (\<lambda>record.
       sbind (exec_and_log E (consume_cmds E uid (inv_code_digest record) record) ''account.invitation.revoked'' None) (\<lambda>_.
       ret record)))))))"

section \<open>Registration\<close>

definition claim_invitation :: "'db env \<Rightarrow> IdentifierValue \<Rightarrow> (uuid \<times> string) option \<Rightarrow>
    ('db, (AccountInvitationRecord \<times> string) option) sm" where
  "claim_invitation E identifier invitation_claim = (case invitation_claim of
     None \<Rightarrow> ret None
   | Some (invitation_id, digest) \<Rightarrow>
       sbind (account_invitation E invitation_id) (\<lambda>invitation.
       sbind (ok_or invitation_invalid invitation) (\<lambda>invitation.
       sbind (indexed_invitation E digest) (\<lambda>indexed_id.
       sbind (fail_if (indexed_id \<noteq> invitation_id) invitation_invalid) (\<lambda>_.
       sbind (validate_invitation_record E invitation identifier digest) (\<lambda>_.
       sbind (now E) (\<lambda>current.
       ret (Some (invitation\<lparr>inv_consumed_at := Some current\<rparr>, digest)))))))))"

definition new_account :: "'db env \<Rightarrow> uuid \<Rightarrow> IdentifierValue \<Rightarrow> AccountProfile \<Rightarrow> passkey \<Rightarrow> bool \<Rightarrow> string \<Rightarrow> u64 \<Rightarrow> u64 \<Rightarrow> User" where
  "new_account E uid identifier profile passkey verified cred created_at passkey_at =
     \<lparr>user_id = uid, user_email = (if iv_kind identifier = Email then iv_value identifier else []),
      user_email_verified = (iv_kind identifier = Email \<and> verified), user_profile = profile,
      user_identifiers = [\<lparr>ai_kind = iv_kind identifier, ai_value = iv_value identifier, ai_verified = verified,
        ai_verified_at = (if verified then Some created_at else None), ai_primary = True, ai_created_at = created_at\<rparr>],
      user_session_version = 1, user_recovery_codes = [], user_created_at = created_at,
      user_passkeys = [\<lparr>pk_id = cred, pk_label = ''Primary passkey'', pk_counter = wa_counter E passkey,
        pk_created_at = passkey_at, pk_last_used_at = None, pk_passkey = passkey\<rparr>]\<rparr>"

definition create_user_cmds :: "'db env \<Rightarrow> uuid \<Rightarrow> IdentifierValue \<Rightarrow> string \<Rightarrow> User \<Rightarrow> cmd list" where
  "create_user_cmds E uid identifier cred u =
     [SET (user_key E uid) (VUser u), SET (identifier_key identifier) (VStr (uuid_text E uid)),
      SET (credential_key cred) (VStr (uuid_text E uid))] @
     (if iv_kind identifier = Email then [SET (email_key (iv_value identifier)) (VStr (uuid_text E uid))] else [])"

definition claim_cmds :: "'db env \<Rightarrow> (AccountInvitationRecord \<times> string) option \<Rightarrow> cmd list" where
  "claim_cmds E invitation = (case invitation of
     None \<Rightarrow> []
   | Some (record, digest) \<Rightarrow> consume_cmds E (inv_id record) digest record)"

definition create_user_events :: "uuid \<Rightarrow> IdentifierValue \<Rightarrow> bool \<Rightarrow> bool \<Rightarrow> event_input list" where
  "create_user_events uid identifier verified invited =
     (''identity.created'', Some uid) #
     (if verified then [] else [(kind_str (iv_kind identifier) @ ''.verification.requested'', Some uid)]) @
     (if invited then [(''account.invitation.consumed'', Some uid)] else [])"

definition create_user_with_passkey :: "'db env \<Rightarrow> uuid \<Rightarrow> IdentifierValue \<Rightarrow> AccountProfile \<Rightarrow> passkey \<Rightarrow> bool \<Rightarrow>
    (uuid \<times> string) option \<Rightarrow> ('db, User) sm" where
  "create_user_with_passkey E uid identifier profile passkey identifier_verified invitation_claim =
     sbind (lift_result (require_canonical_identifier identifier)) (\<lambda>_.
     sbind (lift_result (validate_account_profile profile)) (\<lambda>_.
     with_snapshot_read (with_mutation (
       sbind (user_by_identifier E identifier) (\<lambda>owner.
       sbind (fail_if (owner \<noteq> None) (Policy IdentifierAlreadyExists)) (\<lambda>_.
       let cred = b64url E (wa_cred_id E passkey) in
       sbind (exists_key E (credential_key cred)) (\<lambda>taken.
       sbind (fail_if taken (Policy CredentialAlreadyExists)) (\<lambda>_.
       sbind (claim_invitation E identifier invitation_claim) (\<lambda>invitation.
       sbind (now E) (\<lambda>created_at.
       sbind (now E) (\<lambda>passkey_at.
       let user = new_account E uid identifier profile passkey identifier_verified cred created_at passkey_at in
       sbind (pending_events E (create_user_events uid identifier identifier_verified (invitation \<noteq> None))) (\<lambda>events.
       sbind (db_cmd (sb_exec E (create_user_cmds E uid identifier cred user @ queue_events events @
           claim_cmds E invitation))) (\<lambda>_.
       ret user)))))))))))))"

section \<open>Keys\<close>

lemmas invitation_keys [run_simps] = invitation_key_def invitation_code_key_def

lemma invitation_code_key_inject [simp]: "invitation_code_key d = invitation_code_key d' \<longleftrightarrow> d = d'"
  by (simp add: invitation_keys)

lemma invitation_key_simps [simp]:
  "invitation_key E uid \<noteq> invitation_code_key d" "invitation_code_key d \<noteq> invitation_key E uid"
  "\<not> event_family (invitation_key E uid)" "\<not> event_family (invitation_code_key d)"
  "\<not> account_family (invitation_key E uid)" "\<not> account_family (invitation_code_key d)"
  by (simp_all add: invitation_keys event_family_def account_family_def starts_with_def)

lemma invitation_account_keys [simp]:
  "user_key E uid \<noteq> invitation_key E' uid'" "credential_key c \<noteq> invitation_key E' uid'"
  "email_key e \<noteq> invitation_key E' uid'" "identifier_key i \<noteq> invitation_key E' uid'"
  "user_key E uid \<noteq> invitation_code_key d" "credential_key c \<noteq> invitation_code_key d"
  "email_key e \<noteq> invitation_code_key d" "identifier_key i \<noteq> invitation_code_key d"
  "invitation_key E' uid' \<noteq> user_key E uid" "invitation_key E' uid' \<noteq> credential_key c"
  "invitation_key E' uid' \<noteq> email_key e" "invitation_key E' uid' \<noteq> identifier_key i"
  by (simp_all add: invitation_keys account_keys)

section \<open>Specifications\<close>

text \<open>An invitation a claim may consume: the digest leads to it, and it is for the identifier, has the
  digest and is neither consumed nor revoked.\<close>

definition open_invitation :: "AccountInvitationRecord \<Rightarrow> bool" where
  "open_invitation r \<longleftrightarrow> inv_consumed_at r = None \<and> inv_revoked_at r = None"

definition claimable :: "'db env \<Rightarrow> db_view \<Rightarrow> IdentifierValue \<Rightarrow> uuid \<Rightarrow> string \<Rightarrow> AccountInvitationRecord \<Rightarrow> bool" where
  "claimable E v identifier uid digest r \<longleftrightarrow>
     (\<exists>x s. v (invitation_code_key digest) = Some x \<and> as_str x = Some s \<and> uuid_parse E s = Some uid) \<and>
     v (invitation_key E uid) = Some (VInvitation r) \<and>
     inv_identifier r = identifier \<and> inv_code_digest r = digest \<and> open_invitation r"

text \<open>Claimed no later than its expiry, as the clock read it.\<close>

definition consumed_from :: "'db env \<Rightarrow> AccountInvitationRecord \<Rightarrow> AccountInvitationRecord \<Rightarrow> bool" where
  "consumed_from E r r' \<longleftrightarrow> (\<exists>n t. env_clock E n < inv_expires_at r \<and> r' = r\<lparr>inv_consumed_at := Some t\<rparr>)"

definition revoked_from :: "AccountInvitationRecord \<Rightarrow> AccountInvitationRecord \<Rightarrow> bool" where
  "revoked_from r r' \<longleftrightarrow> inv_consumed_at r = None \<and> (\<exists>t. r' = r\<lparr>inv_revoked_at := Some t\<rparr>)"

lemma revoked_fromI:
  "inv_consumed_at r = None \<Longrightarrow> revoked_from r (r\<lparr>inv_revoked_at := Some t\<rparr>)"
  "inv_consumed_at r = None \<Longrightarrow> inv_revoked_at r = Some t \<Longrightarrow> revoked_from r r"
  by (auto simp: revoked_from_def intro!: exI [of _ t])

definition consumption :: "'db env \<Rightarrow> db_view \<Rightarrow> IdentifierValue \<Rightarrow> uuid \<Rightarrow> string \<Rightarrow> AccountInvitationRecord \<Rightarrow> db_view \<Rightarrow> bool" where
  "consumption E v identifier uid digest r' m \<longleftrightarrow>
     (\<exists>r. claimable E v identifier uid digest r \<and> consumed_from E r r') \<and> m = apply_cmds (consume_cmds E uid digest r') v"

definition revocation :: "'db env \<Rightarrow> db_view \<Rightarrow> uuid \<Rightarrow> AccountInvitationRecord \<Rightarrow> db_view \<Rightarrow> bool" where
  "revocation E v uid r' m \<longleftrightarrow>
     (\<exists>r. v (invitation_key E uid) = Some (VInvitation r) \<and> revoked_from r r') \<and>
     m = apply_cmds (consume_cmds E uid (inv_code_digest r') r') v"

lemma consumptionI:
  "claimable E v identifier uid digest r \<Longrightarrow> \<exists>n. env_clock E n < inv_expires_at r \<Longrightarrow>
   consumption E v identifier uid digest (r\<lparr>inv_consumed_at := Some t\<rparr>)
     (apply_cmds (consume_cmds E uid digest (r\<lparr>inv_consumed_at := Some t\<rparr>)) v)"
  by (auto simp: consumption_def consumed_from_def)

lemma revocationI:
  "v (invitation_key E uid) = Some (VInvitation r) \<Longrightarrow> inv_consumed_at r = None \<Longrightarrow>
   revocation E v uid (r\<lparr>inv_revoked_at := Some t\<rparr>) (apply_cmds (consume_cmds E uid (inv_code_digest r) (r\<lparr>inv_revoked_at := Some t\<rparr>)) v)"
  "v (invitation_key E uid) = Some (VInvitation r) \<Longrightarrow> inv_consumed_at r = None \<Longrightarrow> inv_revoked_at r \<noteq> None \<Longrightarrow>
   revocation E v uid r (apply_cmds (consume_cmds E uid (inv_code_digest r) r) v)"
  by (auto simp: revocation_def intro: revoked_fromI)

lemma off_log_consume [simp]: "off_log (consume_cmds E uid d r)"
  by (simp add: consume_cmds_def)

text \<open>A new invitation: open, for the identifier and the lifetime asked for, reachable by the digest of
  the raw code.\<close>

definition invited :: "'db env \<Rightarrow> db_view \<Rightarrow> IdentifierValue \<Rightarrow> u64 \<Rightarrow> AccountInvitationRecord \<times> string \<Rightarrow> db_view \<Rightarrow> bool" where
  "invited E v identifier lifetime = (\<lambda>(r, raw) m.
     canonical (iv_kind identifier) (iv_value identifier) = Inr identifier \<and> no_owner E v identifier \<and>
     300 \<le> lifetime \<and> lifetime \<le> 604800 \<and> (\<exists>n. inv_id r = env_uuid E n) \<and>
     inv_identifier r = identifier \<and> inv_code_digest r = invitation_digest E raw \<and> open_invitation r \<and>
     inv_expires_at r = saturating_add (inv_created_at r) lifetime \<and>
     m = v(invitation_key E (inv_id r) \<mapsto> VInvitation r, invitation_code_key (inv_code_digest r) \<mapsto> VStr (uuid_text E (inv_id r))))"

definition claimed :: "'db env \<Rightarrow> db_view \<Rightarrow> IdentifierValue \<Rightarrow> (uuid \<times> string) option \<Rightarrow>
    (AccountInvitationRecord \<times> string) option \<Rightarrow> bool" where
  "claimed E v identifier claim invitation = (case claim of
     None \<Rightarrow> invitation = None
   | Some (uid, digest) \<Rightarrow> \<exists>r r'. claimable E v identifier uid digest r \<and> consumed_from E r r' \<and> invitation = Some (r', digest))"

definition registration :: "'db env \<Rightarrow> db_view \<Rightarrow> uuid \<Rightarrow> IdentifierValue \<Rightarrow> AccountProfile \<Rightarrow> passkey \<Rightarrow> bool \<Rightarrow>
    (uuid \<times> string) option \<Rightarrow> User \<Rightarrow> db_view \<Rightarrow> bool" where
  "registration E v uid i p pk ver claim u m \<longleftrightarrow>
     (\<exists>invitation t t'. canonical (iv_kind i) (iv_value i) = Inr i \<and> validate_account_profile p = Inr () \<and> no_owner E v i \<and>
        v (credential_key (b64url E (wa_cred_id E pk))) = None \<and> claimed E v i claim invitation \<and>
        u = new_account E uid i p pk ver (b64url E (wa_cred_id E pk)) t t' \<and>
        m = apply_cmds (create_user_cmds E uid i (b64url E (wa_cred_id E pk)) u @ claim_cmds E invitation) v)"

lemma registrationI:
  assumes "canonical (iv_kind i) (iv_value i) = Inr i" "validate_account_profile p = Inr ()" "no_owner E v i"
    "v (credential_key (b64url E (wa_cred_id E pk))) = None" "claimed E v i claim invitation"
  shows "registration E v uid i p pk ver claim (new_account E uid i p pk ver (b64url E (wa_cred_id E pk)) t t')
     (apply_cmds (claim_cmds E invitation) (apply_cmds (create_user_cmds E uid i (b64url E (wa_cred_id E pk))
        (new_account E uid i p pk ver (b64url E (wa_cred_id E pk)) t t')) v))"
  using assms unfolding registration_def by (intro exI [of _ invitation] exI [of _ t] exI [of _ t']) simp

lemma off_log_create [simp]: "off_log (create_user_cmds E uid i c u)" "off_log (claim_cmds E invitation)"
  by (simp_all add: create_user_cmds_def claim_cmds_def split: option.splits)

context sabledb
begin

lemma invitation_key_inject [simp]: "invitation_key E uid = invitation_key E uid' \<longleftrightarrow> uid = uid'"
  by (simp add: invitation_key_def)

lemma account_invitation_spec:
  "spec (account_invitation E uid)
     (\<lambda>r w'. keeps w w' \<and> content w' = content w \<and>
        (case r of None \<Rightarrow> content w (invitation_key E uid) = None
           | Some r \<Rightarrow> content w (invitation_key E uid) = Some (VInvitation r)))
     (\<lambda>_ w'. keeps w w' \<and> content w' = content w) w"
  unfolding account_invitation_def spec_def by (auto simp: keeps_def intro!: wp_get_json)

lemma indexed_invitation_spec:
  "spec (indexed_invitation E d)
     (\<lambda>uid w'. keeps w w' \<and> content w' = content w \<and>
        (\<exists>x s. content w (invitation_code_key d) = Some x \<and> as_str x = Some s \<and> uuid_parse E s = Some uid))
     (\<lambda>_ w'. keeps w w' \<and> content w' = content w) w"
  unfolding indexed_invitation_def spec_def
  by (auto simp: wp_simps keeps_def parse_uuid_def intro!: wp_get_json split: option.splits)

lemma validate_invitation_record_spec:
  "spec (validate_invitation_record E r identifier d)
     (\<lambda>_ w'. keeps w w' \<and> content w' = content w \<and> inv_identifier r = identifier \<and> inv_code_digest r = d \<and> open_invitation r \<and>
        (\<exists>n. env_clock E n < inv_expires_at r))
     (\<lambda>_ w'. keeps w w' \<and> content w' = content w) w"
  unfolding validate_invitation_record_def spec_def
  by (auto simp: wp_simps keeps_def open_invitation_def not_le)

lemma consume_claim_spec:
  assumes "w_mutation w = Free" "w_writer w = Free"
  shows "spec (consume_account_invitation_claim E identifier uid d)
     (\<lambda>r' w'. keeps w w' \<and>
        did E (consumption E (content w) identifier uid d r') [(''account.invitation.consumed'', None)] (content w) (content w'))
     (\<lambda>_ w'. keeps w w' \<and> may_part E (\<lambda>m. \<exists>r'. consumption E (content w) identifier uid d r' m)
        [(''account.invitation.consumed'', None)] (content w) (content w')) w"
  unfolding consume_account_invitation_claim_def spec_def using assms
  by (auto simp: wp_simps Let_def keeps_def claimable_def split: sum.splits option.splits
      intro!: wp_use [OF indexed_invitation_spec] wp_use [OF account_invitation_spec] wp_use [OF validate_invitation_record_spec]
        wp_exec_and_log_step [where S = "consumption E (content w) identifier uid d"])
     (auto simp: claimable_def intro!: consumptionI)

lemma revoke_invitation_spec:
  assumes "w_mutation w = Free" "w_writer w = Free"
  shows "spec (revoke_account_invitation E uid)
     (\<lambda>r' w'. keeps w w' \<and> did E (revocation E (content w) uid r') [(''account.invitation.revoked'', None)] (content w) (content w'))
     (\<lambda>_ w'. keeps w w' \<and> may_part E (\<lambda>m. \<exists>r'. revocation E (content w) uid r' m)
        [(''account.invitation.revoked'', None)] (content w) (content w')) w"
  unfolding revoke_account_invitation_def spec_def using assms
  by (auto simp: wp_simps Let_def keeps_def split: option.splits
      intro!: wp_use [OF account_invitation_spec] wp_exec_and_log_step [where S = "revocation E (content w) uid"])
     (auto intro!: revocationI)

lemma create_invitation_spec:
  assumes "w_mutation w = Free" "w_writer w = Free"
  shows "spec (create_account_invitation E identifier by_user lifetime)
     (\<lambda>(r, raw) w'. keeps w w' \<and> did E (invited E (content w) identifier lifetime (r, raw)) [(''account.invitation.created'', None)]
        (content w) (content w'))
     (\<lambda>_ w'. keeps w w' \<and> may_part E (\<lambda>m. \<exists>x. invited E (content w) identifier lifetime x m)
        [(''account.invitation.created'', None)] (content w) (content w')) w"
  unfolding create_account_invitation_def spec_def using assms
  by (auto simp: wp_simps Let_def keeps_def require_canonical_Inr split: sum.splits option.splits
      intro!: wp_use [OF user_by_identifier_spec]
        wp_exec_and_log_step [where S = "invited E (content w) identifier lifetime"])
     (assumption, auto simp: invited_def open_invitation_def)

lemma claim_invitation_spec:
  "spec (claim_invitation E identifier claim)
     (\<lambda>invitation w'. keeps w w' \<and> content w' = content w \<and> claimed E (content w) identifier claim invitation)
     (\<lambda>_ w'. keeps w w' \<and> content w' = content w) w"
  unfolding claim_invitation_def spec_def
  by (auto simp: wp_simps claimed_def claimable_def consumed_from_def keeps_def split: option.splits
      intro!: wp_use [OF indexed_invitation_spec] wp_use [OF account_invitation_spec] wp_use [OF validate_invitation_record_spec])
     blast+

lemma create_user_spec:
  fixes claim :: "(uuid \<times> string) option" and uid :: uuid and i :: IdentifierValue and ver :: bool
  assumes "w_mutation w = Free" "w_writer w = Free"
  defines "inputs \<equiv> create_user_events uid i ver (claim \<noteq> None)"
  shows "spec (create_user_with_passkey E uid i p pk ver claim)
     (\<lambda>u w'. keeps w w' \<and> did E (registration E (content w) uid i p pk ver claim u) inputs (content w) (content w'))
     (\<lambda>_ w'. keeps w w' \<and> may E (\<lambda>m. \<exists>u. registration E (content w) uid i p pk ver claim u m) inputs
        (content w) (content w')) w"
  unfolding create_user_with_passkey_def spec_def using assms(1,2)
  by (auto simp: wp_simps Let_def keeps_def require_canonical_Inr split: sum.splits option.splits
      intro!: wp_use [OF user_by_identifier_spec] wp_exists_key wp_use [OF claim_invitation_spec] wp_use [OF pending_spec]
        wp_exec_around_step [where S = "registration E (content w) uid i p pk ver claim" and inputs = inputs])
     (auto simp: inputs_def intro!: registrationI, auto simp: claimed_def split: option.splits)

end

section \<open>Invariants\<close>

text \<open>Invitations carry their own id, and a code digest that is still indexed leads to an open
  invitation with that digest.\<close>

definition invitations_ok :: "'db env \<Rightarrow> db_view \<Rightarrow> bool" where
  "invitations_ok E v \<longleftrightarrow>
     (\<forall>uid x. v (invitation_key E uid) = Some x \<longrightarrow> (\<exists>r. x = VInvitation r \<and> inv_id r = uid)) \<and>
     (\<forall>d x. v (invitation_code_key d) = Some x \<longrightarrow> (\<exists>uid r. x = VStr (uuid_text E uid) \<and>
        v (invitation_key E uid) = Some (VInvitation r) \<and> open_invitation r \<and> inv_code_digest r = d))"

definition invitation_family :: "string \<Rightarrow> bool" where
  "invitation_family k \<longleftrightarrow> starts_with ''auth:invitation'' k"

lemma invitation_family_keys [simp]:
  "invitation_family (invitation_key E uid)" "invitation_family (invitation_code_key d)"
  "\<not> invitation_family (user_key E uid)" "\<not> invitation_family (credential_key c)"
  "\<not> invitation_family (email_key e)" "\<not> invitation_family (identifier_key i)"
  by (simp_all add: invitation_family_def invitation_keys account_keys starts_with_def)

lemma invitation_not_event: "event_family k \<Longrightarrow> \<not> invitation_family k"
  by (auto simp: event_family_def invitation_family_def starts_with_iff)

lemma invitations_okI:
  assumes "\<And>uid x. v (invitation_key E uid) = Some x \<Longrightarrow> \<exists>r. x = VInvitation r \<and> inv_id r = uid"
    and "\<And>d x. v (invitation_code_key d) = Some x \<Longrightarrow> \<exists>uid r. x = VStr (uuid_text E uid) \<and>
        v (invitation_key E uid) = Some (VInvitation r) \<and> open_invitation r \<and> inv_code_digest r = d"
  shows "invitations_ok E v"
  unfolding invitations_ok_def using assms by blast

lemma invitation_idD:
  "invitations_ok E v \<Longrightarrow> v (invitation_key E uid) = Some x \<Longrightarrow> \<exists>r. x = VInvitation r \<and> inv_id r = uid"
  unfolding invitations_ok_def by blast

lemma invitation_codeD:
  "invitations_ok E v \<Longrightarrow> v (invitation_code_key d) = Some x \<Longrightarrow> \<exists>uid r. x = VStr (uuid_text E uid) \<and>
     v (invitation_key E uid) = Some (VInvitation r) \<and> open_invitation r \<and> inv_code_digest r = d"
  unfolding invitations_ok_def by blast

lemma invitations_ok_cong:
  assumes "\<And>k. invitation_family k \<Longrightarrow> v k = v' k"
  shows "invitations_ok E v = invitations_ok E v'"
proof -
  have "v (invitation_key E uid) = v' (invitation_key E uid)" "v (invitation_code_key d) = v' (invitation_code_key d)" for uid d
    by (simp_all add: assms)
  then show ?thesis by (simp add: invitations_ok_def)
qed

lemma logged_invitations: "logged E v m inputs v' \<Longrightarrow> invitations_ok E v' = invitations_ok E m"
  using invitation_not_event by (intro invitations_ok_cong) (auto simp: logged_def committed_def)

text \<open>A consumed or revoked invitation.\<close>

definition spent :: "'db env \<Rightarrow> db_view \<Rightarrow> uuid \<Rightarrow> bool" where
  "spent E v uid \<longleftrightarrow> (\<exists>r. v (invitation_key E uid) = Some (VInvitation r) \<and> \<not> open_invitation r)"

lemma spent_not_claimable: "spent E v uid \<Longrightarrow> \<not> claimable E v i uid d r"
  by (auto simp: spent_def claimable_def)

lemma spent_cong: "v (invitation_key E uid) = v' (invitation_key E uid) \<Longrightarrow> spent E v uid = spent E v' uid"
  by (simp add: spent_def)

lemma did_spent: "did E S inputs v v' \<Longrightarrow> (\<And>m. S m \<Longrightarrow> spent E' m uid) \<Longrightarrow> spent E' v' uid"
  by (auto simp: did_def spent_def dest: logged_other [where k = "invitation_key E' uid"])

context sabledb
begin

lemma close_invitation:
  assumes ok: "invitations_ok E v" and r: "v (invitation_key E uid) = Some (VInvitation r)"
    and r': "inv_id r' = uid" "inv_code_digest r' = inv_code_digest r" "\<not> open_invitation r'"
  shows "invitations_ok E (apply_cmds (consume_cmds E uid (inv_code_digest r) r') v)"
    "spent E (apply_cmds (consume_cmds E uid (inv_code_digest r) r') v) uid"
proof -
  show "invitations_ok E (apply_cmds (consume_cmds E uid (inv_code_digest r) r') v)" (is "invitations_ok E ?m")
  proof (rule invitations_okI)
    fix uid' x assume "?m (invitation_key E uid') = Some x"
    then show "\<exists>r. x = VInvitation r \<and> inv_id r = uid'"
      using r'(1) invitation_idD [OF ok] by (auto simp: consume_cmds_def split: if_splits)
  next
    fix d x assume "?m (invitation_code_key d) = Some x"
    then have d: "d \<noteq> inv_code_digest r" "v (invitation_code_key d) = Some x"
      by (auto simp: consume_cmds_def split: if_splits)
    then obtain uid' r1 where x: "x = VStr (uuid_text E uid')" "v (invitation_key E uid') = Some (VInvitation r1)"
      "open_invitation r1" "inv_code_digest r1 = d" using invitation_codeD [OF ok] by blast
    then have "uid' \<noteq> uid" using r d(1) by auto
    then show "\<exists>uid r. x = VStr (uuid_text E uid) \<and> ?m (invitation_key E uid) = Some (VInvitation r) \<and>
        open_invitation r \<and> inv_code_digest r = d"
      using x by (auto simp: consume_cmds_def intro!: exI [of _ uid'])
  qed
  show "spent E (apply_cmds (consume_cmds E uid (inv_code_digest r) r') v) uid"
    using r'(3) by (simp add: spent_def consume_cmds_def)
qed

lemma consumption_invitations:
  assumes "invitations_ok E v" "consumption E v i uid d r' m"
  shows "invitations_ok E m" "spent E m uid" "accounts_ok E m = accounts_ok E v"
proof -
  obtain r t where r: "v (invitation_key E uid) = Some (VInvitation r)" "inv_code_digest r = d" "r' = r\<lparr>inv_consumed_at := Some t\<rparr>"
    and m: "m = apply_cmds (consume_cmds E uid (inv_code_digest r) r') v"
    using assms(2) by (auto simp: consumption_def claimable_def consumed_from_def)
  have "inv_id r = uid" using invitation_idD [OF assms(1) r(1)] by simp
  then show "invitations_ok E m" "spent E m uid"
    unfolding m using close_invitation [OF assms(1) r(1), of r'] r(3) by (simp_all add: open_invitation_def)
  show "accounts_ok E m = accounts_ok E v" unfolding m by (rule accounts_ok_frame) (auto simp: consume_cmds_def)
qed

lemma revocation_invitations:
  assumes "invitations_ok E v" "revocation E v uid r' m"
  shows "invitations_ok E m" "spent E m uid" "accounts_ok E m = accounts_ok E v"
proof -
  obtain r t where r: "v (invitation_key E uid) = Some (VInvitation r)" "r' = r\<lparr>inv_revoked_at := Some t\<rparr>"
    and m: "m = apply_cmds (consume_cmds E uid (inv_code_digest r) r') v"
    using assms(2) by (auto simp: revocation_def revoked_from_def)
  have "inv_id r = uid" using invitation_idD [OF assms(1) r(1)] by simp
  then show "invitations_ok E m" "spent E m uid"
    unfolding m using close_invitation [OF assms(1) r(1), of r'] r(2) by (simp_all add: open_invitation_def)
  show "accounts_ok E m = accounts_ok E v" unfolding m by (rule accounts_ok_frame) (auto simp: consume_cmds_def)
qed

lemma invited_invitations:
  assumes "invitations_ok E v" "invited E v i lifetime (r, raw) m" "v (invitation_key E (inv_id r)) = None"
  shows "invitations_ok E m" "accounts_ok E m = accounts_ok E v"
proof -
  have m: "m = v(invitation_key E (inv_id r) \<mapsto> VInvitation r, invitation_code_key (inv_code_digest r) \<mapsto> VStr (uuid_text E (inv_id r)))"
    and o: "open_invitation r" using assms(2) by (auto simp: invited_def)
  show "invitations_ok E m"
  proof (rule invitations_okI)
    fix uid x assume "m (invitation_key E uid) = Some x"
    then show "\<exists>r. x = VInvitation r \<and> inv_id r = uid"
      using invitation_idD [OF assms(1)] by (auto simp: m split: if_splits)
  next
    fix d x assume d: "m (invitation_code_key d) = Some x"
    show "\<exists>uid r. x = VStr (uuid_text E uid) \<and> m (invitation_key E uid) = Some (VInvitation r) \<and>
        open_invitation r \<and> inv_code_digest r = d"
    proof (cases "d = inv_code_digest r")
      case True
      then show ?thesis using d o by (auto simp: m intro!: exI [of _ "inv_id r"])
    next
      case False
      then obtain uid' r1 where x: "x = VStr (uuid_text E uid')" "v (invitation_key E uid') = Some (VInvitation r1)"
        "open_invitation r1" "inv_code_digest r1 = d" using d invitation_codeD [OF assms(1), of d x] by (auto simp: m)
      moreover have "uid' \<noteq> inv_id r" using x(2) assms(3) by auto
      ultimately show ?thesis by (auto simp: m intro!: exI [of _ uid'])
    qed
  qed
  show "accounts_ok E m = accounts_ok E v" unfolding m by (rule accounts_ok_cong) (auto simp: fun_upd_def)
qed

lemma new_account_ok:
  assumes "canonical (iv_kind i) (iv_value i) = Inr i" "validate_account_profile p = Inr ()"
  shows "account_ok uid (new_account E uid i p pk ver c t t')" "idents (new_account E uid i p pk ver c t t') = {i}"
    "creds (new_account E uid i p pk ver c t t') = {c}" "user_wf (new_account E uid i p pk ver c t t')"
    "normalize_and_validate (new_account E uid i p pk ver c t t') = Inr (new_account E uid i p pk ver c t t')"
proof -
  let ?u = "new_account E uid i p pk ver c t t'"
  have h: "hydrate ?u = ?u" by (simp add: hydrate_def new_account_def)
  have "user_wf ?u" using canonical_Inr [OF assms(1)] assms printable_displayable
    by (auto simp: user_wf_def new_account_def identifier_ok_def ident_of_def recovery_ok_def)
  then show "user_wf ?u" "account_ok uid ?u" by (simp_all add: account_ok_def h) (simp_all add: new_account_def)
  have "sync_legacy_email ?u = ?u" by (simp add: sync_legacy_email_def new_account_def)
  then show "normalize_and_validate ?u = Inr ?u" using \<open>user_wf ?u\<close> by (simp add: normalize_Inr h)
  show "idents ?u = {i}" "creds ?u = {c}" by (simp_all add: idents_def creds_def h) (simp_all add: new_account_def ident_of_def)
qed

lemma index_owner_create:
  "index_owner (apply_cmds (create_user_cmds E uid i c u) v) j =
     (if j = i then Some (VStr (uuid_text E uid)) else index_owner v j)"
  by (cases i; cases j) (auto simp: create_user_cmds_def index_owner_def split: option.split)

lemma create_user_cmds_other:
  "apply_cmds (create_user_cmds E uid i c u) v (credential_key c') =
     (if c' = c then Some (VStr (uuid_text E uid)) else v (credential_key c'))"
  "apply_cmds (create_user_cmds E uid i c u) v (user_key E uid') = (if uid' = uid then Some (VUser u) else v (user_key E uid'))"
  "\<not> account_family k \<Longrightarrow> apply_cmds (create_user_cmds E uid i c u) v k = v k"
  by (auto simp: create_user_cmds_def)

lemma claim_cmds_other: "\<not> invitation_family k \<Longrightarrow> apply_cmds (claim_cmds E invitation) m k = m k"
  by (cases invitation) (auto simp: claim_cmds_def consume_cmds_def split: prod.splits)

lemma account_not_invitation: "account_family k \<Longrightarrow> \<not> invitation_family k"
  by (auto simp: account_family_def invitation_family_def starts_with_iff)

text \<open>A registration under a fresh account id.\<close>

lemma registration_accounts:
  assumes ok: "accounts_ok E v" "v (user_key E uid) = None" and r: "registration E v uid i p pk ver claim u m"
  shows "accounts_ok E m" "m (user_key E uid) = Some (VUser u)" "stored E m uid u" "owns E m uid i"
    "holds E m uid (b64url E (wa_cred_id E pk))" "user_id u = uid"
proof -
  let ?c = "b64url E (wa_cred_id E pk)"
  obtain invitation t t' where c: "canonical (iv_kind i) (iv_value i) = Inr i" "validate_account_profile p = Inr ()"
    and n: "index_owner v i = None" "v (credential_key ?c) = None"
    and u: "u = new_account E uid i p pk ver ?c t t'"
    and m: "m = apply_cmds (claim_cmds E invitation) (apply_cmds (create_user_cmds E uid i ?c u) v)"
    using r no_owner_iff [OF ok(1)] by (auto simp: registration_def)
  note new = new_account_ok [OF c, of uid pk ver ?c t t', folded u]
  let ?m = "apply_cmds (create_user_cmds E uid i ?c u) v"
  have none: "index_owner v j \<noteq> Some (VStr (uuid_text E uid))" "v (credential_key d) \<noteq> Some (VStr (uuid_text E uid))" for j d
    using ok unfolding accounts_ok_def by (fastforce simp: owns_def holds_def)+
  have a: "accounts_ok E ?m"
    by (rule accounts_ok_update [OF ok(1), of _ uid u], unfold index_owner_create create_user_cmds_other(1,2) new(2,3))
      (use n none new in auto)
  have same: "m k = ?m k" if "account_family k" for k
    unfolding m by (rule claim_cmds_other) (rule account_not_invitation [OF that])
  show "accounts_ok E m" using a accounts_ok_cong [of m ?m E] same by blast
  show k: "m (user_key E uid) = Some (VUser u)" using same [of "user_key E uid"] by (simp add: create_user_cmds_other(2))
  show "stored E m uid u" "owns E m uid i" "holds E m uid ?c" using k new by (simp_all add: stored_def owns_def holds_def)
  show "user_id u = uid" by (simp add: u new_account_def)
qed

lemma registration_invitations:
  assumes "invitations_ok E v" "registration E v uid i p pk ver claim u m"
  shows "invitations_ok E m" "claim = Some (iid, d) \<Longrightarrow> spent E m iid"
proof -
  obtain invitation where cl: "claimed E v i claim invitation"
    and m: "m = apply_cmds (claim_cmds E invitation) (apply_cmds (create_user_cmds E uid i (b64url E (wa_cred_id E pk)) u) v)"
    using assms(2) by (auto simp: registration_def)
  let ?v = "apply_cmds (create_user_cmds E uid i (b64url E (wa_cred_id E pk)) u) v"
  have same: "?v (invitation_key E x) = v (invitation_key E x)" "?v (invitation_code_key d) = v (invitation_code_key d)" for x d
    by (simp_all add: create_user_cmds_other(3))
  have v: "invitations_ok E ?v" using assms(1) unfolding invitations_ok_def same .
  show "invitations_ok E m" "claim = Some (iid, d) \<Longrightarrow> spent E m iid"
  proof (atomize (full), cases claim)
    case None
    then show "invitations_ok E m \<and> (claim = Some (iid, d) \<longrightarrow> spent E m iid)"
      using cl v by (simp add: claimed_def m claim_cmds_def)
  next
    case (Some c)
    then obtain iid' d' r t where c: "claim = Some (iid', d')" and r: "v (invitation_key E iid') = Some (VInvitation r)" "inv_code_digest r = d'"
      and invitation: "invitation = Some (r\<lparr>inv_consumed_at := Some t\<rparr>, d')"
      using cl by (cases c) (auto simp: claimed_def claimable_def consumed_from_def)
    have iid: "inv_id r = iid'" using invitation_idD [OF assms(1) r(1)] by simp
    note close = close_invitation [OF v, of iid' r "r\<lparr>inv_consumed_at := Some t\<rparr>"]
    show "invitations_ok E m \<and> (claim = Some (iid, d) \<longrightarrow> spent E m iid)"
      using close r c iid by (auto simp: m invitation claim_cmds_def same open_invitation_def)
  qed
qed

end

section \<open>Properties\<close>

text \<open>The ways an invitation is used up.\<close>

definition spends :: "'db env \<Rightarrow> uuid \<Rightarrow> 'db world \<Rightarrow> 'db world \<Rightarrow> bool" where
  "spends E iid w w' \<longleftrightarrow>
     (\<exists>i d r. consume_account_invitation_claim E i iid d w = (Ok r, w')) \<or>
     (\<exists>r. revoke_account_invitation E iid w = (Ok r, w')) \<or>
     (\<exists>uid i p pk ver d u. create_user_with_passkey E uid i p pk ver (Some (iid, d)) w = (Ok u, w'))"

context sabledb
begin

lemma spends_spent:
  assumes "idle w" "invitations_ok E (content w)" "spends E iid w w'"
  shows "spent E (content w') iid" "idle w'" "invitations_ok E (content w')"
proof -
  have free: "w_mutation w = Free" "w_writer w = Free" using assms(1) by (simp_all add: idle_def)
  from assms(3)[unfolded spends_def] have "spent E (content w') iid \<and> keeps w w' \<and> invitations_ok E (content w')"
  proof (elim disjE exE)
    fix i d r assume "consume_account_invitation_claim E i iid d w = (Ok r, w')"
    from spec_OkD [OF consume_claim_spec [OF free] this] show ?thesis
      by (auto intro: did_spent did_inv dest: consumption_invitations [OF assms(2)] logged_invitations)
  next
    fix r assume "revoke_account_invitation E iid w = (Ok r, w')"
    from spec_OkD [OF revoke_invitation_spec [OF free] this] show ?thesis
      by (auto intro: did_spent did_inv dest: revocation_invitations [OF assms(2)] logged_invitations)
  next
    fix uid i p pk ver d u assume "create_user_with_passkey E uid i p pk ver (Some (iid, d)) w = (Ok u, w')"
    from spec_OkD [OF create_user_spec [OF free] this] show ?thesis
      by (auto intro: did_spent did_inv dest: registration_invitations [OF assms(2)] logged_invitations)
  qed
  then show "spent E (content w') iid" "idle w'" "invitations_ok E (content w')" using assms(1) keeps_idle by blast+
qed

lemma spent_refused:
  assumes "idle w" "spent E (content w) iid"
  shows "consume_account_invitation_claim E i iid d w = (r, w') \<Longrightarrow> (\<exists>e. r = Err e) \<and> content w' = content w"
    "create_user_with_passkey E uid i p pk ver (Some (iid, d)) w = (r', w') \<Longrightarrow> (\<exists>e. r' = Err e) \<and> content w' = content w"
proof -
  have free: "w_mutation w = Free" "w_writer w = Free" using assms(1) by (simp_all add: idle_def)
  have c: "\<not> consumption E (content w) i iid d x m" "\<not> registration E (content w) uid i p pk ver (Some (iid, d)) u m" for x u m
    using spent_not_claimable [OF assms(2)] by (auto simp: consumption_def registration_def claimed_def)
  show "consume_account_invitation_claim E i iid d w = (r, w') \<Longrightarrow> (\<exists>e. r = Err e) \<and> content w' = content w"
    using specD [OF consume_claim_spec [OF free, of i iid d]] c by (auto simp: did_def may_part_def split: res.splits)
  show "create_user_with_passkey E uid i p pk ver (Some (iid, d)) w = (r', w') \<Longrightarrow> (\<exists>e. r' = Err e) \<and> content w' = content w"
    using specD [OF create_user_spec [OF free, of uid i p pk ver "Some (iid, d)"]] c
    by (auto simp: did_def may_def split: res.splits)
qed

end

text \<open>C9: registration. In a consistent realm and for an account id that is not in use,
  \<open>create_user_with_passkey\<close> either stores an account that is found under its identifier and its
  passkey, together with the use of the invitation it was given, or fails with the database as it
  was or, when only the reply was lost, with that same registration complete. The indexes stay
  exact, no lock stays held and it is never stuck.\<close>

theorem registration_all_or_nothing:
  assumes "sabledb E view" "idle w" "accounts_ok E (view (w_db w))" "invitations_ok E (view (w_db w))"
    and "view (w_db w) (user_key E uid) = None"
    and "create_user_with_passkey E uid i p pk verified claim w = (r, w')"
  shows "idle w' \<and> accounts_ok E (view (w_db w')) \<and> invitations_ok E (view (w_db w')) \<and>
    (let complete = \<lambda>u. stored E (view (w_db w')) uid u \<and> owns E (view (w_db w')) uid i \<and>
         holds E (view (w_db w')) uid (b64url E (wa_cred_id E pk)) \<and>
         (\<forall>iid d. claim = Some (iid, d) \<longrightarrow> spent E (view (w_db w')) iid) in
     case r of
       Ok u \<Rightarrow> complete u
     | Err _ \<Rightarrow> view (w_db w') = view (w_db w) \<or> (\<exists>u. complete u)
     | Stuck \<Rightarrow> False)"
proof -
  let ?v = "view (w_db w)" and ?v' = "view (w_db w')"
  have free: "w_mutation w = Free" "w_writer w = Free" using assms(2) by (simp_all add: idle_def)
  have step: "accounts_ok E ?v' \<and> invitations_ok E ?v' \<and> stored E ?v' uid u \<and> owns E ?v' uid i \<and>
      holds E ?v' uid (b64url E (wa_cred_id E pk)) \<and> (\<forall>iid d. claim = Some (iid, d) \<longrightarrow> spent E ?v' iid)"
    if "registration E ?v uid i p pk verified claim u m" "logged E ?v m inputs ?v'" for u m inputs
  proof -
    note a = sabledb.registration_accounts [OF assms(1,3,5) that(1)]
      and b = sabledb.registration_invitations [OF assms(1,4) that(1)]
    have k: "?v' (user_key E uid) = m (user_key E uid)" "?v' (invitation_key E iid) = m (invitation_key E iid)" for iid
      using logged_other [OF that(2)] by simp_all
    then show ?thesis using a b logged_accounts [OF that(2)] logged_invitations [OF that(2)]
      by (auto simp: stored_def owns_def holds_def spent_def)
  qed
  show ?thesis
    using specD [OF sabledb.create_user_spec [OF assms(1) free] assms(6)] assms(2-4) keeps_idle [of w w'] step
    by (cases r) (auto simp: Let_def did_def may_def)
qed

theorem registration_all_or_nothing_witness:
  "\<exists>u. fst (create_user_with_passkey (mem_env (\<lambda>_. 9)) 8 alice_mail
     \<lparr>given_name = None, family_name = None, display_name = None\<rparr> ''k1'' True None (mem_world [] [])) = Ok u \<and>
   owns (mem_env (\<lambda>_. 9)) (mem_view (w_db (snd (create_user_with_passkey (mem_env (\<lambda>_. 9)) 8 alice_mail
     \<lparr>given_name = None, family_name = None, display_name = None\<rparr> ''k1'' True None (mem_world [] []))))) 8 alice_mail"
proof -
  let ?E = "mem_env (\<lambda>_. 9)" and ?w = "mem_world [] []"
  let ?run = "create_user_with_passkey ?E 8 alice_mail \<lparr>given_name = None, family_name = None, display_name = None\<rparr>
    ''k1'' True None ?w"
  have "\<exists>u. fst ?run = Ok u"
    by (simp add: run_simps create_user_with_passkey_def user_by_identifier_def validate_account_profile_def
        validate_profile_value_def claim_invitation_def create_user_events_def create_user_cmds_def claim_cmds_def)
  then obtain u where r: "fst ?run = Ok u" by blast
  have v: "mem_view (w_db ?w) = Map.empty" by (simp add: mem_world_def mem_view_def)
  have "idle ?w" "accounts_ok ?E (mem_view (w_db ?w))" "invitations_ok ?E (mem_view (w_db ?w))"
    "mem_view (w_db ?w) (user_key ?E 8) = None"
    unfolding v by (simp_all add: mem_world_def idle_def accounts_ok_empty invitations_ok_def)
  from registration_all_or_nothing [OF memory.sabledb_axioms this run_result [OF r]] r show ?thesis by (auto simp: Let_def)
qed


definition invitation_example :: AccountInvitationRecord where
  "invitation_example = \<lparr>inv_id = 5, inv_identifier = alice_mail, inv_code_digest = replicate 64 CHR ''0'', inv_created_by = 1,
     inv_created_at = 1, inv_expires_at = 1000, inv_consumed_at = None, inv_revoked_at = None\<rparr>"


end
