(* ===== verification/Sessions.thy ===== *)
theory Sessions
  imports Accounts
begin

text \<open>
  Browser sessions (\<open>src/src/store/sessions.rs\<close>) and the writer of deferred session activity
  (\<open>spawn_session_touch_writer\<close> in \<open>src/src/store.rs\<close>). A session token is known to the datastore
  only by its digest; the activity timestamp has a key of its own, written behind the request
  by the touch queue. A \<open>BTreeMap\<close> is the list of its entries in key order.
\<close>

section \<open>Keys and session origins\<close>

definition session_token_digest :: "'db env \<Rightarrow> string \<Rightarrow> string" where
  "session_token_digest E token = sha256_hex E token"

definition session_key :: "'db env \<Rightarrow> string \<Rightarrow> string" where
  "session_key E token = ''auth:session:'' @ session_token_digest E token"

definition session_activity_key :: "'db env \<Rightarrow> string \<Rightarrow> string" where
  "session_activity_key E token = ''auth:session-activity:'' @ session_token_digest E token"

fun auth_method :: "SessionOrigin \<Rightarrow> string" where
  "auth_method (PasskeyOrigin _) = ''passkey''"
| "auth_method (DeviceOrigin _) = ''device''"
| "auth_method AgentOrigin = ''agent''"

fun token_prefix :: "SessionOrigin \<Rightarrow> string" where
  "token_prefix (DeviceOrigin _) = ''rdt_''"
| "token_prefix _ = []"

fun origin_credential_id :: "SessionOrigin \<Rightarrow> string option" where
  "origin_credential_id (PasskeyOrigin c) = Some c"
| "origin_credential_id (DeviceOrigin c) = Some c"
| "origin_credential_id AgentOrigin = None"

definition prepare_session :: "'db env \<Rightarrow> User \<Rightarrow> SessionOrigin \<Rightarrow> u64 \<Rightarrow> ('db, string \<times> Session) sm" where
  "prepare_session E u origin absolute_seconds =
     sbind (random_bytes E 32) (\<lambda>random.
     let token = token_prefix origin @ b64url E random in
     sbind (now E) (\<lambda>current.
     sbind (new_v4 E) (\<lambda>sid.
     ret (token, \<lparr>sess_id = sid, sess_user_id = user_id u, sess_auth_method = auth_method origin,
       sess_credential_id = origin_credential_id origin, sess_version = user_session_version u,
       sess_created_at = current,
       sess_step_up_at = (if auth_method origin \<in> {''passkey'', ''device''} then Some current else None),
       sess_last_seen_at = current,
       sess_absolute_expires_at = saturating_add current absolute_seconds\<rparr>))))"

section \<open>The session policy\<close>

datatype SessionVerdict = Valid | AbsoluteExpiry | IdleExpiry | VersionRevoked | CredentialRevoked

abbreviation MAX_SESSION_TOUCH_INTERVAL_SECONDS :: u64 where
  "MAX_SESSION_TOUCH_INTERVAL_SECONDS \<equiv> 300"

abbreviation SESSION_TOUCHES_PER_IDLE_WINDOW :: u64 where
  "SESSION_TOUCHES_PER_IDLE_WINDOW \<equiv> 6"

definition session_expired :: "Session \<Rightarrow> u64 \<Rightarrow> u64 \<Rightarrow> bool" where
  "session_expired s idle_seconds t \<longleftrightarrow>
     sess_absolute_expires_at s \<le> t \<or> saturating_add (sess_last_seen_at s) idle_seconds \<le> t"

definition session_touch_interval :: "u64 \<Rightarrow> u64" where
  "session_touch_interval idle_seconds =
     min MAX_SESSION_TOUCH_INTERVAL_SECONDS (max 1 (idle_seconds div SESSION_TOUCHES_PER_IDLE_WINDOW))"

definition session_touch_due :: "Session \<Rightarrow> u64 \<Rightarrow> u64 \<Rightarrow> bool" where
  "session_touch_due s idle_seconds t \<longleftrightarrow>
     session_touch_interval idle_seconds \<le> saturating_sub t (sess_last_seen_at s)"

definition apply_session_activity :: "Session \<Rightarrow> u64 option \<Rightarrow> u64 \<Rightarrow> Session" where
  "apply_session_activity s activity t = (case activity of
     None \<Rightarrow> s
   | Some a \<Rightarrow> if a \<le> t then s\<lparr>sess_last_seen_at := max (sess_last_seen_at s) a\<rparr> else s)"

definition session_verdict :: "Session \<Rightarrow> u64 \<Rightarrow> string list \<Rightarrow> u64 \<Rightarrow> u64 \<Rightarrow> SessionVerdict" where
  "session_verdict s account_session_version credential_ids idle_seconds t =
     (if sess_absolute_expires_at s \<le> t then AbsoluteExpiry
      else if saturating_add (sess_last_seen_at s) idle_seconds \<le> t then IdleExpiry
      else if sess_version s \<noteq> account_session_version then VersionRevoked
      else case sess_credential_id s of
        Some c \<Rightarrow> if c \<notin> set credential_ids then CredentialRevoked else Valid
      | None \<Rightarrow> Valid)"

section \<open>Operations\<close>

abbreviation MAX_PENDING_SESSION_TOUCHES :: nat where
  "MAX_PENDING_SESSION_TOUCHES \<equiv> 8192"

definition delete_session_records :: "'db env \<Rightarrow> string \<Rightarrow> string \<Rightarrow> ('db, unit) sm" where
  "delete_session_records E key activity_key = db_cmd (sb_pipe E [DEL [key], DEL [activity_key]])"

text \<open>\<open>try_send\<close> on a channel that is full drops the touch.\<close>

definition enqueue_session_touch :: "string \<Rightarrow> u64 \<Rightarrow> u64 \<Rightarrow> ('db, unit) sm" where
  "enqueue_session_touch activity_key observed_at ttl_seconds = (\<lambda>w.
     (Ok (), if length (w_touches w) < MAX_PENDING_SESSION_TOUCHES
        then w\<lparr>w_touches := w_touches w @ [\<lparr>touch_key = activity_key, touch_observed_at = observed_at,
               touch_ttl_seconds = ttl_seconds\<rparr>]\<rparr>
        else w))"

definition create_session :: "'db env \<Rightarrow> User \<Rightarrow> SessionOrigin \<Rightarrow> u64 \<Rightarrow> ('db, string \<times> Session) sm" where
  "create_session E u origin absolute_seconds =
     with_snapshot_read (
       sbind (prepare_session E u origin absolute_seconds) (\<lambda>(token, s).
       sbind (exec_and_log_within E [SETEX (session_key E token) (VSession s) absolute_seconds]
         ''session.created'' (Some (user_id u))) (\<lambda>_.
       ret (token, s))))"

text \<open>The part of \<open>session\<close> after the two records were read and decoded.\<close>

definition session_of :: "'db env \<Rightarrow> string \<Rightarrow> u64 \<Rightarrow> Session \<Rightarrow> u64 option \<Rightarrow> ('db, (Session \<times> User) option) sm" where
  "session_of E token idle_seconds s activity =
     (let key = session_key E token; activity_key = session_activity_key E token in
      sbind (now E) (\<lambda>current.
      let s = apply_session_activity s activity current in
      if session_expired s idle_seconds current
      then sbind (delete_session_records E key activity_key) (\<lambda>_. ret None)
      else sbind (user E (sess_user_id s)) (\<lambda>account. case account of
        None \<Rightarrow> sbind (delete_session_records E key activity_key) (\<lambda>_. ret None)
      | Some u \<Rightarrow>
          if session_verdict s (user_session_version u) (map pk_id (user_passkeys u)) idle_seconds current \<noteq> Valid
          then sbind (delete_session_records E key activity_key) (\<lambda>_. ret None)
          else
            let touch_due = session_touch_due s idle_seconds current;
                s = s\<lparr>sess_last_seen_at := current\<rparr> in
            sbind (if touch_due
                   then enqueue_session_touch activity_key current (sess_absolute_expires_at s - current)
                   else ret ()) (\<lambda>_.
            ret (Some (s, u))))))"

text \<open>One \<open>MGET\<close> reads both records; the activity is converted to a number with the reply, before
  the session document is looked at.\<close>

definition session :: "'db env \<Rightarrow> string \<Rightarrow> u64 \<Rightarrow> ('db, (Session \<times> User) option) sm" where
  "session E token idle_seconds =
     with_snapshot_read (
       if length token < 32 \<or> length token > 256 then ret None else
       sbind (db_cmd (sb_mget E [session_key E token, session_activity_key E token])) (\<lambda>replies.
       sbind (lift_result (decode_opt as_num (replies ! 1))) (\<lambda>activity.
       case replies ! 0 of
         None \<Rightarrow> ret None
       | Some document \<Rightarrow> (case as_session document of
           None \<Rightarrow> fail Decode
         | Some s \<Rightarrow> session_of E token idle_seconds s activity))))"

definition delete_session :: "'db env \<Rightarrow> string \<Rightarrow> ('db, unit) sm" where
  "delete_session E token =
     with_snapshot_read (delete_session_records E (session_key E token) (session_activity_key E token))"

definition stepped_up :: "Session \<Rightarrow> string \<Rightarrow> u64 \<Rightarrow> Session" where
  "stepped_up s credential_id current = s\<lparr>sess_auth_method := ''passkey'', sess_credential_id := Some credential_id,
     sess_step_up_at := Some current, sess_last_seen_at := current\<rparr>"

definition mark_session_step_up :: "'db env \<Rightarrow> string \<Rightarrow> uuid \<Rightarrow> string \<Rightarrow> ('db, Session) sm" where
  "mark_session_step_up E token expected_session_id credential_id =
     with_snapshot_read (with_mutation (
       let key = session_key E token in
       sbind (get_json E as_session key) (\<lambda>found.
       sbind (ok_or (Bail ''session is missing or changed'')
         (case found of Some s \<Rightarrow> if sess_id s = expected_session_id then Some s else None | None \<Rightarrow> None)) (\<lambda>s.
       sbind (now E) (\<lambda>current.
       if sess_absolute_expires_at s \<le> current
       then sbind (delete_key E key) (\<lambda>_. fail (Bail ''session has expired''))
       else
         let s = stepped_up s credential_id current in
         sbind (db_cmd (sb_exec E [SETEX key (VSession s) (sess_absolute_expires_at s - current),
           DEL [session_activity_key E token]])) (\<lambda>_.
         sbind (append_event_within_snapshot E ''session.step_up.completed'' (Some (sess_user_id s))) (\<lambda>_.
         ret s)))))))"

definition revoke_all_sessions :: "'db env \<Rightarrow> uuid \<Rightarrow> ('db, User) sm" where
  "revoke_all_sessions E uid =
     with_snapshot_read (with_mutation (
       sbind (user E uid) (\<lambda>u.
       sbind (ok_or (Bail ''account is missing'') u) (\<lambda>u.
       let u = u\<lparr>user_session_version := saturating_add (user_session_version u) 1\<rparr> in
       sbind (persist_user_with_event E u ''session.revoked_all'') (\<lambda>_.
       ret u)))))"

section \<open>The touch writer\<close>

type_synonym touch_map = "(string \<times> u64 \<times> u64) list"

fun insert_latest_session_touch :: "touch_map \<Rightarrow> SessionTouch \<Rightarrow> touch_map" where
  "insert_latest_session_touch [] t = [(touch_key t, touch_observed_at t, touch_ttl_seconds t)]"
| "insert_latest_session_touch ((k, at, ttl) # touches) t =
     (if touch_key t = k
      then (if touch_observed_at t > at then (k, touch_observed_at t, touch_ttl_seconds t) else (k, at, ttl)) # touches
      else if touch_key t < k
      then (touch_key t, touch_observed_at t, touch_ttl_seconds t) # (k, at, ttl) # touches
      else (k, at, ttl) # insert_latest_session_touch touches t)"

definition session_touch_pipeline :: "touch_map \<Rightarrow> cmd list" where
  "session_touch_pipeline touches = map (\<lambda>(key, observed_at, ttl_seconds). SETEX key (VNum observed_at) ttl_seconds) touches"

text \<open>The inner loop: take what is queued until the batch is full.\<close>

fun drain_touches :: "SessionTouch list \<Rightarrow> touch_map \<Rightarrow> touch_map \<times> SessionTouch list" where
  "drain_touches [] touches = (touches, [])"
| "drain_touches (t # queue) touches =
     (if length touches < MAX_PENDING_SESSION_TOUCHES
      then drain_touches queue (insert_latest_session_touch touches t)
      else (touches, t # queue))"

text \<open>One turn of the writer task, once the queue is not empty; an error is only logged.\<close>

definition session_touch_writer_turn :: "'db env \<Rightarrow> ('db, unit) sm" where
  "session_touch_writer_turn E = (\<lambda>w. case w_touches w of
     [] \<Rightarrow> (Ok (), w)
   | first # queue \<Rightarrow>
       (case drain_touches queue (insert_latest_session_touch [] first) of (touches, rest) \<Rightarrow>
          sbind (attempt (db_cmd (sb_pipe E (session_touch_pipeline touches)))) (\<lambda>_. ret ())
            (w\<lparr>w_touches := rest\<rparr>)))"

section \<open>Keys\<close>

lemmas session_keys [run_simps] = session_key_def session_activity_key_def session_token_digest_def

definition session_family :: "string \<Rightarrow> bool" where
  "session_family k \<longleftrightarrow> starts_with ''auth:session'' k"

lemma session_key_simps [simp]:
  "session_key E t \<noteq> session_activity_key E t'" "session_activity_key E t' \<noteq> session_key E t"
  "session_key E t = session_key E t' \<longleftrightarrow> session_token_digest E t = session_token_digest E t'"
  "session_activity_key E t = session_activity_key E t' \<longleftrightarrow> session_token_digest E t = session_token_digest E t'"
  "session_family (session_key E t)" "session_family (session_activity_key E t)"
  by (simp_all add: session_keys session_family_def starts_with_def)

lemma session_not_event: "session_family k \<Longrightarrow> \<not> event_family k"
  by (auto simp: event_family_def session_family_def starts_with_iff)

lemma session_not_account: "session_family k \<Longrightarrow> \<not> account_family k"
  by (auto simp: account_family_def session_family_def starts_with_iff)

lemma session_key_other [simp]:
  "\<not> event_family (session_key E t)" "\<not> event_family (session_activity_key E t)"
  "\<not> account_family (session_key E t)" "\<not> account_family (session_activity_key E t)"
  "\<not> session_family (user_key E uid)" "\<not> session_family (credential_key c)"
  by (simp_all add: session_keys event_family_def account_family_def session_family_def account_keys starts_with_def)

lemma session_user_key [simp]:
  "session_key E t \<noteq> user_key E' uid" "user_key E' uid \<noteq> session_key E t"
  "session_activity_key E t \<noteq> user_key E' uid" "user_key E' uid \<noteq> session_activity_key E t"
  by (simp_all add: session_keys account_keys)

section \<open>Specifications\<close>

text \<open>What the request handlers hold: the locks as they were, with the touch queue possibly longer.\<close>

definition same_locks :: "'db world \<Rightarrow> 'db world \<Rightarrow> bool" where
  "same_locks w w' \<longleftrightarrow> w_mutation w' = w_mutation w \<and> w_readers w' = w_readers w \<and> w_writer w' = w_writer w"

lemma same_locks_idle: "same_locks w w' \<Longrightarrow> idle w' = idle w"
  by (simp add: same_locks_def idle_def)

lemma keeps_same_locks: "keeps w w' \<Longrightarrow> same_locks w w'"
  by (simp add: keeps_def same_locks_def)

text \<open>The last activity the datastore knows of a session, as a request at time \<open>t\<close> reads it.\<close>

definition last_activity :: "'db env \<Rightarrow> db_view \<Rightarrow> string \<Rightarrow> u64 \<Rightarrow> Session \<Rightarrow> u64" where
  "last_activity E v token t s =
     sess_last_seen_at (apply_session_activity s (Option.bind (v (session_activity_key E token)) as_num) t)"

text \<open>The token authenticates \<open>u\<close> at time \<open>t\<close>: its session is stored, within both lifetimes, of the current
  session version of the account, and made by a passkey the account still has, if by any.\<close>

definition session_live :: "'db env \<Rightarrow> db_view \<Rightarrow> string \<Rightarrow> u64 \<Rightarrow> u64 \<Rightarrow> Session \<Rightarrow> User \<Rightarrow> bool" where
  "session_live E v token idle_seconds t s u \<longleftrightarrow> 32 \<le> length token \<and> length token \<le> 256 \<and>
     (\<exists>s0. v (session_key E token) = Some (VSession s0) \<and> s = s0\<lparr>sess_last_seen_at := t\<rparr> \<and>
        t < sess_absolute_expires_at s0 \<and> t < saturating_add (last_activity E v token t s0) idle_seconds \<and>
        stored E v (sess_user_id s0) u \<and> sess_version s0 = user_session_version u \<and>
        (\<forall>c. sess_credential_id s0 = Some c \<longrightarrow> c \<in> creds u))"

definition reclaimed :: "string set \<Rightarrow> db_view \<Rightarrow> db_view \<Rightarrow> bool" where
  "reclaimed ks v v' \<longleftrightarrow> (\<forall>k. v' k = v k \<or> k \<in> ks \<and> v' k = None)"

abbreviation session_records :: "'db env \<Rightarrow> string \<Rightarrow> string set" where
  "session_records E token \<equiv> {session_key E token, session_activity_key E token}"

lemma reclaimed_refl [simp]: "reclaimed ks v v"
  by (simp add: reclaimed_def)

lemma activity_fields [simp]:
  "sess_user_id (apply_session_activity s a t) = sess_user_id s"
  "sess_version (apply_session_activity s a t) = sess_version s"
  "sess_credential_id (apply_session_activity s a t) = sess_credential_id s"
  "sess_absolute_expires_at (apply_session_activity s a t) = sess_absolute_expires_at s"
  "(apply_session_activity s a t)\<lparr>sess_last_seen_at := t'\<rparr> = s\<lparr>sess_last_seen_at := t'\<rparr>"
  by (simp_all add: apply_session_activity_def split: option.splits)

lemma session_verdict_Valid:
  "session_verdict s ver cs idle_seconds t = Valid \<longleftrightarrow> \<not> session_expired s idle_seconds t \<and> sess_version s = ver \<and>
     (\<forall>c. sess_credential_id s = Some c \<longrightarrow> c \<in> set cs)"
  by (auto simp: session_verdict_def session_expired_def split: option.splits)

definition touched :: "'db env \<Rightarrow> string \<Rightarrow> u64 \<Rightarrow> Session \<Rightarrow> 'db world \<Rightarrow> 'db world \<Rightarrow> bool" where
  "touched E token t s w w' \<longleftrightarrow> w_touches w' = w_touches w \<or>
     w_touches w' = w_touches w @ [\<lparr>touch_key = session_activity_key E token, touch_observed_at = t,
       touch_ttl_seconds = sess_absolute_expires_at s - t\<rparr>]"

lemma wp_enqueue [wp_simps]:
  "wp (enqueue_session_touch k t ttl) Q w =
     Q (Ok ()) (if length (w_touches w) < MAX_PENDING_SESSION_TOUCHES
       then w\<lparr>w_touches := w_touches w @ [\<lparr>touch_key = k, touch_observed_at = t, touch_ttl_seconds = ttl\<rparr>]\<rparr> else w)"
  by (simp add: wp_def enqueue_session_touch_def)

lemma wp_prepare_session:
  "wp (prepare_session E u origin secs) Q w =
     (let t = env_clock E (w_ticks w) in
      Q (Ok (token_prefix origin @ b64url E (env_rand E (w_rands w) 32),
        \<lparr>sess_id = env_uuid E (w_uuids w), sess_user_id = user_id u, sess_auth_method = auth_method origin,
         sess_credential_id = origin_credential_id origin, sess_version = user_session_version u, sess_created_at = t,
         sess_step_up_at = (if auth_method origin \<in> {''passkey'', ''device''} then Some t else None),
         sess_last_seen_at = t, sess_absolute_expires_at = saturating_add t secs\<rparr>))
        (w\<lparr>w_rands := Suc (w_rands w), w_ticks := Suc (w_ticks w), w_uuids := Suc (w_uuids w)\<rparr>))"
  by (simp add: prepare_session_def wp_simps Let_def)

definition next_version :: "User \<Rightarrow> User \<Rightarrow> bool" where
  "next_version u u' \<longleftrightarrow> u' = u\<lparr>user_session_version := saturating_add (user_session_version u) 1\<rparr>"

lemma next_version_keeps: "user_wf u \<Longrightarrow> next_version u u' \<Longrightarrow> keeps_account u u'"
  by (auto simp: keeps_account_def next_version_def user_wf_def)

lemma subseq_pair: "subseq xs [a, b] \<Longrightarrow> xs = [] \<or> xs = [a] \<or> xs = [b] \<or> xs = [a, b]"
  by (cases xs) (auto simp: subseq_singleton_right split: if_splits)

context sabledb
begin

lemma delete_session_records_spec:
  "spec (delete_session_records E k a)
     (\<lambda>_ w'. keeps w w' \<and> content w' = (content w)(k := None, a := None))
     (\<lambda>_ w'. keeps w w' \<and> reclaimed {k, a} (content w) (content w')) w"
proof -
  have "reclaimed {k, a} v (apply_cmds cs v)" if "subseq cs [DEL [k], DEL [a]]" for cs v
    using subseq_pair [OF that] by (auto simp: reclaimed_def split: if_splits)
  then show ?thesis unfolding delete_session_records_def spec_def
    by (intro wp_pipe) (auto simp: keeps_def)
qed

lemma session_live_iff:
  assumes "32 \<le> length token" "length token \<le> 256" "v (session_key E token) = Some (VSession s0)"
    and "decode_opt as_num (v (session_activity_key E token)) = Inr activity"
  shows "session_live E v token idle_seconds t s u \<longleftrightarrow>
     stored E v (sess_user_id s0) u \<and> s = s0\<lparr>sess_last_seen_at := t\<rparr> \<and>
     session_verdict (apply_session_activity s0 activity t) (user_session_version u) (map pk_id (user_passkeys u)) idle_seconds t = Valid"
proof -
  have a: "Option.bind (v (session_activity_key E token)) as_num = activity"
    using assms(4) by (auto simp: decode_opt_def split: option.splits)
  have "last_activity E v token t s0 = sess_last_seen_at (apply_session_activity s0 activity t)"
    by (simp add: last_activity_def a)
  then show ?thesis using assms(1-3)
    by (auto simp: session_live_def session_verdict_Valid session_expired_def not_le creds_def)
qed

lemma stored_unique: "stored E v uid u \<Longrightarrow> stored E v uid u' \<Longrightarrow> u = u'"
  by (auto simp: stored_def)

lemma stored_present: "stored E v uid u \<Longrightarrow> v (user_key E uid) \<noteq> None"
  by (auto simp: stored_def)

lemma wp_session_of:
  fixes w :: "'db world"
  defines "t \<equiv> env_clock E (w_ticks w)"
  assumes none: "\<And>w'. same_locks w w' \<Longrightarrow> w_touches w' = w_touches w \<Longrightarrow>
      reclaimed (session_records E token) (content w) (content w') \<Longrightarrow>
      (\<And>u. stored E (content w) (sess_user_id s) u \<Longrightarrow> session_verdict (apply_session_activity s activity t)
         (user_session_version u) (map pk_id (user_passkeys u)) idle_seconds t \<noteq> Valid) \<Longrightarrow> Q (Ok None) w'"
    and err: "\<And>e w'. same_locks w w' \<Longrightarrow> w_touches w' = w_touches w \<Longrightarrow>
      reclaimed (session_records E token) (content w) (content w') \<Longrightarrow> Q (Err e) w'"
    and some: "\<And>u w'. same_locks w w' \<Longrightarrow> content w' = content w \<Longrightarrow> touched E token t s w w' \<Longrightarrow>
      stored E (content w) (sess_user_id s) u \<Longrightarrow> session_verdict (apply_session_activity s activity t)
         (user_session_version u) (map pk_id (user_passkeys u)) idle_seconds t = Valid \<Longrightarrow>
      Q (Ok (Some (s\<lparr>sess_last_seen_at := t\<rparr>, u))) w'"
  shows "wp (session_of E token idle_seconds s activity) Q w"
proof -
  have dead: "wp (delete_session_records E (session_key E token) (session_activity_key E token))
      (on_ok (\<lambda>x. wp (ret None) Q) (\<lambda>e. Q (Err e)) (Q Stuck)) w1"
    if "keeps w w1" "content w1 = content w"
      "\<And>u. stored E (content w) (sess_user_id s) u \<Longrightarrow> session_verdict (apply_session_activity s activity t)
         (user_session_version u) (map pk_id (user_passkeys u)) idle_seconds t \<noteq> Valid" for w1
  proof (rule wp_use [OF delete_session_records_spec])
    fix x w2 assume h: "keeps w1 w2 \<and> content w2 = (content w1)(session_key E token := None, session_activity_key E token := None)"
    then have "Q (Ok None) w2" using that(1,2)
      by (intro none [OF _ _ _ that(3)]) (simp_all add: keeps_def same_locks_def reclaimed_def)
    then show "on_ok (\<lambda>x. wp (ret None) Q) (\<lambda>e. Q (Err e)) (Q Stuck) (Ok x) w2" by (simp add: wp_ret)
  next
    fix e w2 assume "keeps w1 w2 \<and> reclaimed (session_records E token) (content w1) (content w2)"
    then have "Q (Err e) w2" using that(1,2) by (intro err) (simp_all add: keeps_def same_locks_def)
    then show "on_ok (\<lambda>x. wp (ret None) Q) (\<lambda>e. Q (Err e)) (Q Stuck) (Err e) w2" by simp
  qed
  show ?thesis unfolding session_of_def Let_def
    by (auto simp: wp_simps t_def [symmetric] intro!: dead wp_use [OF user_spec] split: option.splits)
      (auto simp: keeps_def same_locks_def touched_def session_verdict_Valid dest: stored_unique stored_present intro!: err some)
qed

lemma session_spec:
  assumes "w_writer w = Free"
  shows "spec (session E token idle_seconds)
     (\<lambda>r w'. same_locks w w' \<and>
        (\<forall>s u. r = Some (s, u) \<longleftrightarrow> session_live E (content w) token idle_seconds (env_clock E (w_ticks w)) s u) \<and>
        (case r of None \<Rightarrow> reclaimed (session_records E token) (content w) (content w') \<and> w_touches w' = w_touches w
           | Some (s, u) \<Rightarrow> content w' = content w \<and> touched E token (env_clock E (w_ticks w)) s w w'))
     (\<lambda>_ w'. same_locks w w' \<and> w_touches w' = w_touches w \<and> reclaimed (session_records E token) (content w) (content w')) w"
    (is "spec _ ?P ?R w")
proof -
  have dead: "?P None w'" if "same_locks w w'" "w_touches w' = w_touches w"
      "reclaimed (session_records E token) (content w) (content w')"
      "\<And>s u. \<not> session_live E (content w) token idle_seconds (env_clock E (w_ticks w)) s u" for w'
    using that by simp
  have live: "?P (Some (s0\<lparr>sess_last_seen_at := env_clock E (w_ticks w)\<rparr>, u)) w'"
    if "same_locks w w'" "content w' = content w" "touched E token (env_clock E (w_ticks w)) s0 w w'"
      "session_live E (content w) token idle_seconds (env_clock E (w_ticks w)) (s0\<lparr>sess_last_seen_at := env_clock E (w_ticks w)\<rparr>) u" for s0 u w'
    using that by (auto simp: session_live_def touched_def dest: stored_unique)
  note iff = session_live_iff [where v = "content w"]
  show ?thesis unfolding session_def spec_def using assms
    by (auto simp: wp_simps decode_opt_def intro!: wp_mget wp_session_of split: option.splits)
      (auto simp: same_locks_def touched_def reclaimed_def iff decode_opt_def intro!: dead live dest: stored_unique, auto simp: session_live_def)
qed

lemma session_returns_live:
  assumes "w_writer w = Free" "session E token idle_seconds w = (Ok (Some (s, u)), w')"
  shows "session_live E (content w) token idle_seconds (env_clock E (w_ticks w)) s u"
  using spec_OkD [OF session_spec [OF assms(1)] assms(2)] by blast

lemma delete_session_spec:
  assumes "w_writer w = Free"
  shows "spec (delete_session E token)
     (\<lambda>_ w'. keeps w w' \<and> content w' = (content w)(session_key E token := None, session_activity_key E token := None))
     (\<lambda>_ w'. keeps w w' \<and> reclaimed (session_records E token) (content w) (content w')) w"
  unfolding delete_session_def spec_def using assms
  by (auto simp: wp_simps keeps_def intro!: wp_use [OF delete_session_records_spec])

lemma revoke_all_sessions_spec:
  assumes "w_mutation w = Free" "w_writer w = Free"
  shows "spec (revoke_all_sessions E uid)
     (\<lambda>u' w'. keeps w w' \<and> rewritten E uid next_version ''session.revoked_all'' (content w) u' (content w'))
     (\<lambda>_ w'. keeps w w' \<and> maybe_rewritten E uid next_version ''session.revoked_all'' (content w) (content w')) w"
  unfolding revoke_all_sessions_def spec_def using assms
  by (auto simp: wp_simps Let_def keeps_def next_version_def split: option.splits
      intro!: wp_use [OF user_spec] wp_persist_rewrite [where uid = uid and F = next_version]) blast+

end

section \<open>New sessions and step-up\<close>

definition session_from :: "'db env \<Rightarrow> User \<Rightarrow> SessionOrigin \<Rightarrow> u64 \<Rightarrow> Session \<Rightarrow> bool" where
  "session_from E u origin absolute_seconds s \<longleftrightarrow> (\<exists>n t. t = env_clock E n \<and> sess_user_id s = user_id u \<and>
     sess_auth_method s = auth_method origin \<and> sess_credential_id s = origin_credential_id origin \<and>
     sess_version s = user_session_version u \<and> sess_created_at s = t \<and> sess_last_seen_at s = t \<and>
     sess_step_up_at s = (if origin = AgentOrigin then None else Some t) \<and>
     sess_absolute_expires_at s = saturating_add t absolute_seconds)"

lemma wp_prepare_session_from:
  assumes "\<And>s w' n. session_from E u origin secs s \<Longrightarrow> keeps w w' \<Longrightarrow> w_db w' = w_db w \<Longrightarrow>
      Q (Ok (token_prefix origin @ b64url E (env_rand E n 32), s)) w'"
  shows "wp (prepare_session E u origin secs) Q w"
  unfolding wp_prepare_session Let_def
  by (rule assms) (cases origin; auto simp: session_from_def keeps_def)+

definition signed_in :: "'db env \<Rightarrow> db_view \<Rightarrow> User \<Rightarrow> SessionOrigin \<Rightarrow> u64 \<Rightarrow> string \<times> Session \<Rightarrow> db_view \<Rightarrow> bool" where
  "signed_in E v u origin absolute_seconds = (\<lambda>(token, s) m. session_from E u origin absolute_seconds s \<and>
     (\<exists>n. token = token_prefix origin @ b64url E (env_rand E n 32)) \<and> m = v(session_key E token \<mapsto> VSession s))"

text \<open>The sessions of an account are of its current session version or an earlier one.\<close>

definition sessions_ok :: "'db env \<Rightarrow> db_view \<Rightarrow> bool" where
  "sessions_ok E v \<longleftrightarrow> (\<forall>k x. starts_with ''auth:session:'' k \<and> v k = Some x \<longrightarrow> (\<exists>s. x = VSession s \<and>
     (\<forall>u. v (user_key E (sess_user_id s)) = Some (VUser u) \<longrightarrow> sess_version s \<le> user_session_version u)))"

lemma session_key_prefix [simp]: "starts_with ''auth:session:'' (session_key E token)"
  unfolding session_key_def by (rule starts_with_append)

lemma sessions_okD:
  assumes "sessions_ok E v" "v (session_key E token) = Some (VSession s)" "v (user_key E (sess_user_id s)) = Some (VUser u)"
  shows "sess_version s \<le> user_session_version u"
  using assms(1) [unfolded sessions_ok_def, rule_format, OF conjI, OF session_key_prefix assms(2)] assms(3) by auto

text \<open>Replacing an account keeps the invariant when its session version does not go back.\<close>

lemma sessions_ok_account:
  assumes "sessions_ok E v" "\<And>k. starts_with ''auth:session:'' k \<Longrightarrow> m k = v k"
    and "\<And>uid u. m (user_key E uid) = Some (VUser u) \<Longrightarrow> (\<exists>u0. v (user_key E uid) = Some (VUser u0) \<and>
      user_session_version u0 \<le> user_session_version u)"
  shows "sessions_ok E m"
  unfolding sessions_ok_def
proof (intro allI impI, elim conjE)
  fix k x assume k: "starts_with ''auth:session:'' k" "m k = Some x"
  then obtain s where s: "x = VSession s"
    "\<And>u. v (user_key E (sess_user_id s)) = Some (VUser u) \<Longrightarrow> sess_version s \<le> user_session_version u"
    using assms(1,2) unfolding sessions_ok_def by metis
  have "sess_version s \<le> user_session_version u" if "m (user_key E (sess_user_id s)) = Some (VUser u)" for u
    using assms(3) [OF that] s(2) by (meson order_trans)
  then show "\<exists>s. x = VSession s \<and> (\<forall>u. m (user_key E (sess_user_id s)) = Some (VUser u) \<longrightarrow> sess_version s \<le> user_session_version u)"
    using s(1) by blast
qed

lemma sessions_ok_new:
  assumes "sessions_ok E v" "\<And>u. v (user_key E (sess_user_id s)) = Some (VUser u) \<Longrightarrow> sess_version s \<le> user_session_version u"
  shows "sessions_ok E (v(session_key E token \<mapsto> VSession s))"
  using assms unfolding sessions_ok_def by (auto simp: session_keys account_keys)

context sabledb
begin

lemma create_session_spec:
  assumes "w_mutation w = Free" "w_writer w = Free"
  shows "spec (create_session E u origin secs)
     (\<lambda>x w'. keeps w w' \<and> did E (signed_in E (content w) u origin secs x) [(''session.created'', Some (user_id u))] (content w) (content w'))
     (\<lambda>_ w'. keeps w w' \<and> may_part E (\<lambda>m. \<exists>x. signed_in E (content w) u origin secs x m)
        [(''session.created'', Some (user_id u))] (content w) (content w')) w"
  unfolding create_session_def spec_def using assms
  by (auto simp: wp_simps keeps_def intro!: wp_prepare_session_from
      wp_exec_and_log_within_step [where S = "signed_in E (content w) u origin secs"])
     (assumption, auto simp: signed_in_def)

end

section \<open>Deferred activity\<close>

definition touch_keys_ok :: "'db env \<Rightarrow> 'db world \<Rightarrow> bool" where
  "touch_keys_ok E w \<longleftrightarrow> (\<forall>t \<in> set (w_touches w). \<exists>token. touch_key t = session_activity_key E token)"

lemma insert_touch_keys: "fst ` set (insert_latest_session_touch m t) = insert (touch_key t) (fst ` set m)"
  by (induction m t rule: insert_latest_session_touch.induct) (auto simp: insert_commute)

lemma drain_touches_split:
  "drain_touches q m = (m', rest) \<Longrightarrow> \<exists>taken. q = taken @ rest \<and> m' = foldl insert_latest_session_touch m taken \<and>
     (rest \<noteq> [] \<longrightarrow> \<not> length m' < MAX_PENDING_SESSION_TOUCHES)"
proof (induction q arbitrary: m)
  case (Cons t q)
  show ?case
  proof (cases "length m < MAX_PENDING_SESSION_TOUCHES")
    case True
    then obtain taken where "q = taken @ rest" "m' = foldl insert_latest_session_touch (insert_latest_session_touch m t) taken"
      "rest \<noteq> [] \<longrightarrow> \<not> length m' < MAX_PENDING_SESSION_TOUCHES" using Cons.IH Cons.prems by auto
    then show ?thesis by (intro exI [of _ "t # taken"]) simp
  qed (use Cons.prems in auto)
qed simp

lemma batch_keys: "fst ` set (foldl insert_latest_session_touch m ts) = fst ` set m \<union> touch_key ` set ts"
  by (induction ts arbitrary: m) (auto simp: insert_touch_keys)

lemma touch_pipeline_keys: "cmds_keys (session_touch_pipeline m) = fst ` set m"
  by (force simp: cmds_keys_def session_touch_pipeline_def split: prod.splits)

context sabledb
begin

lemma session_touch_writer_turn_spec:
  assumes "touch_keys_ok E w"
  shows "spec (session_touch_writer_turn E)
     (\<lambda>_ w'. same_locks w w' \<and> touch_keys_ok E w' \<and>
        (\<forall>k. (\<forall>token. k \<noteq> session_activity_key E token) \<longrightarrow> content w' k = content w k))
     (\<lambda>_ _. False) w"
proof (cases "w_touches w")
  case Nil
  then show ?thesis using assms by (simp add: spec_def wp_def session_touch_writer_turn_def same_locks_def)
next
  case (Cons first queue)
  obtain m rest where d: "drain_touches queue (insert_latest_session_touch [] first) = (m, rest)" by fastforce
  obtain taken where taken: "queue = taken @ rest" "m = foldl insert_latest_session_touch (insert_latest_session_touch [] first) taken"
    using drain_touches_split [OF d] by blast
  have sub: "fst ` set m \<subseteq> touch_key ` set (w_touches w)"
    unfolding taken(2) batch_keys insert_touch_keys using Cons taken(1) by auto
  have keys: "k \<notin> cmds_keys cs" if "subseq cs (session_touch_pipeline m)" "\<forall>token. k \<noteq> session_activity_key E token" for cs k
  proof
    assume "k \<in> cmds_keys cs"
    then have "k \<in> fst ` set m" using cmds_keys_subseq [OF that(1)] unfolding touch_pipeline_keys by blast
    then have "k \<in> touch_key ` set (w_touches w)" using sub by blast
    then show False using assms that(2) unfolding touch_keys_ok_def by blast
  qed
  have other: "apply_cmds cs v k = v k" if "subseq cs (session_touch_pipeline m)" "\<forall>token. k \<noteq> session_activity_key E token" for cs k v
    by (rule apply_cmds_other) (rule keys [OF that])
  have rest: "touch_keys_ok E (w\<lparr>w_touches := rest, w_db := db\<rparr>)" for db
    using assms Cons taken(1) by (auto simp: touch_keys_ok_def)
  have "spec (sbind (attempt (db_cmd (sb_pipe E (session_touch_pipeline m)))) (\<lambda>_. ret ()))
     (\<lambda>_ w'. same_locks w w' \<and> touch_keys_ok E w' \<and>
        (\<forall>k. (\<forall>token. k \<noteq> session_activity_key E token) \<longrightarrow> content w' k = content w k))
     (\<lambda>_ _. False) (w\<lparr>w_touches := rest\<rparr>)"
    unfolding spec_def
    by (auto simp: wp_simps same_locks_def rest intro!: wp_pipe other)
  then show ?thesis by (simp add: spec_def wp_def session_touch_writer_turn_def Cons d [simplified])
qed

end

context sabledb
begin

text \<open>The writer never brings back a session record.\<close>

lemma touch_turn_absent:
  assumes "idle w \<and> touch_keys_ok E w \<and> content w (session_key E token) = None"
  shows "idle (snd (session_touch_writer_turn E w)) \<and> touch_keys_ok E (snd (session_touch_writer_turn E w)) \<and>
    content (snd (session_touch_writer_turn E w)) (session_key E token) = None"
proof (cases "session_touch_writer_turn E w")
  case (Pair r w')
  have "touch_keys_ok E w" using assms by blast
  from specD [OF session_touch_writer_turn_spec [OF this] Pair] assms same_locks_idle [of w w'] Pair
  show ?thesis by (cases r) simp_all
qed

lemma touch_turns_absent:
  "idle w \<and> touch_keys_ok E w \<and> content w (session_key E token) = None \<Longrightarrow>
   idle (((\<lambda>w. snd (session_touch_writer_turn E w)) ^^ n) w) \<and> touch_keys_ok E (((\<lambda>w. snd (session_touch_writer_turn E w)) ^^ n) w) \<and>
     content (((\<lambda>w. snd (session_touch_writer_turn E w)) ^^ n) w) (session_key E token) = None"
proof (induction n)
  case (Suc n)
  show ?case using touch_turn_absent [OF Suc.IH [OF Suc.prems]] by (simp only: funpow.simps comp_apply)
qed simp

end

lemma saturating_add_one: "n \<noteq> -1 \<Longrightarrow> n < saturating_add n 1" for n :: u64
proof -
  assume "n \<noteq> -1"
  then have "unat n \<noteq> 18446744073709551615"
    using unat_minus_one_word [where 'a = 64] by (auto simp: word_unat_eq_iff)
  then show ?thesis using unat_u64_less [of n] by (simp add: word_less_nat_alt unat_saturating_add)
qed

section \<open>Properties\<close>

text \<open>C11: authentication is exact. When \<open>session\<close> returns, the token authenticates exactly the account it
  should at the time of the request: the answer is the stored session with its account if the session is
  within its absolute and idle lifetimes, of the account's current session version and made by a
  passkey the account still has; otherwise it is none. Only the records of this session can change.\<close>

theorem session_authenticates_exactly:
  assumes "sabledb E view" "idle w" "session E token idle_seconds w = (Ok r, w')"
  shows "(\<forall>s u. r = Some (s, u) \<longleftrightarrow> session_live E (view (w_db w)) token idle_seconds (env_clock E (w_ticks w)) s u) \<and>
    idle w' \<and> (\<forall>k. k \<notin> session_records E token \<longrightarrow> view (w_db w') k = view (w_db w) k)"
  using spec_OkD [OF sabledb.session_spec [OF assms(1)] assms(3)] assms(2) same_locks_idle [of w w']
  by (auto simp: idle_def reclaimed_def split: option.splits)

definition alice_token :: string where
  "alice_token = replicate 43 CHR ''t''"

definition alice_session :: Session where
  "alice_session = \<lparr>sess_id = 50, sess_user_id = 7, sess_auth_method = ''passkey'', sess_credential_id = Some ''k1A'',
     sess_version = 1, sess_created_at = 2, sess_step_up_at = None, sess_last_seen_at = 2, sess_absolute_expires_at = 1000\<rparr>"

definition alice_session_world :: "(nat \<Rightarrow> u64) \<Rightarrow> mem world" where
  "alice_session_world clock = mem_world ((session_key (mem_env clock) alice_token, VSession alice_session) # alice_db clock) []"

lemma alice_session_idle [simp]: "idle (alice_session_world clock)"
  by (simp add: alice_session_world_def mem_world_def idle_def)

theorem session_authenticates_exactly_witness:
  "\<exists>s u. fst (session (mem_env (\<lambda>_. 9)) alice_token 600 (alice_session_world (\<lambda>_. 9))) = Ok (Some (s, u)) \<and>
     session_live (mem_env (\<lambda>_. 9)) (mem_view (w_db (alice_session_world (\<lambda>_. 9)))) alice_token 600 9 s u"
proof -
  let ?E = "mem_env (\<lambda>_. 9)" and ?w = "alice_session_world (\<lambda>_. 9)"
  have "\<exists>s u. fst (session ?E alice_token 600 ?w) = Ok (Some (s, u))"
    by (simp add: run_simps session_def session_of_def alice_session_world_def alice_session_def alice_token_def
        session_expired_def apply_session_activity_def alice_db_def user_def session_touch_due_def saturating_add_def
        session_verdict_def enqueue_session_touch_def)
      (simp add: alice_def)
  then obtain s u where r: "fst (session ?E alice_token 600 ?w) = Ok (Some (s, u))" by blast
  have "env_clock ?E (w_ticks ?w) = 9" by (simp add: mem_env_sel)
  then show ?thesis
    using session_authenticates_exactly [OF memory.sabledb_axioms alice_session_idle run_result [OF r]] r by auto
qed

text \<open>C12: signing out is final. Once \<open>delete_session\<close> returned, the token authenticates nobody, however many
  batches of deferred activity the touch writer still writes.\<close>

theorem sign_out_final:
  assumes "sabledb E view" "idle w" "touch_keys_ok E w" "delete_session E token w = (Ok x, w1)"
    and "w2 = ((\<lambda>w. snd (session_touch_writer_turn E w)) ^^ n) w1" "session E token idle_seconds w2 = (Ok r, w3)"
  shows "r = None"
proof -
  have w1: "idle w1" "touch_keys_ok E w1" "view (w_db w1) (session_key E token) = None"
    using spec_OkD [OF sabledb.delete_session_spec [OF assms(1)] assms(4)] assms(2,3) keeps_idle [of w w1]
    by (auto simp: idle_def keeps_def touch_keys_ok_def)
  have "idle w2 \<and> touch_keys_ok E w2 \<and> view (w_db w2) (session_key E token) = None"
    unfolding assms(5) by (rule sabledb.touch_turns_absent [OF assms(1)]) (use w1 in blast)
  then have "w_writer w2 = Free" "view (w_db w2) (session_key E token) = None" by (simp_all add: idle_def)
  then show ?thesis using sabledb.session_returns_live [OF assms(1), of w2 token idle_seconds] assms(6)
    by (cases r) (auto simp: session_live_def)
qed

theorem sign_out_final_witness:
  "let E = mem_env (\<lambda>_. 9);
       w = (mem_world [(session_key E alice_token, VSession alice_session)] [])\<lparr>w_touches :=
         [\<lparr>touch_key = session_activity_key E alice_token, touch_observed_at = 8, touch_ttl_seconds = 600\<rparr>]\<rparr>;
       w1 = snd (delete_session E alice_token w); w2 = snd (session_touch_writer_turn E w1) in
   fst (delete_session E alice_token w) = Ok () \<and> fst (session E alice_token 600 w2) = Ok None"
proof -
  let ?E = "mem_env (\<lambda>_. 9)"
  let ?w = "(mem_world [(session_key ?E alice_token, VSession alice_session)] [])\<lparr>w_touches :=
         [\<lparr>touch_key = session_activity_key ?E alice_token, touch_observed_at = 8, touch_ttl_seconds = 600\<rparr>]\<rparr>"
  let ?w1 = "snd (delete_session ?E alice_token ?w)"
  let ?w2 = "snd (session_touch_writer_turn ?E ?w1)"
  have d: "fst (delete_session ?E alice_token ?w) = Ok ()"
    by (simp add: run_simps delete_session_def delete_session_records_def del: session_keys)
  have "\<exists>r. fst (session ?E alice_token 600 ?w2) = Ok r"
    by (simp add: run_simps session_def delete_session_def delete_session_records_def alice_token_def
        session_touch_writer_turn_def session_touch_pipeline_def del: session_keys)
  then obtain r where r: "fst (session ?E alice_token 600 ?w2) = Ok r" by blast
  have turn: "?w2 = ((\<lambda>w. snd (session_touch_writer_turn ?E w)) ^^ 1) ?w1"
    by (simp only: One_nat_def funpow.simps comp_def id_apply)
  have "idle ?w" "touch_keys_ok ?E ?w" by (auto simp: mem_world_def idle_def touch_keys_ok_def)
  then have "r = None"
    by (rule sign_out_final [OF memory.sabledb_axioms _ _ run_result [OF d] turn run_result [OF r]])
  then show ?thesis unfolding Let_def using d r by blast
qed

context sabledb
begin

text \<open>No session of an account outlives an increase of its session version.\<close>

lemma outdated_sessions_dead:
  assumes "accounts_ok E v" "sessions_ok E v" "stored E v uid u"
    and "v1 (user_key E uid) = Some (VUser u')" "user_session_version u < user_session_version u'"
    and "v1 (session_key E token) = v (session_key E token)" "session_live E v1 token idle_seconds t s u2"
  shows "sess_user_id s \<noteq> uid"
proof
  assume uid: "sess_user_id s = uid"
  obtain x where x: "v (user_key E uid) = Some (VUser x)" "u = sync_legacy_email (hydrate x)" using stored_ok [OF assms(1,3)] by blast
  obtain s0 where live: "v (session_key E token) = Some (VSession s0)" "s = s0\<lparr>sess_last_seen_at := t\<rparr>"
    "stored E v1 (sess_user_id s0) u2" "sess_version s0 = user_session_version u2"
    using assms(6,7) by (auto simp: session_live_def)
  have "sess_user_id s0 = uid" using uid live(2) by simp
  then have "user_session_version u2 = user_session_version u'" "sess_version s0 \<le> user_session_version u"
    using live assms(4) x sessions_okD [OF assms(2) live(1)] by (auto simp: stored_def normalize_Inr)
  then show False using live(4) assms(5) by simp
qed

end

text \<open>C13: signing out everywhere. After \<open>revoke_all_sessions\<close> succeeded for an account whose session version
  can still grow, no session of that account authenticates.\<close>

theorem revoke_all_sessions_final:
  assumes "sabledb E view" "idle w" "accounts_ok E (view (w_db w))" "sessions_ok E (view (w_db w))"
    and "stored E (view (w_db w)) uid u" "user_session_version u \<noteq> -1"
    and "revoke_all_sessions E uid w = (Ok u', w1)" "session E token idle_seconds w1 = (Ok (Some (s, u2)), w2)"
  shows "sess_user_id s \<noteq> uid"
proof -
  let ?v = "view (w_db w)" and ?v1 = "view (w_db w1)"
  have free: "w_mutation w = Free" "w_writer w = Free" using assms(2) by (simp_all add: idle_def)
  have r: "keeps w w1" "rewritten E uid next_version ''session.revoked_all'' ?v u' ?v1"
    using spec_OkD [OF sabledb.revoke_all_sessions_spec [OF assms(1) free] assms(7)] by auto
  obtain u0 where u0: "stored E ?v uid u0" "next_version u0 u'"
    "logged E ?v (?v(user_key E (user_id u') \<mapsto> VUser u')) [(''session.revoked_all'', Some (user_id u'))] ?v1"
    using r(2) by (auto simp: rewritten_def)
  have u: "u0 = u" using sabledb.stored_unique [OF assms(1) u0(1) assms(5)] .
  obtain x where x: "user_id u = uid" using sabledb.stored_ok [OF assms(1,3,5)] by blast
  have u': "user_id u' = uid" "user_session_version u < user_session_version u'"
    using u0(2) x saturating_add_one [OF assms(6)] unfolding u next_version_def by auto
  have k: "?v1 (user_key E uid) = Some (VUser u')" "?v1 (session_key E token) = ?v (session_key E token)"
    using logged_other [OF u0(3)] u'(1) by simp_all
  have "session_live E ?v1 token idle_seconds (env_clock E (w_ticks w1)) s u2"
    using sabledb.session_returns_live [OF assms(1) _ assms(8)] r(1) free by (simp add: keeps_def)
  then show ?thesis using sabledb.outdated_sessions_dead [OF assms(1,3-5) k(1) u'(2) k(2)] by blast
qed

lemma alice_session_view:
  "mem_view (w_db (alice_session_world clock)) = (map_of (alice_db clock))(session_key (mem_env clock) alice_token \<mapsto> VSession alice_session)"
  by (simp add: alice_session_world_def mem_world_def mem_view_def)

lemma alice_session_ok:
  "accounts_ok (mem_env clock) (mem_view (w_db (alice_session_world clock)))"
  "sessions_ok (mem_env clock) (mem_view (w_db (alice_session_world clock)))"
  "stored (mem_env clock) (mem_view (w_db (alice_session_world clock))) 7 alice"
proof -
  let ?v = "mem_view (w_db (alice_session_world clock))"
  have "accounts_ok (mem_env clock) ?v = accounts_ok (mem_env clock) (map_of (alice_db clock))"
    unfolding alice_session_view by (rule accounts_ok_cong) auto
  then show "accounts_ok (mem_env clock) ?v" using alice_ok by simp
  have "sessions_ok (mem_env clock) (map_of (alice_db clock))"
    by (auto simp: sessions_ok_def alice_db_def Let_def account_keys starts_with_def)
  then show "sessions_ok (mem_env clock) ?v" unfolding alice_session_view
    by (rule sessions_ok_new) (auto simp: alice_db_def Let_def alice_session_def alice_def)
  show "stored (mem_env clock) ?v 7 alice"
    unfolding alice_session_view using alice_norm by (auto simp: stored_def alice_db_def Let_def)
qed

theorem revoke_all_sessions_final_witness:
  "let E = mem_env (\<lambda>_. 9); w = alice_session_world (\<lambda>_. 9); w1 = snd (revoke_all_sessions E 7 w) in
   (\<exists>u. fst (revoke_all_sessions E 7 w) = Ok u) \<and> (\<forall>s u2. fst (session E alice_token 600 w1) = Ok (Some (s, u2)) \<longrightarrow> sess_user_id s \<noteq> 7)"
proof -
  let ?E = "mem_env (\<lambda>_. 9)" and ?w = "alice_session_world (\<lambda>_. 9)"
  have "\<exists>u. fst (revoke_all_sessions ?E 7 ?w) = Ok u"
    by (simp add: run_simps revoke_all_sessions_def user_def persist_user_with_event_def alice_session_world_def alice_db_def)
  then obtain u' where r: "fst (revoke_all_sessions ?E 7 ?w) = Ok u'" by blast
  have n: "user_session_version alice \<noteq> -1" by (simp add: alice_def)
  show ?thesis unfolding Let_def
    using r revoke_all_sessions_final [OF memory.sabledb_axioms alice_session_idle alice_session_ok n run_result [OF r] run_result]
    by blast
qed

text \<open>C14: step-up never returns a session. \<open>mark_session_step_up\<close> appends its event through a helper that
  takes the mutation lock the function already holds: it fails, or it rewrites the session and then
  waits for itself for ever, and every later operation that takes the mutation lock waits with it.\<close>

theorem step_up_deadlocks:
  assumes "sabledb E view" "idle w" "mark_session_step_up E token sid c w = (r, w')"
  shows "(\<forall>s. r \<noteq> Ok s) \<and>
    (r = Stuck \<longrightarrow> (\<exists>s. view (w_db w') (session_key E token) = Some (VSession s) \<and> sess_step_up_at s \<noteq> None \<and>
        sess_credential_id s = Some c) \<and> w_mutation w' = Held \<and> fst (revoke_all_sessions E uid w') = Stuck)"
proof -
  have "wp (mark_session_step_up E token sid c) (\<lambda>r w'. (\<forall>s. r \<noteq> Ok s) \<and> (r = Stuck \<longrightarrow>
      (\<exists>s. view (w_db w') (session_key E token) = Some (VSession s) \<and> sess_step_up_at s \<noteq> None \<and>
        sess_credential_id s = Some c) \<and> w_mutation w' = Held \<and> w_writer w' = Free)) w"
    unfolding mark_session_step_up_def append_event_within_snapshot_def delete_key_def using assms(2)
    by (auto simp: wp_simps Let_def idle_def stepped_up_def intro!: sabledb.wp_get_json [OF assms(1)] sabledb.wp_exec [OF assms(1)]
        split: option.splits)
  from wpD [OF assms(3) this] show ?thesis
    by (auto simp: revoke_all_sessions_def with_snapshot_read_def with_mutation_def)
qed

theorem step_up_deadlocks_witness:
  "fst (mark_session_step_up (mem_env (\<lambda>_. 9)) alice_token 50 ''k1A'' (alice_session_world (\<lambda>_. 9))) = Stuck \<and>
   fst (revoke_all_sessions (mem_env (\<lambda>_. 9)) 7
     (snd (mark_session_step_up (mem_env (\<lambda>_. 9)) alice_token 50 ''k1A'' (alice_session_world (\<lambda>_. 9))))) = Stuck"
proof -
  let ?E = "mem_env (\<lambda>_. 9)" and ?w = "alice_session_world (\<lambda>_. 9)"
  have r: "fst (mark_session_step_up ?E alice_token 50 ''k1A'' ?w) = Stuck"
    by (simp add: run_simps mark_session_step_up_def alice_session_world_def alice_session_def append_event_within_snapshot_def
        stepped_up_def del: session_keys)
  show ?thesis using r step_up_deadlocks [OF memory.sabledb_axioms alice_session_idle run_result [OF r]] by blast
qed

text \<open>What the batch holds for a key, after the touches \<open>ts\<close>.\<close>

definition batch_entry :: "SessionTouch list \<Rightarrow> string \<Rightarrow> (u64 \<times> u64) option \<Rightarrow> bool" where
  "batch_entry ts k e = (case e of
     None \<Rightarrow> k \<notin> touch_key ` set ts
   | Some (at, ttl) \<Rightarrow> (\<exists>t \<in> set ts. touch_key t = k \<and> touch_observed_at t = at \<and> touch_ttl_seconds t = ttl) \<and>
       (\<forall>t \<in> set ts. touch_key t = k \<longrightarrow> touch_observed_at t \<le> at))"

lemma insert_touch_map:
  assumes "sorted_wrt (<) (map fst m)"
  shows "map_of (insert_latest_session_touch m t) = (map_of m)(touch_key t := Some (case map_of m (touch_key t) of
     None \<Rightarrow> (touch_observed_at t, touch_ttl_seconds t)
   | Some (at, ttl) \<Rightarrow> if touch_observed_at t > at then (touch_observed_at t, touch_ttl_seconds t) else (at, ttl)))"
    "sorted_wrt (<) (map fst (insert_latest_session_touch m t))"
proof -
  have none: "map_of m' k = None" if "sorted_wrt (<) (map fst m')" "\<forall>x \<in> set m'. k < fst x" for m' :: touch_map and k
    using that by (auto simp: map_of_eq_None_iff)
  show "map_of (insert_latest_session_touch m t) = (map_of m)(touch_key t := Some (case map_of m (touch_key t) of
     None \<Rightarrow> (touch_observed_at t, touch_ttl_seconds t)
   | Some (at, ttl) \<Rightarrow> if touch_observed_at t > at then (touch_observed_at t, touch_ttl_seconds t) else (at, ttl)))"
    using assms
  proof (induction m t rule: insert_latest_session_touch.induct)
    case (2 k at ttl touches t)
    show ?case
    proof (cases "touch_key t < k")
      case True
      then have "map_of touches (touch_key t) = None" using 2(2) by (intro none) fastforce+
      then show ?thesis using True by (auto simp: fun_eq_iff)
    qed (use 2 in \<open>auto simp: fun_eq_iff\<close>)
  qed simp
  show "sorted_wrt (<) (map fst (insert_latest_session_touch m t))"
    using assms
  proof (induction m t rule: insert_latest_session_touch.induct)
    case (2 k at ttl touches t)
    have "set (map fst (insert_latest_session_touch touches t)) = insert (touch_key t) (set (map fst touches))"
      by (simp add: insert_touch_keys)
    then show ?case using 2 by (auto simp: neq_iff)
  qed simp
qed

lemma batch_foldl:
  "sorted_wrt (<) (map fst (foldl insert_latest_session_touch [] ts)) \<and>
   batch_entry ts k (map_of (foldl insert_latest_session_touch [] ts) k)"
proof (induction ts rule: rev_induct)
  case (snoc t ts)
  let ?m = "foldl insert_latest_session_touch [] ts"
  note m = insert_touch_map [of ?m t]
  show ?case
  proof (cases "k = touch_key t")
    case True
    show ?thesis
    proof (cases "map_of ?m (touch_key t)")
      case None
      then have "k \<notin> touch_key ` set ts" using snoc True by (simp add: batch_entry_def)
      then have "\<forall>u \<in> set ts. touch_key u \<noteq> k" by blast
      then show ?thesis using m snoc True None by (auto simp: batch_entry_def)
    next
      case (Some e)
      obtain at ttl where e: "e = (at, ttl)" by (cases e)
      have old: "\<exists>u \<in> set ts. touch_key u = k \<and> touch_observed_at u = at \<and> touch_ttl_seconds u = ttl"
        "\<forall>u \<in> set ts. touch_key u = k \<longrightarrow> touch_observed_at u \<le> at"
        using snoc Some unfolding e True by (auto simp: batch_entry_def)
      have "\<forall>u \<in> set ts. touch_key u = k \<longrightarrow> touch_observed_at u \<le> touch_observed_at t" if "at < touch_observed_at t"
        using old(2) that by (meson order.strict_implies_order order_trans)
      then show ?thesis using m snoc True Some e old by (auto simp: batch_entry_def not_less)
    qed
  next
    case False
    then show ?thesis using m snoc by (auto simp: batch_entry_def split: option.splits)
  qed
qed (simp add: batch_entry_def)

text \<open>C15: a batch of deferred activity. The writer takes the queue from the front until the queue is empty
  or the batch is full; the batch lists each key once, in key order, with the latest time that was
  observed for it, which one of its touches reported.\<close>

theorem session_touch_batch_latest:
  assumes "drain_touches queue [] = (m, rest)"
  shows "\<exists>taken. queue = taken @ rest \<and> (rest = [] \<or> MAX_PENDING_SESSION_TOUCHES \<le> length m) \<and>
    sorted_wrt (<) (map fst m) \<and> (\<forall>k. batch_entry taken k (map_of m k))"
proof -
  obtain taken where t: "queue = taken @ rest" "m = foldl insert_latest_session_touch [] taken"
    "rest \<noteq> [] \<longrightarrow> \<not> length m < MAX_PENDING_SESSION_TOUCHES" using drain_touches_split [OF assms] by blast
  have "rest = [] \<or> MAX_PENDING_SESSION_TOUCHES \<le> length m" using t(3) by linarith
  then show ?thesis using t(1) batch_foldl [of taken] unfolding t(2) by blast
qed

definition touch_at :: "string \<Rightarrow> u64 \<Rightarrow> SessionTouch" where
  "touch_at k n = \<lparr>touch_key = k, touch_observed_at = n, touch_ttl_seconds = 60\<rparr>"

theorem session_touch_batch_latest_witness:
  "let ts = [touch_at ''b'' 3, touch_at ''a'' 5, touch_at ''b'' 9, touch_at ''b'' 4] in
   drain_touches ts [] = ([(''a'', 5, 60), (''b'', 9, 60)], []) \<and> batch_entry ts ''b'' (Some (9, 60))"
proof -
  let ?ts = "[touch_at ''b'' 3, touch_at ''a'' 5, touch_at ''b'' 9, touch_at ''b'' 4]"
  have d: "drain_touches ?ts [] = ([(''a'', 5, 60), (''b'', 9, 60)], [])" by (simp add: touch_at_def less_char_def)
  from session_touch_batch_latest [OF d] show ?thesis unfolding Let_def d by (auto dest!: spec [of _ "''b''"])
qed

text \<open>C16: how far the stored activity may trail. While no touch is due, the stored last activity is less than
  the touch interval old: less than a sixth of the idle window, or one second for short windows, and
  always less than five minutes. An idle session ends at most that much early.\<close>

theorem session_touch_lag:
  assumes "\<not> session_touch_due s idle_seconds t"
  shows "unat t < unat (sess_last_seen_at s) + max 1 (unat idle_seconds div 6) \<and> unat t < unat (sess_last_seen_at s) + 300 \<and>
    unat (saturating_add t idle_seconds) < unat (saturating_add (sess_last_seen_at s) idle_seconds) + 300"
proof -
  have i: "unat (session_touch_interval idle_seconds) = min 300 (max 1 (unat idle_seconds div 6))"
    by (simp add: session_touch_interval_def min_def max_def word_le_nat_alt unat_div_distrib)
  have "unat t - unat (sess_last_seen_at s) < unat (session_touch_interval idle_seconds)"
    using assms by (simp add: session_touch_due_def word_le_nat_alt unat_saturating_sub not_le)
  then have a: "unat t < unat (sess_last_seen_at s) + min 300 (max 1 (unat idle_seconds div 6))" unfolding i by linarith
  have "unat t < unat (sess_last_seen_at s) + max 1 (unat idle_seconds div 6)" "unat t < unat (sess_last_seen_at s) + 300"
    using a by linarith+
  moreover have "unat (saturating_add t idle_seconds) < unat (saturating_add (sess_last_seen_at s) idle_seconds) + 300"
    using a unfolding unat_saturating_add by (simp add: min_def split: if_splits)
  ultimately show ?thesis by blast
qed

theorem session_touch_lag_witness:
  "\<not> session_touch_due alice_session 600 60 \<and> unat (60 :: u64) < unat (sess_last_seen_at alice_session) + max 1 (unat (600 :: u64) div 6)"
proof -
  have "\<not> session_touch_due alice_session 600 60"
    by (simp add: session_touch_due_def session_touch_interval_def alice_session_def saturating_sub_def)
  then show ?thesis using session_touch_lag by blast
qed

end
