(* ===== verification/Credentials.thy ===== *)
theory Credentials
  imports Sessions
begin

text \<open>
  Passkeys of an account (\<open>src/src/store/credentials.rs\<close>): applying a WebAuthn authentication result
  with the clone check on the sign counter, signing in, and adding, renaming and revoking passkeys
  together with the credential index.
\<close>

section \<open>Operations\<close>

definition counter_regressed :: "u32 \<Rightarrow> u32 \<Rightarrow> bool" where
  "counter_regressed stored_counter next_counter \<longleftrightarrow> next_counter > 0 \<and> stored_counter > 0 \<and> next_counter \<le> stored_counter"

definition credential_id :: "'db env \<Rightarrow> passkey \<Rightarrow> string" where
  "credential_id E passkey = b64url E (wa_cred_id E passkey)"

definition result_credential_id :: "'db env \<Rightarrow> auth_result \<Rightarrow> string" where
  "result_credential_id E result = b64url E (ar_cred_id E result)"

definition apply_authentication_result :: "'db env \<Rightarrow> User \<Rightarrow> auth_result \<Rightarrow> ('db, User) sm" where
  "apply_authentication_result E u result =
     (let cid = result_credential_id E result in
      case find (\<lambda>k. pk_id k = cid) (user_passkeys u) of
        None \<Rightarrow> fail (Policy CredentialNotLinked)
      | Some held \<Rightarrow>
          let next_counter = ar_counter E result in
          if counter_regressed (pk_counter held) next_counter
          then fail (Bail ''passkey counter did not advance; possible cloned credential'')
          else case wa_update E (pk_passkey held) result of
            None \<Rightarrow> fail (Bail ''passkey result does not match stored credential'')
          | Some updated \<Rightarrow>
              sbind (now E) (\<lambda>current.
              ret (u\<lparr>user_passkeys := update_first (\<lambda>k. pk_id k = cid)
                (\<lambda>k. k\<lparr>pk_passkey := updated, pk_counter := max next_counter (pk_counter k), pk_last_used_at := Some current\<rparr>)
                (user_passkeys u)\<rparr>)))"

text \<open>\<open>AuthenticationCommitError::Rejected\<close> is its message; \<open>Internal\<close> is transparent.\<close>

abbreviation authentication_rejected :: store_error where
  "authentication_rejected \<equiv> Bail ''passkey authentication state was rejected''"

definition apply_authentication_and_create_session ::
  "'db env \<Rightarrow> uuid \<Rightarrow> auth_result \<Rightarrow> u64 \<Rightarrow> ('db, User \<times> string \<times> Session) sm" where
  "apply_authentication_and_create_session E uid result absolute_seconds =
     with_snapshot_read (with_mutation (
       sbind (user E uid) (\<lambda>u.
       sbind (ok_or authentication_rejected u) (\<lambda>u.
       sbind (attempt (apply_authentication_result E u result)) (\<lambda>applied.
       sbind (case applied of Inl _ \<Rightarrow> fail authentication_rejected | Inr u \<Rightarrow> ret u) (\<lambda>u.
       sbind (prepare_session E u (PasskeyOrigin (result_credential_id E result)) absolute_seconds) (\<lambda>(token, s).
       sbind (pending_events E [(''session.created'', Some (user_id u))]) (\<lambda>events.
       sbind (commit E [SET (user_key E uid) (VUser u), SETEX (session_key E token) (VSession s) absolute_seconds] events) (\<lambda>_.
       ret (u, token, s))))))))))"

definition apply_authentication :: "'db env \<Rightarrow> uuid \<Rightarrow> auth_result \<Rightarrow> ('db, User) sm" where
  "apply_authentication E uid result =
     with_snapshot_read (with_mutation (
       sbind (require_user E uid) (\<lambda>u.
       sbind (apply_authentication_result E u result) (\<lambda>u.
       sbind (persist_user E u) (\<lambda>_.
       ret u)))))"

definition new_passkey :: "'db env \<Rightarrow> string \<Rightarrow> string \<Rightarrow> passkey \<Rightarrow> u64 \<Rightarrow> StoredPasskey" where
  "new_passkey E cid label passkey created_at = \<lparr>pk_id = cid, pk_label = label, pk_counter = wa_counter E passkey,
     pk_created_at = created_at, pk_last_used_at = None, pk_passkey = passkey\<rparr>"

definition add_passkey :: "'db env \<Rightarrow> uuid \<Rightarrow> string \<Rightarrow> passkey \<Rightarrow> ('db, User) sm" where
  "add_passkey E uid label passkey =
     with_snapshot_read (with_mutation (
       sbind (require_user E uid) (\<lambda>u.
       let cid = credential_id E passkey in
       sbind (exists_key E (credential_key cid)) (\<lambda>taken.
       sbind (fail_if taken (Policy CredentialAlreadyExists)) (\<lambda>_.
       sbind (now E) (\<lambda>created_at.
       let u = u\<lparr>user_passkeys := user_passkeys u @ [new_passkey E cid label passkey created_at]\<rparr> in
       sbind (pending_events E [(''credential.created'', Some uid)]) (\<lambda>events.
       sbind (commit E [SET (user_key E uid) (VUser u), SET (credential_key cid) (VStr (uuid_text E uid))] events) (\<lambda>_.
       ret u))))))))"

definition rename_passkey :: "'db env \<Rightarrow> uuid \<Rightarrow> string \<Rightarrow> string \<Rightarrow> ('db, User) sm" where
  "rename_passkey E uid cid label =
     with_snapshot_read (with_mutation (
       sbind (require_user E uid) (\<lambda>u.
       sbind (fail_if (find (\<lambda>k. pk_id k = cid) (user_passkeys u) = None) (Policy CredentialNotLinked)) (\<lambda>_.
       let u = u\<lparr>user_passkeys := update_first (\<lambda>k. pk_id k = cid) (\<lambda>k. k\<lparr>pk_label := label\<rparr>) (user_passkeys u)\<rparr> in
       sbind (persist_user_with_event E u ''credential.renamed'') (\<lambda>_.
       ret u)))))"

definition revoke_passkey :: "'db env \<Rightarrow> uuid \<Rightarrow> string \<Rightarrow> ('db, User) sm" where
  "revoke_passkey E uid cid =
     with_snapshot_read (with_mutation (
       sbind (require_user E uid) (\<lambda>u.
       sbind (fail_if (length (user_passkeys u) \<le> 1) (Policy FinalCredential)) (\<lambda>_.
       sbind (fail_if (\<not> list_ex (\<lambda>k. pk_id k = cid) (user_passkeys u)) (Policy CredentialNotLinked)) (\<lambda>_.
       let u = u\<lparr>user_passkeys := filter (\<lambda>k. pk_id k \<noteq> cid) (user_passkeys u)\<rparr> in
       sbind (pending_events E [(''credential.revoked'', Some uid)]) (\<lambda>events.
       sbind (commit E [SET (user_key E uid) (VUser u), DEL [credential_key cid]] events) (\<lambda>_.
       ret u)))))))"

section \<open>Specifications\<close>

text \<open>The passkey a result belongs to was used: its counter did not regress and the record was updated.\<close>

definition advanced :: "'db env \<Rightarrow> auth_result \<Rightarrow> User \<Rightarrow> User \<Rightarrow> bool" where
  "advanced E result u u' \<longleftrightarrow> (\<exists>k p t. find (\<lambda>k. pk_id k = result_credential_id E result) (user_passkeys u) = Some k \<and>
     \<not> counter_regressed (pk_counter k) (ar_counter E result) \<and> wa_update E (pk_passkey k) result = Some p \<and>
     u' = u\<lparr>user_passkeys := update_first (\<lambda>k. pk_id k = result_credential_id E result)
       (\<lambda>k. k\<lparr>pk_passkey := p, pk_counter := max (ar_counter E result) (pk_counter k), pk_last_used_at := Some t\<rparr>)
       (user_passkeys u)\<rparr>)"

definition passkey_sign_in :: "'db env \<Rightarrow> db_view \<Rightarrow> uuid \<Rightarrow> auth_result \<Rightarrow> u64 \<Rightarrow> User \<times> string \<times> Session \<Rightarrow> db_view \<Rightarrow> bool" where
  "passkey_sign_in E v uid result absolute_seconds = (\<lambda>(u', token, s) m.
     (\<exists>u. stored E v uid u \<and> advanced E result u u') \<and>
     session_from E u' (PasskeyOrigin (result_credential_id E result)) absolute_seconds s \<and>
     (\<exists>n. token = b64url E (env_rand E n 32)) \<and>
     m = v(user_key E uid \<mapsto> VUser u', session_key E token \<mapsto> VSession s))"

definition passkey_added :: "'db env \<Rightarrow> db_view \<Rightarrow> uuid \<Rightarrow> string \<Rightarrow> passkey \<Rightarrow> (User \<Rightarrow> User) \<Rightarrow> User \<Rightarrow> db_view \<Rightarrow> bool" where
  "passkey_added E v uid label passkey f u' m \<longleftrightarrow> (\<exists>u t. stored E v uid u \<and> v (credential_key (credential_id E passkey)) = None \<and>
     u' = f (u\<lparr>user_passkeys := user_passkeys u @ [new_passkey E (credential_id E passkey) label passkey t]\<rparr>)) \<and>
     m = v(user_key E uid \<mapsto> VUser u', credential_key (credential_id E passkey) \<mapsto> VStr (uuid_text E uid))"

definition relabelled :: "string \<Rightarrow> string \<Rightarrow> User \<Rightarrow> User \<Rightarrow> bool" where
  "relabelled cid label u u' \<longleftrightarrow> find (\<lambda>k. pk_id k = cid) (user_passkeys u) \<noteq> None \<and>
     u' = u\<lparr>user_passkeys := update_first (\<lambda>k. pk_id k = cid) (\<lambda>k. k\<lparr>pk_label := label\<rparr>) (user_passkeys u)\<rparr>"

definition passkey_revoked :: "'db env \<Rightarrow> db_view \<Rightarrow> uuid \<Rightarrow> string \<Rightarrow> User \<Rightarrow> db_view \<Rightarrow> bool" where
  "passkey_revoked E v uid cid u' m \<longleftrightarrow> (\<exists>u. stored E v uid u \<and> 1 < length (user_passkeys u) \<and> cid \<in> creds u \<and>
     u' = u\<lparr>user_passkeys := filter (\<lambda>k. pk_id k \<noteq> cid) (user_passkeys u)\<rparr>) \<and>
     m = v(user_key E uid \<mapsto> VUser u', credential_key cid := None)"

lemma wp_apply_authentication_result:
  assumes "\<And>e. Q (Err e) w"
    and "\<And>u' w'. advanced E result u u' \<Longrightarrow> keeps w w' \<Longrightarrow> w_db w' = w_db w \<Longrightarrow> Q (Ok u') w'"
  shows "wp (apply_authentication_result E u result) Q w"
  unfolding apply_authentication_result_def Let_def
  by (auto simp: wp_simps assms(1) split: option.splits) (rule assms(2), auto simp: advanced_def keeps_def)

lemma map_pk_id_update: "(\<And>k. pk_id (f k) = pk_id k) \<Longrightarrow> map pk_id (update_first P f ks) = map pk_id ks"
  by (rule map_update_first)

lemma advanced_keeps: "user_wf u \<Longrightarrow> advanced E result u u' \<Longrightarrow> keeps_account u u'"
  by (auto simp: keeps_account_def advanced_def user_wf_def map_pk_id_update)

lemma relabelled_keeps: "user_wf u \<Longrightarrow> relabelled cid label u u' \<Longrightarrow> keeps_account u u'"
  by (auto simp: keeps_account_def relabelled_def user_wf_def map_pk_id_update)

context sabledb
begin

lemma apply_authentication_and_create_session_spec:
  assumes "w_mutation w = Free" "w_writer w = Free"
  shows "spec (apply_authentication_and_create_session E uid result secs)
     (\<lambda>x w'. keeps w w' \<and> did E (passkey_sign_in E (content w) uid result secs x) [(''session.created'', Some (user_id (fst x)))]
        (content w) (content w'))
     (\<lambda>_ w'. keeps w w' \<and> (\<exists>inputs. may E (\<lambda>m. \<exists>x. passkey_sign_in E (content w) uid result secs x m) inputs (content w) (content w'))) w"
  unfolding apply_authentication_and_create_session_def spec_def using assms
  by (auto simp: wp_simps keeps_def split: option.splits sum.splits
      intro!: wp_use [OF user_spec] wp_apply_authentication_result wp_prepare_session_from wp_use [OF pending_spec]
        wp_commit_step [where S = "passkey_sign_in E (content w) uid result secs"])
     (assumption | auto simp: passkey_sign_in_def)+

lemma apply_authentication_spec:
  assumes "w_mutation w = Free" "w_writer w = Free"
  shows "spec (apply_authentication E uid result)
     (\<lambda>u' w'. keeps w w' \<and> (\<exists>u. stored E (content w) uid u \<and> advanced E result u u') \<and>
        content w' = (content w)(user_key E (user_id u') \<mapsto> VUser u'))
     (\<lambda>_ w'. keeps w w' \<and> (content w' = content w \<or> (\<exists>u u'. stored E (content w) uid u \<and> advanced E result u u' \<and>
        content w' = (content w)(user_key E (user_id u') \<mapsto> VUser u')))) w"
  unfolding apply_authentication_def persist_user_def spec_def using assms
  by (auto simp: wp_simps keeps_def intro!: wp_use [OF require_user_spec] wp_apply_authentication_result wp_exec) blast+

lemma add_passkey_spec:
  assumes "w_mutation w = Free" "w_writer w = Free"
  shows "spec (add_passkey E uid label passkey)
     (\<lambda>u' w'. keeps w w' \<and> did E (passkey_added E (content w) uid label passkey id u') [(''credential.created'', Some uid)] (content w) (content w'))
     (\<lambda>_ w'. keeps w w' \<and> may E (\<lambda>m. \<exists>u'. passkey_added E (content w) uid label passkey id u' m) [(''credential.created'', Some uid)]
        (content w) (content w')) w"
  unfolding add_passkey_def spec_def using assms
  by (auto simp: wp_simps Let_def keeps_def
      intro!: wp_use [OF require_user_spec] wp_exists_key wp_use [OF pending_spec]
        wp_commit_step [where S = "passkey_added E (content w) uid label passkey id" and inputs = "[(''credential.created'', Some uid)]"])
     (auto simp: passkey_added_def)

lemma rename_passkey_spec:
  assumes "w_mutation w = Free" "w_writer w = Free"
  shows "spec (rename_passkey E uid cid label)
     (\<lambda>u' w'. keeps w w' \<and> rewritten E uid (relabelled cid label) ''credential.renamed'' (content w) u' (content w'))
     (\<lambda>_ w'. keeps w w' \<and> maybe_rewritten E uid (relabelled cid label) ''credential.renamed'' (content w) (content w')) w"
  unfolding rename_passkey_def spec_def using assms
  by (auto simp: wp_simps Let_def keeps_def relabelled_def
      intro!: wp_use [OF require_user_spec] wp_persist_rewrite [where uid = uid and F = "relabelled cid label"]) blast+

lemma revoke_passkey_spec:
  assumes "w_mutation w = Free" "w_writer w = Free"
  shows "spec (revoke_passkey E uid cid)
     (\<lambda>u' w'. keeps w w' \<and> did E (passkey_revoked E (content w) uid cid u') [(''credential.revoked'', Some uid)] (content w) (content w'))
     (\<lambda>_ w'. keeps w w' \<and> may E (\<lambda>m. \<exists>u'. passkey_revoked E (content w) uid cid u' m) [(''credential.revoked'', Some uid)]
        (content w) (content w')) w"
  unfolding revoke_passkey_def spec_def using assms
  by (auto simp: wp_simps Let_def keeps_def not_le
      intro!: wp_use [OF require_user_spec] wp_use [OF pending_spec]
        wp_commit_step [where S = "passkey_revoked E (content w) uid cid" and inputs = "[(''credential.revoked'', Some uid)]"])
     (auto simp: passkey_revoked_def creds_def list_ex_iff fun_upd_def)

end

section \<open>The account invariant\<close>

context sabledb
begin

lemma index_owner_other:
  "(\<And>j. m (identifier_key j) = v (identifier_key j)) \<Longrightarrow> (\<And>x. m (email_key x) = v (email_key x)) \<Longrightarrow> index_owner m i = index_owner v i"
  by (simp add: index_owner_def cong: option.case_cong)

text \<open>Replacing an account by one with other passkeys, the index entry of one credential with it.\<close>

lemma accounts_ok_passkeys:
  assumes ok: "accounts_ok E v" "stored E v uid u" and u': "user_id u' = uid" "user_wf u'" "distinct (map pk_id (user_passkeys u'))"
      "map ident_of (user_identifiers u') = map ident_of (user_identifiers u)"
    and new: "\<And>c. c \<in> creds u' \<Longrightarrow> c \<in> creds u \<or> v (credential_key c) = None"
    and m: "m (user_key E uid) = Some (VUser u')" "\<And>uid'. uid' \<noteq> uid \<Longrightarrow> m (user_key E uid') = v (user_key E uid')"
      "\<And>j. m (identifier_key j) = v (identifier_key j)" "\<And>x. m (email_key x) = v (email_key x)"
      "\<And>c. m (credential_key c) = (if c \<in> creds u' then Some (VStr (uuid_text E uid)) else if c \<in> creds u then None else v (credential_key c))"
  shows "accounts_ok E m"
proof -
  have h: "hydrate u' = u'" using u'(2) by (simp add: hydrate_id user_wf_def)
  have i: "idents u' = ident_of ` set (user_identifiers u)"
    using arg_cong [OF u'(4), of set] by (simp add: idents_def h)
  note o = owner_iff [OF ok] credential_iff [OF ok]
  show ?thesis
  proof (rule accounts_ok_update [OF ok(1) m(1) _ m(2)])
    show "account_ok uid u'" using u' h by (simp add: account_ok_def)
    show "index_owner v j = None \<or> index_owner v j = Some (VStr (uuid_text E uid))" if "j \<in> idents u'" for j
      using that o(1) i by simp
    show "index_owner m j = (if j \<in> idents u' then Some (VStr (uuid_text E uid))
        else if index_owner v j = Some (VStr (uuid_text E uid)) then None else index_owner v j)" for j
      using index_owner_other [of m v j, OF m(3,4)] o(1) [of j] i by simp
    show "v (credential_key c) = None \<or> v (credential_key c) = Some (VStr (uuid_text E uid))" if "c \<in> creds u'" for c
      using new [OF that] o(2) by blast
    show "m (credential_key c) = (if c \<in> creds u' then Some (VStr (uuid_text E uid))
        else if v (credential_key c) = Some (VStr (uuid_text E uid)) then None else v (credential_key c))" for c
      using m(5) [of c] o(2) [of c] by simp
  qed
qed

lemma passkey_added_accounts:
  assumes ok: "accounts_ok E v" and a: "passkey_added E v uid label passkey f u' m"
    and f: "\<And>u. user_id (f u) = user_id u \<and> user_identifiers (f u) = user_identifiers u \<and> user_passkeys (f u) = user_passkeys u \<and>
      (user_wf u \<longrightarrow> user_wf (f u))"
  shows "accounts_ok E m" "holds E m uid (credential_id E passkey)"
proof -
  let ?c = "credential_id E passkey"
  obtain u t where s: "stored E v uid u" and n: "v (credential_key ?c) = None"
    and u': "u' = f (u\<lparr>user_passkeys := user_passkeys u @ [new_passkey E ?c label passkey t]\<rparr>)"
    and m: "m = v(user_key E uid \<mapsto> VUser u', credential_key ?c \<mapsto> VStr (uuid_text E uid))"
    using a by (auto simp: passkey_added_def)
  obtain w: "user_wf u" "user_id u = uid" "distinct (map pk_id (user_passkeys u))" using stored_ok [OF ok s] by blast
  have c: "?c \<notin> creds u" using credential_iff [OF ok s, of ?c] n by auto
  have new: "creds u' = insert ?c (creds u)" by (simp add: u' creds_def f new_passkey_def)
  show "accounts_ok E m"
  proof (rule accounts_ok_passkeys [OF ok s, of u'])
    show "distinct (map pk_id (user_passkeys u'))" using w(3) c by (auto simp: u' f new_passkey_def creds_def)
    have "user_wf (u\<lparr>user_passkeys := user_passkeys u @ [new_passkey E ?c label passkey t]\<rparr>)" using w(1) by (simp add: user_wf_def)
    then show "user_wf u'" using f by (simp add: u')
  qed (use w n c new credential_iff [OF ok s] in \<open>auto simp: u' f m\<close>)
  show "holds E m uid ?c" using new by (simp add: holds_def m)
qed

lemma passkey_revoked_accounts:
  assumes ok: "accounts_ok E v" and a: "passkey_revoked E v uid cid u' m"
  shows "accounts_ok E m" "creds u' \<noteq> {}" "cid \<notin> creds u'" "user_id u' = uid" "stored E m uid (sync_legacy_email u')"
proof -
  obtain u where s: "stored E v uid u" and l: "1 < length (user_passkeys u)" "cid \<in> creds u"
    and u': "u' = u\<lparr>user_passkeys := filter (\<lambda>k. pk_id k \<noteq> cid) (user_passkeys u)\<rparr>"
    and m: "m = v(user_key E uid \<mapsto> VUser u', credential_key cid := None)"
    using a by (auto simp: passkey_revoked_def)
  obtain w: "user_wf u" "user_id u = uid" "distinct (map pk_id (user_passkeys u))" using stored_ok [OF ok s] by blast
  have new: "creds u' = creds u - {cid}" by (auto simp: u' creds_def)
  show "cid \<notin> creds u'" "user_id u' = uid" using new w by (simp_all add: u')
  have wf: "user_wf u'" using w(1) by (simp add: u' user_wf_def)
  show "accounts_ok E m"
    by (rule accounts_ok_passkeys [OF ok s, of u'])
      (use w l new wf credential_iff [OF ok s] in \<open>auto simp: u' m distinct_map_filter\<close>)
  have "card (creds u) = length (user_passkeys u)" unfolding creds_def using distinct_card [OF w(3)] by simp
  then have "card (creds u) \<noteq> card {cid}" using l(1) by simp
  then have "creds u \<noteq> {cid}" by metis
  then show "creds u' \<noteq> {}" using l(2) by (simp add: new Diff_eq_empty_iff subset_singleton_iff) auto
  show "stored E m uid (sync_legacy_email u')"
    using wf by (auto simp: stored_def m normalize_Inr hydrate_id user_wf_def)
qed

end

section \<open>Properties\<close>



text \<open>C18: a revoked passkey opens nothing. \<open>revoke_passkey\<close> leaves the account at least one passkey, keeps the
  index exact, and no session made by that passkey authenticates afterwards.\<close>

theorem revoked_passkey_ends_sessions:
  assumes "sabledb E view" "idle w" "accounts_ok E (view (w_db w))" "revoke_passkey E uid cid w = (Ok u', w1)"
  shows "user_passkeys u' \<noteq> [] \<and> accounts_ok E (view (w_db w1)) \<and> view (w_db w1) (credential_key cid) = None \<and>
    (\<forall>token idle_seconds s u w2. session E token idle_seconds w1 = (Ok (Some (s, u)), w2) \<longrightarrow>
       \<not> (sess_user_id s = uid \<and> sess_credential_id s = Some cid))"
proof -
  have free: "w_mutation w = Free" "w_writer w = Free" using assms(2) by (simp_all add: idle_def)
  obtain m where k: "keeps w w1" and m: "passkey_revoked E (view (w_db w)) uid cid u' m"
    "logged E (view (w_db w)) m [(''credential.revoked'', Some uid)] (view (w_db w1))"
    using spec_OkD [OF sabledb.revoke_passkey_spec [OF assms(1) free] assms(4)] by (auto simp: did_def)
  note a = sabledb.passkey_revoked_accounts [OF assms(1,3) m(1)]
  have v: "view (w_db w1) (user_key E uid) = m (user_key E uid)" "view (w_db w1) (credential_key cid) = m (credential_key cid)"
    using logged_other [OF m(2)] by simp_all
  have s1: "stored E (view (w_db w1)) uid (sync_legacy_email u')" using a(5) v(1) by (simp add: stored_def)
  have dead: "\<not> (sess_user_id s = uid \<and> sess_credential_id s = Some cid)"
    if r: "session E token idle_seconds w1 = (Ok (Some (s, u)), w2)" for token idle_seconds s u w2
  proof
    assume h: "sess_user_id s = uid \<and> sess_credential_id s = Some cid"
    have "session_live E (view (w_db w1)) token idle_seconds (env_clock E (w_ticks w1)) s u"
      using sabledb.session_returns_live [OF assms(1) _ r] k free by (simp add: keeps_def)
    then have "stored E (view (w_db w1)) uid u" "cid \<in> creds u" using h by (auto simp: session_live_def)
    then have "cid \<in> creds (sync_legacy_email u')" using sabledb.stored_unique [OF assms(1) _ s1] by blast
    then show False using a(3) by (simp add: creds_def)
  qed
  have "accounts_ok E (view (w_db w1))" using logged_accounts [OF m(2)] a(1) by simp
  moreover have "m (credential_key cid) = None" using m(1) by (auto simp: passkey_revoked_def)
  moreover have "user_passkeys u' \<noteq> []" using a(2) by (auto simp: creds_def)
  ultimately show ?thesis using v(2) dead by (intro conjI) simp_all
qed

theorem revoked_passkey_ends_sessions_witness:
  "let E = mem_env (\<lambda>_. 9); w = alice_session_world (\<lambda>_. 9); w1 = snd (revoke_passkey E 7 ''k1A'' w) in
   (\<exists>u. fst (revoke_passkey E 7 ''k1A'' w) = Ok u) \<and>
   (\<forall>s u. fst (session E alice_token 600 w1) = Ok (Some (s, u)) \<longrightarrow> \<not> (sess_user_id s = 7 \<and> sess_credential_id s = Some ''k1A''))"
proof -
  let ?E = "mem_env (\<lambda>_. 9)" and ?w = "alice_session_world (\<lambda>_. 9)"
  have "\<exists>u. fst (revoke_passkey ?E 7 ''k1A'' ?w) = Ok u"
    by (simp add: run_simps revoke_passkey_def require_user_def user_def alice_session_world_def alice_db_def)
      (simp add: run_simps alice_def)
  then obtain u where r: "fst (revoke_passkey ?E 7 ''k1A'' ?w) = Ok u" by blast
  have "\<not> (sess_user_id s = 7 \<and> sess_credential_id s = Some ''k1A'')"
    if "fst (session ?E alice_token 600 (snd (revoke_passkey ?E 7 ''k1A'' ?w))) = Ok (Some (s, u2))" for s u2
    using revoked_passkey_ends_sessions [OF memory.sabledb_axioms alice_session_idle alice_session_ok(1) run_result [OF r]]
      run_result [OF that] by blast
  then show ?thesis unfolding Let_def using r by blast
qed

lemma sync_passkeys: "sync_legacy_email (u\<lparr>user_passkeys := ks\<rparr>) = (sync_legacy_email u)\<lparr>user_passkeys := ks\<rparr>"
  by (simp add: sync_legacy_email_def split: option.splits)

context sabledb
begin

lemma advanced_stored:
  assumes "accounts_ok E v" "stored E v uid u" "advanced E result u u'"
  shows "normalize_and_validate u' = Inr u'" "result_credential_id E result \<in> creds u'" "user_id u' = uid"
proof -
  obtain u0 where u: "u = sync_legacy_email (hydrate u0)" "user_wf u" "user_id u = uid" using stored_ok [OF assms(1,2)] by blast
  obtain k ks where k: "find (\<lambda>k. pk_id k = result_credential_id E result) (user_passkeys u) = Some k" "u' = u\<lparr>user_passkeys := ks\<rparr>"
    using assms(3) by (auto simp: advanced_def)
  have ka: "keeps_account u u'" using advanced_keeps [OF u(2) assms(3)] .
  have "sync_legacy_email u = u" using u(1) by simp
  then show "normalize_and_validate u' = Inr u'"
    using ka by (simp add: normalize_Inr hydrate_id k(2) sync_passkeys keeps_account_def user_wf_def)
  have "map pk_id (user_passkeys u') = map pk_id (user_passkeys u)" using ka by (simp add: keeps_account_def)
  from arg_cong [OF this, of set] have "creds u' = creds u" by (simp add: creds_def)
  then show "result_credential_id E result \<in> creds u'" using find_Some_mem [OF k(1)] unfolding creds_def by (metis image_eqI)
  show "user_id u' = uid" using u(3) k(2) by simp
qed

end

text \<open>C19: signing in opens a session. The token that a successful passkey sign-in returns authenticates that
  account, with the session it returned, until one of the two lifetimes ends; only a datastore error can
  keep a request from seeing it.\<close>

theorem sign_in_authenticates:
  assumes "sabledb E view" "idle w" "accounts_ok E (view (w_db w))"
    and "\<And>bytes. length bytes = 32 \<Longrightarrow> length (b64url E bytes) = 43" "\<And>n. length (env_rand E n 32) = 32"
    and "apply_authentication_and_create_session E uid result secs w = (Ok (u, token, s), w1)"
    and "view (w_db w) (session_activity_key E token) = None"
    and "env_clock E (w_ticks w1) < sess_absolute_expires_at s"
    and "env_clock E (w_ticks w1) < saturating_add (sess_created_at s) idle_seconds"
    and "session E token idle_seconds w1 = (r, w2)"
  shows "r = Ok (Some (s\<lparr>sess_last_seen_at := env_clock E (w_ticks w1)\<rparr>, u)) \<or> (\<exists>e. r = Err e)"
proof -
  let ?v = "view (w_db w)" and ?v1 = "view (w_db w1)"
  have free: "w_mutation w = Free" "w_writer w = Free" using assms(2) by (simp_all add: idle_def)
  obtain m where k: "keeps w w1" and p: "passkey_sign_in E ?v uid result secs (u, token, s) m"
    and l: "logged E ?v m [(''session.created'', Some (user_id u))] ?v1"
    using spec_OkD [OF sabledb.apply_authentication_and_create_session_spec [OF assms(1) free] assms(6)] by (auto simp: did_def)
  obtain u0 n where u0: "stored E ?v uid u0" "advanced E result u0 u" and t: "token = b64url E (env_rand E n 32)"
    and s: "session_from E u (PasskeyOrigin (result_credential_id E result)) secs s"
    and m: "m = ?v(user_key E uid \<mapsto> VUser u, session_key E token \<mapsto> VSession s)"
    using p by (auto simp: passkey_sign_in_def)
  note a = sabledb.advanced_stored [OF assms(1,3) u0]
  have v1: "?v1 (user_key E uid) = Some (VUser u)" "?v1 (session_key E token) = Some (VSession s)" "?v1 (session_activity_key E token) = None"
    using logged_other [OF l] assms(7) by (simp_all add: m)
  have "session_live E ?v1 token idle_seconds (env_clock E (w_ticks w1)) (s\<lparr>sess_last_seen_at := env_clock E (w_ticks w1)\<rparr>) u"
    using v1 a s assms(4) [OF assms(5)] assms(8,9)
    by (auto simp: session_live_def t last_activity_def apply_session_activity_def stored_def session_from_def)
  moreover have "w_writer w1 = Free" using k free by (simp add: keeps_def)
  ultimately show ?thesis using specD [OF sabledb.session_spec [OF assms(1)] assms(10)] by (cases r) auto
qed

lemma alice_passkeys_norm [run_simps]: "normalize_and_validate (alice\<lparr>user_passkeys := ks\<rparr>) = Inr (alice\<lparr>user_passkeys := ks\<rparr>)"
proof -
  have "sync_legacy_email alice = alice" using alice_norm by (simp add: normalize_Inr alice_wf)
  then show ?thesis using alice_wf(1) by (simp add: normalize_Inr hydrate_id user_wf_def sync_passkeys)
qed

lemma alice_fields:
  "user_passkeys alice = [
     \<lparr>pk_id = ''k1A'', pk_label = ''laptop'', pk_counter = 2, pk_created_at = 2, pk_last_used_at = None, pk_passkey = ''k1''\<rparr>,
     \<lparr>pk_id = ''k2A'', pk_label = ''phone'', pk_counter = 2, pk_created_at = 2, pk_last_used_at = None, pk_passkey = ''k2''\<rparr>]"
  "user_id alice = 7" "user_session_version alice = 1"
  by (simp_all add: alice_def)

theorem sign_in_authenticates_witness:
  "\<exists>u token s. let E = mem_env (\<lambda>_. 9); run = apply_authentication_and_create_session E 7 ''k1'' 600 (alice_world (\<lambda>_. 9) []) in
     fst run = Ok (u, token, s) \<and> (fst (session E token 60 (snd run)) = Ok (Some (s\<lparr>sess_last_seen_at := 9\<rparr>, u)) \<or>
       (\<exists>e. fst (session E token 60 (snd run)) = Err e))"
proof -
  let ?E = "mem_env (\<lambda>_. 9)" and ?w = "alice_world (\<lambda>_. 9) []"
  let ?run = "apply_authentication_and_create_session ?E 7 ''k1'' 600 ?w"
  have "\<exists>u token s. fst ?run = Ok (u, token, s) \<and> sess_created_at s = 9 \<and> sess_absolute_expires_at s = 609"
    by (simp add: run_simps apply_authentication_and_create_session_def user_def alice_db_def apply_authentication_result_def
        result_credential_id_def alice_fields counter_regressed_def prepare_session_def saturating_add_def del: session_keys)
  then obtain u token s where r: "fst ?run = Ok (u, token, s)" and t: "sess_created_at s = 9" "sess_absolute_expires_at s = 609"
    by blast
  have w: "idle ?w" "accounts_ok ?E (mem_view (w_db ?w))" "mem_view (w_db ?w) (session_activity_key ?E token) = None"
    using alice_ok by (simp_all add: mem_world_def mem_view_def idle_def) (simp add: alice_db_def Let_def account_keys session_keys)
  have c: "env_clock ?E (w_ticks (snd ?run)) = 9" by (simp add: mem_env_sel)
  from sign_in_authenticates [OF memory.sabledb_axioms w(1,2) _ _ run_result [OF r] w(3) _ _ prod.collapse [symmetric], of 60] c t r
  show ?thesis by (auto simp: Let_def mem_env_sel saturating_add_def)
qed

end
