(* ===== verification/OneTime.thy ===== *)
theory OneTime
  imports Credentials
begin

text \<open>
  Records that are used once: WebAuthn ceremonies and local-agent handoffs
  (\<open>src/src/store/ceremonies.rs\<close>), identifier verification challenges
  (\<open>src/src/store/verification.rs\<close>) and recovery codes with the recovery passkey
  (\<open>src/src/store/recovery.rs\<close>). The locale \<open>one_time\<close> is what the first four share: a record
  that \<open>GETDEL\<close> takes away with the read.
\<close>

section \<open>Ceremonies and handoffs\<close>

definition registration_key :: "'db env \<Rightarrow> uuid \<Rightarrow> string" where
  "registration_key E cid = ''auth:registration:'' @ uuid_text E cid"

definition authentication_key :: "'db env \<Rightarrow> uuid \<Rightarrow> string" where
  "authentication_key E cid = ''auth:authentication:'' @ uuid_text E cid"

definition handoff_key :: "'db env \<Rightarrow> string \<Rightarrow> string" where
  "handoff_key E code = ''auth:agent-handoff:'' @ sha256_hex E code"

definition save_registration :: "'db env \<Rightarrow> RegistrationCeremony \<Rightarrow> ('db, unit) sm" where
  "save_registration E ceremony =
     with_snapshot_read (
       sbind (now E) (\<lambda>current.
       set_json_ex E (registration_key E (reg_id ceremony)) (VRegistration ceremony)
         (max (saturating_sub (reg_expires_at ceremony) current) 1)))"

definition take_registration :: "'db env \<Rightarrow> uuid \<Rightarrow> ('db, RegistrationCeremony) sm" where
  "take_registration E cid =
     with_snapshot_read (
       sbind (take_json E as_registration (registration_key E cid)) (\<lambda>ceremony.
       sbind (ok_or (Bail ''registration ceremony is missing or already used'') ceremony) (\<lambda>ceremony.
       sbind (now E) (\<lambda>current.
       sbind (fail_if (reg_expires_at ceremony \<le> current) (Bail ''registration ceremony has expired'')) (\<lambda>_.
       ret ceremony)))))"

definition save_authentication :: "'db env \<Rightarrow> AuthenticationCeremony \<Rightarrow> ('db, unit) sm" where
  "save_authentication E ceremony =
     with_snapshot_read (
       sbind (now E) (\<lambda>current.
       set_json_ex E (authentication_key E (auth_id ceremony)) (VAuthentication ceremony)
         (max (saturating_sub (auth_expires_at ceremony) current) 1)))"

definition take_authentication :: "'db env \<Rightarrow> uuid \<Rightarrow> ('db, AuthenticationCeremony) sm" where
  "take_authentication E cid =
     with_snapshot_read (
       sbind (take_json E as_authentication (authentication_key E cid)) (\<lambda>ceremony.
       sbind (ok_or (Bail ''authentication ceremony is missing or already used'') ceremony) (\<lambda>ceremony.
       sbind (now E) (\<lambda>current.
       sbind (fail_if (auth_expires_at ceremony \<le> current) (Bail ''authentication ceremony has expired'')) (\<lambda>_.
       ret ceremony)))))"

definition create_local_agent_handoff :: "'db env \<Rightarrow> string \<Rightarrow> string \<Rightarrow> u64 \<Rightarrow> ('db, string) sm" where
  "create_local_agent_handoff E email redirect_url lifetime_seconds =
     with_snapshot_read (
       sbind (user_by_email E email) (\<lambda>u.
       sbind (ok_or (Bail ''account does not exist'') u) (\<lambda>u.
       sbind (random_bytes E 32) (\<lambda>random.
       let code = b64url E random in
       sbind (now E) (\<lambda>current.
       let handoff = \<lparr>handoff_user_id = user_id u, handoff_redirect_url = redirect_url,
             handoff_expires_at = saturating_add current lifetime_seconds\<rparr> in
       sbind (exec_and_log_within E [SETEX (handoff_key E code) (VHandoff handoff) lifetime_seconds]
         ''agent.handoff.created'' (Some (user_id u))) (\<lambda>_.
       ret code))))))"

definition take_local_agent_handoff :: "'db env \<Rightarrow> string \<Rightarrow> ('db, LocalAgentHandoff) sm" where
  "take_local_agent_handoff E code =
     with_snapshot_read (
       sbind (fail_if (length code < 32 \<or> length code > 256) (Bail ''agent handoff code is invalid'')) (\<lambda>_.
       sbind (take_json E as_handoff (handoff_key E code)) (\<lambda>handoff.
       sbind (ok_or (Bail ''agent handoff is missing or already used'') handoff) (\<lambda>handoff.
       sbind (now E) (\<lambda>current.
       sbind (fail_if (handoff_expires_at handoff \<le> current) (Bail ''agent handoff has expired'')) (\<lambda>_.
       ret handoff))))))"

section \<open>Verification challenges\<close>

abbreviation VERIFICATION_SECONDS :: u64 where
  "VERIFICATION_SECONDS \<equiv> 900"

definition VERIFICATION_DOMAIN :: string where
  "VERIFICATION_DOMAIN = ''rustyauth.identifier-verification.v1'' @ [CHR 0x00]"

definition verification_key :: "'db env \<Rightarrow> uuid \<Rightarrow> string" where
  "verification_key E cid = ''auth:identifier-verification:'' @ uuid_text E cid"

abbreviation verification_invalid :: store_error where
  "verification_invalid \<equiv> Bail ''verification challenge is invalid or expired''"

definition code_byte :: "char \<Rightarrow> bool" where
  "code_byte b \<longleftrightarrow> is_ascii_alphanumeric b \<or> b = CHR ''-'' \<or> b = CHR ''_''"

definition validate_verification_code :: "string \<Rightarrow> store_error + unit" where
  "validate_verification_code raw_code =
     (if length raw_code \<noteq> 26 \<or> \<not> starts_with ''rvc_'' raw_code \<or> \<not> list_all code_byte (drop 4 raw_code)
      then Inl verification_invalid else Inr ())"

definition verification_digest :: "'db env \<Rightarrow> string \<Rightarrow> string" where
  "verification_digest E raw_code = sha256_hex E (VERIFICATION_DOMAIN @ raw_code)"

definition create_identifier_verification ::
  "'db env \<Rightarrow> uuid \<Rightarrow> IdentifierValue \<Rightarrow> ('db, IdentifierVerificationChallenge \<times> string) sm" where
  "create_identifier_verification E uid identifier =
     with_snapshot_read (with_mutation (
       sbind (require_user E uid) (\<lambda>u.
       sbind (ok_or (Policy IdentifierNotLinked) (find (same_identifier identifier) (user_identifiers u))) (\<lambda>account_identifier.
       sbind (fail_if (ai_verified account_identifier) (Bail ''identifier is already verified'')) (\<lambda>_.
       sbind (random_bytes E 16) (\<lambda>random.
       let raw_code = ''rvc_'' @ b64url E random in
       sbind (now E) (\<lambda>created_at.
       sbind (new_v4 E) (\<lambda>cid.
       let challenge = \<lparr>ivc_id = cid, ivc_user_id = uid, ivc_identifier = identifier,
             ivc_code_digest = verification_digest E raw_code, ivc_created_at = created_at,
             ivc_expires_at = saturating_add created_at VERIFICATION_SECONDS\<rparr> in
       sbind (exec_and_log E [SETEX (verification_key E cid) (VChallenge challenge) VERIFICATION_SECONDS]
         ''identifier.verification.requested'' (Some uid)) (\<lambda>_.
       ret (challenge, raw_code))))))))))"

text \<open>\<open>||\<close> reads the clock only when the challenge is the account's.\<close>

definition consume_identifier_verification :: "'db env \<Rightarrow> uuid \<Rightarrow> uuid \<Rightarrow> string \<Rightarrow> ('db, IdentifierValue) sm" where
  "consume_identifier_verification E challenge_id uid raw_code =
     sbind (lift_result (validate_verification_code raw_code)) (\<lambda>_.
     with_snapshot_read (
       sbind (take_json E as_challenge (verification_key E challenge_id)) (\<lambda>challenge.
       sbind (ok_or (Bail ''verification challenge is missing or already used'') challenge) (\<lambda>challenge.
       if ivc_user_id challenge \<noteq> uid then fail verification_invalid else
       sbind (now E) (\<lambda>current.
       sbind (fail_if (ivc_expires_at challenge \<le> current) verification_invalid) (\<lambda>_.
       sbind (fail_if (ivc_code_digest challenge \<noteq> verification_digest E raw_code) verification_invalid) (\<lambda>_.
       ret (ivc_identifier challenge))))))))"

definition delete_identifier_verification :: "'db env \<Rightarrow> uuid \<Rightarrow> ('db, unit) sm" where
  "delete_identifier_verification E challenge_id = delete_key E (verification_key E challenge_id)"

section \<open>Recovery codes\<close>

abbreviation RECOVERY_CODE_COUNT :: nat where
  "RECOVERY_CODE_COUNT \<equiv> 10"

definition RECOVERY_DIGEST_DOMAIN :: string where
  "RECOVERY_DIGEST_DOMAIN = ''rustyauth.account-recovery.v1'' @ [CHR 0x00]"

abbreviation recovery_invalid :: store_error where
  "recovery_invalid \<equiv> Bail ''recovery code is invalid or already used''"

definition validate_recovery_code :: "string \<Rightarrow> store_error + unit" where
  "validate_recovery_code raw_code =
     (if length raw_code \<noteq> 31 \<or> \<not> starts_with ''rrc_'' raw_code \<or> \<not> list_all code_byte (drop 4 raw_code)
      then Inl recovery_invalid else Inr ())"

definition recovery_digest :: "'db env \<Rightarrow> string \<Rightarrow> string" where
  "recovery_digest E raw_code = sha256_hex E (RECOVERY_DIGEST_DOMAIN @ raw_code)"

definition rotate_recovery_codes :: "'db env \<Rightarrow> uuid \<Rightarrow> ('db, User \<times> string list) sm" where
  "rotate_recovery_codes E uid =
     with_snapshot_read (with_mutation (
       sbind (require_user E uid) (\<lambda>u.
       sbind (now E) (\<lambda>created_at.
       sbind (smap (\<lambda>_. sbind (random_bytes E 20) (\<lambda>random. ret (''rrc_'' @ b64url E random))) [0..<RECOVERY_CODE_COUNT]) (\<lambda>raw_codes.
       let u = u\<lparr>user_recovery_codes := map (\<lambda>code. \<lparr>rc_digest = recovery_digest E code, rc_created_at = created_at\<rparr>) raw_codes\<rparr> in
       sbind (persist_user_with_event E u ''account.recovery_codes.rotated'') (\<lambda>_.
       ret (u, raw_codes)))))))"

definition consume_recovery_code :: "'db env \<Rightarrow> IdentifierValue \<Rightarrow> string \<Rightarrow> ('db, User) sm" where
  "consume_recovery_code E identifier raw_code =
     sbind (lift_result (validate_recovery_code raw_code)) (\<lambda>_.
     with_snapshot_read (with_mutation (
       sbind (user_by_identifier E identifier) (\<lambda>u.
       sbind (ok_or (Policy UserMissing) u) (\<lambda>u.
       let candidate = recovery_digest E raw_code in
       sbind (ok_or recovery_invalid (position (\<lambda>record. rc_digest record = candidate) (user_recovery_codes u))) (\<lambda>index.
       let u = u\<lparr>user_recovery_codes := take index (user_recovery_codes u) @ drop (Suc index) (user_recovery_codes u)\<rparr> in
       sbind (persist_user_with_event E u ''account.recovery.started'') (\<lambda>_.
       ret u)))))))"

text \<open>What a completed recovery changes besides the new passkey.\<close>

definition recovered :: "User \<Rightarrow> User" where
  "recovered u = u\<lparr>user_session_version := saturating_add (user_session_version u) 1, user_recovery_codes := []\<rparr>"

definition recovery_events :: "uuid \<Rightarrow> event_input list" where
  "recovery_events uid = [(''account.recovery.completed'', Some uid), (''credential.created'', Some uid), (''session.revoked_all'', Some uid)]"

definition add_recovery_passkey :: "'db env \<Rightarrow> uuid \<Rightarrow> string \<Rightarrow> passkey \<Rightarrow> ('db, User) sm" where
  "add_recovery_passkey E uid label passkey =
     with_snapshot_read (with_mutation (
       sbind (require_user E uid) (\<lambda>u.
       let cid = credential_id E passkey in
       sbind (exists_key E (credential_key cid)) (\<lambda>taken.
       sbind (fail_if taken (Policy CredentialAlreadyExists)) (\<lambda>_.
       sbind (now E) (\<lambda>created_at.
       let u = recovered (u\<lparr>user_passkeys := user_passkeys u @ [new_passkey E cid label passkey created_at]\<rparr>) in
       sbind (pending_events E (recovery_events uid)) (\<lambda>events.
       sbind (commit E [SET (user_key E uid) (VUser u), SET (credential_key cid) (VStr (uuid_text E uid))] events) (\<lambda>_.
       ret u))))))))"

section \<open>Records used once\<close>

text \<open>The contract: a use that succeeds found the record and took it away; one that fails changed nothing
  but perhaps took it away as well.\<close>

lemma reclaimed_one [simp]: "reclaimed {k} v (v(k := None))"
  by (simp add: reclaimed_def)

lemma reclaimed_absent: "reclaimed {k} v v' \<Longrightarrow> v k = None \<Longrightarrow> v' = v"
  unfolding reclaimed_def by (rule ext) (metis singletonD)

locale one_time = sabledb E view for E :: "'db env" and view :: "'db \<Rightarrow> db_view" +
  fixes key :: "'k \<Rightarrow> string" and take_record :: "'k \<Rightarrow> ('db, 'a) sm"
  assumes take_law: "\<And>k w. w_writer w = Free \<Longrightarrow> spec (take_record k)
     (\<lambda>_ w'. keeps w w' \<and> view (w_db w) (key k) \<noteq> None \<and> view (w_db w') = (view (w_db w))(key k := None))
     (\<lambda>_ w'. keeps w w' \<and> reclaimed {key k} (view (w_db w)) (view (w_db w'))) w"
begin

lemma absent_refused:
  assumes "idle w" "content w (key k) = None" "take_record k w = (r, w')"
  shows "(\<exists>e. r = Err e) \<and> content w' = content w"
proof -
  have "w_writer w = Free" using assms(1) by (simp add: idle_def)
  from specD [OF take_law [OF this] assms(3)] show ?thesis
    using reclaimed_absent [of "key k" "content w" "content w'"] assms(2) by (cases r) auto
qed

lemma taken_once:
  assumes "idle w" "take_record k w = (Ok x, w1)" "key k' = key k" "take_record k' w1 = (r, w2)"
  shows "(\<exists>e. r = Err e) \<and> content w2 = content w1"
proof -
  have "w_writer w = Free" using assms(1) by (simp add: idle_def)
  from spec_OkD [OF take_law [OF this] assms(2)] have "idle w1" "content w1 (key k') = None"
    using assms(1,3) keeps_idle [of w w1] by auto
  then show ?thesis using absent_refused assms(4) by blast
qed

end

sublocale sabledb \<subseteq> registration: one_time E view "registration_key E" "take_registration E"
  by unfold_locales
    (auto simp: take_registration_def spec_def wp_simps keeps_def intro!: wp_take_json split: option.splits)

sublocale sabledb \<subseteq> authentication: one_time E view "authentication_key E" "take_authentication E"
  by unfold_locales
    (auto simp: take_authentication_def spec_def wp_simps keeps_def intro!: wp_take_json split: option.splits)

sublocale sabledb \<subseteq> handoff: one_time E view "handoff_key E" "take_local_agent_handoff E"
  by unfold_locales
    (auto simp: take_local_agent_handoff_def spec_def wp_simps keeps_def intro!: wp_take_json split: option.splits)

sublocale sabledb \<subseteq> challenge: one_time E view "\<lambda>(cid, _, _). verification_key E cid"
    "\<lambda>(cid, uid, code). consume_identifier_verification E cid uid code"
  by unfold_locales
    (auto simp: consume_identifier_verification_def spec_def wp_simps keeps_def intro!: wp_take_json split: option.splits sum.splits)

section \<open>Specifications\<close>

lemmas one_time_keys [run_simps] = registration_key_def authentication_key_def handoff_key_def verification_key_def

lemma one_time_key_simps [simp]:
  "\<not> event_family (handoff_key E c)" "\<not> event_family (verification_key E cid)" "\<not> event_family (registration_key E cid)"
  "\<not> event_family (authentication_key E cid)"
  "\<not> account_family (handoff_key E c)" "\<not> account_family (verification_key E cid)" "\<not> account_family (registration_key E cid)"
  "\<not> account_family (authentication_key E cid)"
  by (simp_all add: one_time_keys event_family_def account_family_def starts_with_def)

definition challenged :: "'db env \<Rightarrow> db_view \<Rightarrow> uuid \<Rightarrow> IdentifierValue \<Rightarrow> IdentifierVerificationChallenge \<times> string \<Rightarrow> db_view \<Rightarrow> bool" where
  "challenged E v uid i = (\<lambda>(c, raw) m. (\<exists>u ai. stored E v uid u \<and> find (same_identifier i) (user_identifiers u) = Some ai \<and> \<not> ai_verified ai) \<and>
     ivc_user_id c = uid \<and> ivc_identifier c = i \<and> ivc_code_digest c = verification_digest E raw \<and>
     ivc_expires_at c = saturating_add (ivc_created_at c) VERIFICATION_SECONDS \<and> (\<exists>n. raw = ''rvc_'' @ b64url E (env_rand E n 16)) \<and>
     m = v(verification_key E (ivc_id c) \<mapsto> VChallenge c))"

definition handed_off :: "'db env \<Rightarrow> db_view \<Rightarrow> string \<Rightarrow> u64 \<Rightarrow> User \<Rightarrow> string \<Rightarrow> db_view \<Rightarrow> bool" where
  "handed_off E v redirect lifetime u code m \<longleftrightarrow> (\<exists>n t. code = b64url E (env_rand E n 32) \<and>
     m = v(handoff_key E code \<mapsto> VHandoff \<lparr>handoff_user_id = user_id u, handoff_redirect_url = redirect,
       handoff_expires_at = saturating_add t lifetime\<rparr>))"

definition code_used :: "'db env \<Rightarrow> string \<Rightarrow> User \<Rightarrow> User \<Rightarrow> bool" where
  "code_used E raw u u' \<longleftrightarrow> (\<exists>n. position (\<lambda>c. rc_digest c = recovery_digest E raw) (user_recovery_codes u) = Some n \<and>
     u' = u\<lparr>user_recovery_codes := take n (user_recovery_codes u) @ drop (Suc n) (user_recovery_codes u)\<rparr>)"

definition codes_rotated :: "'db env \<Rightarrow> User \<Rightarrow> User \<Rightarrow> bool" where
  "codes_rotated E u u' \<longleftrightarrow> (\<exists>codes t. length codes = RECOVERY_CODE_COUNT \<and>
     u' = u\<lparr>user_recovery_codes := map (\<lambda>code. \<lparr>rc_digest = recovery_digest E code, rc_created_at = t\<rparr>) codes\<rparr>)"

context sabledb
begin

lemma consume_verification_spec:
  assumes "w_writer w = Free"
  shows "spec (consume_identifier_verification E cid uid raw)
     (\<lambda>i w'. \<exists>c. content w (verification_key E cid) = Some (VChallenge c) \<and> ivc_user_id c = uid \<and> ivc_identifier c = i \<and>
        ivc_code_digest c = verification_digest E raw \<and> env_clock E (w_ticks w) < ivc_expires_at c)
     (\<lambda>_ _. True) w"
  unfolding consume_identifier_verification_def spec_def using assms
  by (auto simp: wp_simps keeps_def intro!: wp_take_json split: option.splits sum.splits)

lemma create_identifier_verification_spec:
  assumes "w_mutation w = Free" "w_writer w = Free"
  shows "spec (create_identifier_verification E uid i)
     (\<lambda>x w'. keeps w w' \<and> did E (challenged E (content w) uid i x) [(''identifier.verification.requested'', Some uid)] (content w) (content w'))
     (\<lambda>_ w'. keeps w w' \<and> may_part E (\<lambda>m. \<exists>x. challenged E (content w) uid i x m)
        [(''identifier.verification.requested'', Some uid)] (content w) (content w')) w"
  unfolding create_identifier_verification_def spec_def using assms
  by (auto simp: wp_simps Let_def keeps_def split: option.splits
      intro!: wp_use [OF require_user_spec] wp_exec_and_log_step [where S = "challenged E (content w) uid i"])
     (assumption | auto simp: challenged_def)+

lemma user_by_identifier_owner:
  assumes "accounts_ok E (content w)"
  shows "spec (user_by_identifier E i)
     (\<lambda>r w'. keeps w w' \<and> content w' = content w \<and>
        (\<forall>u. r = Some u \<longrightarrow> stored E (content w) (user_id u) u \<and> owns E (content w) (user_id u) i))
     (\<lambda>_ w'. keeps w w' \<and> content w' = content w) w"
proof (rule spec_conseq [OF user_by_identifier_spec])
  fix r w'
  assume h: "keeps w w' \<and> content w' = content w \<and> (case r of None \<Rightarrow> no_owner E (content w) i
     | Some u \<Rightarrow> \<exists>x s uid. index_owner (content w) i = Some x \<and> as_str x = Some s \<and> uuid_parse E s = Some uid \<and> stored E (content w) uid u)"
  have "stored E (content w) (user_id u) u \<and> owns E (content w) (user_id u) i" if r: "r = Some u" for u
  proof -
    obtain x s uid where x: "index_owner (content w) i = Some x" "as_str x = Some s" "uuid_parse E s = Some uid" "stored E (content w) uid u"
      using h r by auto
    obtain uid' where o: "x = VStr (uuid_text E uid')" "owns E (content w) uid' i" using assms x(1) unfolding accounts_ok_def by blast
    then have "uid' = uid" using x(2,3) uuid_law [of uid'] by simp
    moreover have "user_id u = uid" using stored_ok [OF assms x(4)] by blast
    ultimately show ?thesis using o(2) x(4) by simp
  qed
  then show "keeps w w' \<and> content w' = content w \<and>
      (\<forall>u. r = Some u \<longrightarrow> stored E (content w) (user_id u) u \<and> owns E (content w) (user_id u) i)" using h by blast
qed simp

lemma code_used_id: "code_used E raw u u' \<Longrightarrow> user_id u' = user_id u"
  by (auto simp: code_used_def)

lemma consume_recovery_code_spec:
  assumes "w_mutation w = Free" "w_writer w = Free" "accounts_ok E (content w)"
  shows "spec (consume_recovery_code E i raw)
     (\<lambda>u' w'. keeps w w' \<and> owns E (content w) (user_id u') i \<and>
        rewritten E (user_id u') (code_used E raw) ''account.recovery.started'' (content w) u' (content w'))
     (\<lambda>_ w'. keeps w w' \<and> (content w' = content w \<or> (\<exists>uid. owns E (content w) uid i \<and>
        maybe_rewritten E uid (code_used E raw) ''account.recovery.started'' (content w) (content w')))) w"
  unfolding consume_recovery_code_def spec_def using assms
  by (auto simp: wp_simps Let_def keeps_def split: sum.splits option.splits
      intro!: wp_use [OF user_by_identifier_owner] wp_persist_rewrite [where F = "code_used E raw"]) 
     (fastforce simp: code_used_def)+

lemma smap_random_spec:
  "spec (smap (\<lambda>_. sbind (random_bytes E k) (\<lambda>r. ret (f r))) xs)
     (\<lambda>ys w'. keeps w w' \<and> w_db w' = w_db w \<and> length ys = length xs) (\<lambda>_ _. False) w"
  unfolding spec_def
proof (induction xs arbitrary: w)
  case (Cons x xs)
  have "spec (smap (\<lambda>_. sbind (random_bytes E k) (\<lambda>r. ret (f r))) xs)
     (\<lambda>ys w'. keeps w1 w' \<and> w_db w' = w_db w1 \<and> length ys = length xs) (\<lambda>_ _. False) w1" for w1
    unfolding spec_def by (rule Cons.IH)
  note ih = wp_use [OF this]
  show ?case by (simp add: wp_simps) (rule ih, auto simp: wp_simps keeps_def)
qed (simp add: wp_simps)

lemma rotate_recovery_codes_spec:
  assumes "w_mutation w = Free" "w_writer w = Free"
  shows "spec (rotate_recovery_codes E uid)
     (\<lambda>(u', codes) w'. keeps w w' \<and> rewritten E uid (codes_rotated E) ''account.recovery_codes.rotated'' (content w) u' (content w') \<and>
        map rc_digest (user_recovery_codes u') = map (recovery_digest E) codes \<and> length codes = RECOVERY_CODE_COUNT)
     (\<lambda>_ w'. keeps w w' \<and> maybe_rewritten E uid (codes_rotated E) ''account.recovery_codes.rotated'' (content w) (content w')) w"
  unfolding rotate_recovery_codes_def spec_def using assms
  by (auto simp: wp_simps Let_def keeps_def simp del: smap.simps upt_rec_numeral
      intro!: wp_use [OF require_user_spec] wp_use [OF smap_random_spec] wp_persist_rewrite [where uid = uid and F = "codes_rotated E"])
     (auto simp: codes_rotated_def)

lemma add_recovery_passkey_spec:
  assumes "w_mutation w = Free" "w_writer w = Free"
  shows "spec (add_recovery_passkey E uid label passkey)
     (\<lambda>u' w'. keeps w w' \<and> did E (passkey_added E (content w) uid label passkey recovered u') (recovery_events uid) (content w) (content w'))
     (\<lambda>_ w'. keeps w w' \<and> may E (\<lambda>m. \<exists>u'. passkey_added E (content w) uid label passkey recovered u' m) (recovery_events uid)
        (content w) (content w')) w"
  unfolding add_recovery_passkey_def spec_def using assms
  by (auto simp: wp_simps Let_def keeps_def
      intro!: wp_use [OF require_user_spec] wp_exists_key wp_use [OF pending_spec]
        wp_commit_step [where S = "passkey_added E (content w) uid label passkey recovered" and inputs = "recovery_events uid"])
     (auto simp: passkey_added_def)

end

lemma recovered_keeps:
  "user_id (recovered u) = user_id u \<and> user_identifiers (recovered u) = user_identifiers u \<and> user_passkeys (recovered u) = user_passkeys u \<and>
   (user_wf u \<longrightarrow> user_wf (recovered u))"
  by (simp add: recovered_def user_wf_def recovery_ok_def)

lemma keeps_account_sets:
  assumes "user_wf u" "keeps_account u u'"
  shows "idents u' = idents u" "creds u' = creds u"
proof -
  have m: "map ident_of (user_identifiers u') = map ident_of (user_identifiers u)" "map pk_id (user_passkeys u') = map pk_id (user_passkeys u)"
    and h: "hydrate u' = u'" "hydrate u = u" using assms by (simp_all add: keeps_account_def hydrate_id user_wf_def)
  show "idents u' = idents u" using arg_cong [OF m(1), of set] by (simp add: idents_def h)
  show "creds u' = creds u" using arg_cong [OF m(2), of set] by (simp add: creds_def)
qed

lemma position_take_drop:
  "position P xs = Some n \<Longrightarrow> xs = take n xs @ xs ! n # drop (Suc n) xs"
  using position_Some [of P xs n] by (simp add: id_take_nth_drop)

lemma code_used_codes:
  assumes "user_wf u" "code_used E raw u u'"
  shows "keeps_account u u'" "recovery_digest E raw \<notin> rc_digest ` set (user_recovery_codes u')"
proof -
  obtain n where n: "position (\<lambda>c. rc_digest c = recovery_digest E raw) (user_recovery_codes u) = Some n"
    "u' = u\<lparr>user_recovery_codes := take n (user_recovery_codes u) @ drop (Suc n) (user_recovery_codes u)\<rparr>"
    using assms(2) by (auto simp: code_used_def)
  let ?cs = "user_recovery_codes u"
  have cs: "?cs = take n ?cs @ ?cs ! n # drop (Suc n) ?cs" by (rule position_take_drop [OF n(1)])
  have d: "distinct (map rc_digest (take n ?cs @ ?cs ! n # drop (Suc n) ?cs))"
    "\<forall>c \<in> set (take n ?cs @ ?cs ! n # drop (Suc n) ?cs). length (rc_digest c) = 64 \<and> list_all is_ascii_hexdigit (rc_digest c)"
    using assms(1) unfolding user_wf_def recovery_ok_def cs [symmetric] by blast+
  have "recovery_ok (take n ?cs @ drop (Suc n) ?cs)" using d by (auto simp: recovery_ok_def)
  then show "keeps_account u u'" using assms(1) n(2) by (simp add: keeps_account_def user_wf_def)
  have "rc_digest (?cs ! n) = recovery_digest E raw" using position_Some [OF n(1)] by simp
  then show "recovery_digest E raw \<notin> rc_digest ` set (user_recovery_codes u')" using d(1) n(2) by auto
qed

context sabledb
begin

lemmas taken_once_laws = registration.taken_once [OF _ _ refl] authentication.taken_once [OF _ _ refl] handoff.taken_once [OF _ _ refl]

lemma challenge_taken_once:
  "idle w \<Longrightarrow> consume_identifier_verification E cid uid code w = (Ok i, w1) \<Longrightarrow>
   consume_identifier_verification E cid uid' code' w1 = (r, w2) \<Longrightarrow> (\<exists>e. r = Err e) \<and> content w2 = content w1"
  using challenge.taken_once [of w "(cid, uid, code)" i w1 "(cid, uid', code')" r w2] by simp

end

section \<open>Properties\<close>

definition refuses :: "('db \<Rightarrow> db_view) \<Rightarrow> ('db, 'a) sm \<Rightarrow> 'db world \<Rightarrow> bool" where
  "refuses view m w \<longleftrightarrow> (\<exists>e. fst (m w) = Err e) \<and> view (w_db (snd (m w))) = view (w_db w)"


definition agent_code :: string where
  "agent_code = replicate 40 CHR ''h''"


text \<open>C21: a verification challenge. It yields its identifier only to the account it was made for, before it
  expires, and for a code with the stored digest.\<close>

theorem verification_challenge_exact:
  assumes "sabledb E view" "idle w" "consume_identifier_verification E cid uid code w = (Ok i, w')"
  shows "\<exists>c. view (w_db w) (verification_key E cid) = Some (VChallenge c) \<and> ivc_user_id c = uid \<and> ivc_identifier c = i \<and>
    ivc_code_digest c = verification_digest E code \<and> env_clock E (w_ticks w) < ivc_expires_at c"
  using spec_OkD [OF sabledb.consume_verification_spec [OF assms(1)] assms(3)] assms(2) by (auto simp: idle_def)

definition challenge_code :: string where
  "challenge_code = ''rvc_'' @ replicate 22 CHR ''x''"

theorem verification_challenge_exact_witness:
  "\<exists>E (w :: mem world) i c. fst (consume_identifier_verification E 3 7 challenge_code w) = Ok i \<and>
     mem_view (w_db w) (verification_key E 3) = Some (VChallenge c) \<and> ivc_user_id c = 7"
proof -
  let ?E = "mem_env (\<lambda>_. 9)"
  let ?c = "\<lparr>ivc_id = 3, ivc_user_id = 7, ivc_identifier = alice_phone, ivc_code_digest = verification_digest ?E challenge_code,
    ivc_created_at = 8, ivc_expires_at = 908\<rparr>"
  let ?w = "mem_world [(verification_key ?E 3, VChallenge ?c)] []"
  have r: "fst (consume_identifier_verification ?E 3 7 challenge_code ?w) = Ok alice_phone"
    by (simp add: run_simps consume_identifier_verification_def validate_verification_code_def challenge_code_def
        starts_with_def code_byte_def is_ascii_alphanumeric_def is_ascii_lowercase_def byte_def list_all_iff del: one_time_keys)
  have "idle ?w" by (simp add: mem_world_def idle_def)
  from verification_challenge_exact [OF memory.sabledb_axioms this run_result [OF r]] r show ?thesis by blast
qed

text \<open>C22: a recovery code works once. After it was accepted for an account, the same code for the same
  identifier is refused and the refusal changes nothing.\<close>

theorem recovery_code_single_use:
  assumes "sabledb E view" "idle w" "accounts_ok E (view (w_db w))"
    and "consume_recovery_code E i code w = (Ok u', w1)" "consume_recovery_code E i code w1 = (r, w2)"
  shows "(\<exists>e. r = Err e) \<and> view (w_db w2) = view (w_db w1) \<and> accounts_ok E (view (w_db w1))"
proof -
  let ?v = "view (w_db w)" and ?v1 = "view (w_db w1)"
  have free: "w_mutation w = Free" "w_writer w = Free" using assms(2) by (simp_all add: idle_def)
  have r: "keeps w w1" "owns E ?v (user_id u') i" "rewritten E (user_id u') (code_used E code) ''account.recovery.started'' ?v u' ?v1"
    using spec_OkD [OF sabledb.consume_recovery_code_spec [OF assms(1) free assms(3)] assms(4)] by auto
  have ok: "accounts_ok E ?v1" using sabledb.rewritten_accounts [OF assms(1,3) r(3)] code_used_codes(1) by blast
  obtain u where u: "stored E ?v (user_id u') u" "code_used E code u u'"
    "logged E ?v (?v(user_key E (user_id u') \<mapsto> VUser u')) [(''account.recovery.started'', Some (user_id u'))] ?v1"
    using r(3) by (auto simp: rewritten_def)
  have wf: "user_wf u" using sabledb.stored_ok [OF assms(1,3) u(1)] by blast
  note cu = code_used_codes [OF wf u(2)]
  have k: "?v1 (user_key E (user_id u')) = Some (VUser u')" using logged_other [OF u(3)] by simp
  have "idents u' = idents u" using keeps_account_sets(1) [OF wf cu(1)] .
  moreover have "i \<in> idents u" using r(2) u(1) by (auto simp: owns_def stored_def normalize_Inr idents_def hydrate_id user_wf_def)
  ultimately have own: "owns E ?v1 (user_id u') i" using k by (auto simp: owns_def)
  have no: "\<not> code_used E code u1 u2" if s: "stored E ?v1 uid u1" and o: "owns E ?v1 uid i" for uid u1 u2
  proof -
    have "uid = user_id u'" using owns_index [OF ok own] owns_index [OF ok o] sabledb.uuid_text_inject [OF assms(1)] by simp
    then have "user_recovery_codes u1 = user_recovery_codes u'" using s k by (auto simp: stored_def normalize_Inr)
    then have "position (\<lambda>c. rc_digest c = recovery_digest E code) (user_recovery_codes u1) = None"
      using cu(2) unfolding position_None by (metis image_eqI)
    then show ?thesis by (simp add: code_used_def)
  qed
  have free1: "w_mutation w1 = Free" "w_writer w1 = Free" using r(1) free by (simp_all add: keeps_def)
  have "(\<exists>e. r = Err e) \<and> view (w_db w2) = ?v1"
    using specD [OF sabledb.consume_recovery_code_spec [OF assms(1) free1 ok] assms(5)] no
    by (cases r) (auto simp: rewritten_def maybe_rewritten_def)
  then show ?thesis using ok by blast
qed

text \<open>The in-memory datastore with a hash that yields hexadecimal text, and an account with a recovery code.\<close>

definition hex_env :: "(nat \<Rightarrow> u64) \<Rightarrow> mem env" where
  "hex_env clock = (mem_env clock)\<lparr>sha256_hex := \<lambda>_. replicate 64 CHR ''a''\<rparr>"

interpretation hex_memory: sabledb "hex_env clock" mem_view for clock
  using memory.sabledb_axioms unfolding hex_env_def sabledb_def by simp

definition alice_recoverable :: User where
  "alice_recoverable = alice\<lparr>user_recovery_codes := [\<lparr>rc_digest = replicate 64 CHR ''a'', rc_created_at = 2\<rparr>]\<rparr>"

definition recoverable_world :: "(nat \<Rightarrow> u64) \<Rightarrow> mem world" where
  "recoverable_world clock = mem_world ((user_key (mem_env clock) 7, VUser alice_recoverable) # alice_db clock) []"

lemma hex_env_keys [simp]: "user_key (hex_env clock) = user_key (mem_env clock)" "uuid_text (hex_env clock) = uuid_text (mem_env clock)"
  by (simp_all add: fun_eq_iff user_key_def hex_env_def)

lemma hex_env_run: "parse_uuid (E\<lparr>sha256_hex := h\<rparr>) = parse_uuid E"
  by (simp add: fun_eq_iff parse_uuid_def)

lemma alice_recoverable_sel:
  "user_recovery_codes alice_recoverable = [\<lparr>rc_digest = replicate 64 CHR ''a'', rc_created_at = 2\<rparr>]" "user_id alice_recoverable = 7"
  by (simp_all add: alice_recoverable_def alice_fields)

lemma sync_legacy_email_codes: "sync_legacy_email (u\<lparr>user_recovery_codes := cs\<rparr>) = (sync_legacy_email u)\<lparr>user_recovery_codes := cs\<rparr>"
  by (cases u) (simp add: sync_legacy_email_def split: option.splits)

lemma alice_recoverable_wf: "user_wf alice_recoverable" "normalize_and_validate alice_recoverable = Inr alice_recoverable"
proof -
  have "is_ascii_hexdigit CHR ''a''" by (simp add: is_ascii_hexdigit_def byte_def)
  then have "recovery_ok [\<lparr>rc_digest = replicate 64 CHR ''a'', rc_created_at = 2\<rparr>]" by (simp add: recovery_ok_def list_all_iff)
  then show wf: "user_wf alice_recoverable" using alice_wf(1) by (simp add: user_wf_def alice_recoverable_def)
  have "sync_legacy_email alice = alice" using alice_norm by (simp add: normalize_Inr alice_wf)
  then have "sync_legacy_email alice_recoverable = alice_recoverable" by (simp add: alice_recoverable_def sync_legacy_email_codes)
  then show "normalize_and_validate alice_recoverable = Inr alice_recoverable"
    using wf hydrate_id [of alice_recoverable] by (simp add: normalize_Inr user_wf_def)
qed

lemma recoverable_ok: "idle (recoverable_world clock)" "accounts_ok (hex_env clock) (mem_view (w_db (recoverable_world clock)))"
proof -
  show "idle (recoverable_world clock)" by (simp add: recoverable_world_def mem_world_def idle_def)
  have "stored (mem_env clock) (map_of (alice_db clock)) 7 alice" using alice_norm by (auto simp: stored_def alice_db_def Let_def)
  from memory.account_record_update [OF alice_ok this, of alice_recoverable] alice_recoverable_wf(1)
  have "accounts_ok (mem_env clock) (mem_view (w_db (recoverable_world clock)))"
    by (simp add: recoverable_world_def mem_world_def mem_view_def alice_recoverable_def alice_fields)
  then show "accounts_ok (hex_env clock) (mem_view (w_db (recoverable_world clock)))"
    by (simp add: accounts_ok_def owns_def holds_def)
qed

theorem recovery_code_single_use_witness:
  "let E = hex_env (\<lambda>_. 9); code = ''rrc_'' @ replicate 27 CHR ''x''; w = recoverable_world (\<lambda>_. 9) in
   (\<exists>u. fst (consume_recovery_code E alice_mail code w) = Ok u) \<and>
   (\<exists>e. fst (consume_recovery_code E alice_mail code (snd (consume_recovery_code E alice_mail code w))) = Err e)"
proof -
  let ?E = "hex_env (\<lambda>_. 9)" and ?code = "''rrc_'' @ replicate 27 CHR ''x''" and ?w = "recoverable_world (\<lambda>_. 9)"
  have c: "validate_recovery_code ?code = Inr ()"
    by (simp add: validate_recovery_code_def starts_with_def code_byte_def is_ascii_alphanumeric_def is_ascii_lowercase_def byte_def list_all_iff)
  have "\<exists>u. fst (consume_recovery_code ?E alice_mail ?code ?w) = Ok u"
    unfolding consume_recovery_code_def c recoverable_world_def
    by (simp add: run_simps user_by_identifier_def user_def alice_db_def alice_mail_def alice_phone_def alice_recoverable_wf hex_env_def
        persist_user_with_event_def recovery_digest_def hex_env_run alice_recoverable_sel)
  then obtain u where r: "fst (consume_recovery_code ?E alice_mail ?code ?w) = Ok u" by blast
  from recovery_code_single_use [OF hex_memory.sabledb_axioms recoverable_ok run_result [OF r] prod.collapse [symmetric]] r
  show ?thesis unfolding Let_def by blast
qed

lemma session_credential_keys: "session_key E token \<noteq> credential_key cid"
  by (simp add: session_key_def credential_key_def)

text \<open>C23: completing a recovery takes the account back: the new passkey opens it, no recovery code is left,
  no index entry is broken, and no session issued before authenticates as the account again.\<close>

theorem recovery_reclaims_account:
  assumes "sabledb E view" "idle w" "accounts_ok E (view (w_db w))" "sessions_ok E (view (w_db w))"
    and "stored E (view (w_db w)) uid u" "user_session_version u \<noteq> -1"
    and "add_recovery_passkey E uid label passkey w = (Ok u', w1)"
  shows "accounts_ok E (view (w_db w1)) \<and> holds E (view (w_db w1)) uid (credential_id E passkey) \<and> user_recovery_codes u' = [] \<and>
    (\<forall>token idle_seconds s u2 w2. session E token idle_seconds w1 = (Ok (Some (s, u2)), w2) \<longrightarrow> sess_user_id s \<noteq> uid)"
proof -
  let ?v = "view (w_db w)" and ?v1 = "view (w_db w1)"
  have free: "w_mutation w = Free" "w_writer w = Free" using assms(2) by (simp_all add: idle_def)
  obtain m where k: "keeps w w1" and m: "passkey_added E ?v uid label passkey recovered u' m" "logged E ?v m (recovery_events uid) ?v1"
    using spec_OkD [OF sabledb.add_recovery_passkey_spec [OF assms(1) free] assms(7)] by (auto simp: did_def)
  note a = sabledb.passkey_added_accounts [OF assms(1,3) m(1) recovered_keeps]
  have v1: "?v1 (user_key E uid) = Some (VUser u')" "\<And>token. ?v1 (session_key E token) = ?v (session_key E token)"
    using logged_other [OF m(2)] m(1) session_credential_keys by (auto simp: passkey_added_def)
  obtain u0 t where u0: "stored E ?v uid u0" "u' = recovered (u0\<lparr>user_passkeys := user_passkeys u0 @ [new_passkey E (credential_id E passkey) label passkey t]\<rparr>)"
    using m(1) by (auto simp: passkey_added_def)
  have u: "u0 = u" using sabledb.stored_unique [OF assms(1) u0(1) assms(5)] .
  have u': "user_session_version u < user_session_version u'" "user_recovery_codes u' = []"
    using saturating_add_one [OF assms(6)] by (simp_all add: u0(2) u recovered_def)
  have "sess_user_id s \<noteq> uid" if r: "session E token idle_seconds w1 = (Ok (Some (s, u2)), w2)" for token idle_seconds s u2 w2
  proof -
    have "session_live E ?v1 token idle_seconds (env_clock E (w_ticks w1)) s u2"
      using sabledb.session_returns_live [OF assms(1) _ r] k free by (simp add: keeps_def)
    then show ?thesis using sabledb.outdated_sessions_dead [OF assms(1,3-5) v1(1) u'(1) v1(2)] by blast
  qed
  moreover have "accounts_ok E ?v1" using logged_accounts [OF m(2)] a(1) by simp
  moreover have "holds E ?v1 uid (credential_id E passkey)" using a(2) logged_other [OF m(2)] by (simp add: holds_def)
  ultimately show ?thesis using u'(2) by blast
qed

theorem recovery_reclaims_account_witness:
  "let E = mem_env (\<lambda>_. 9); w = alice_session_world (\<lambda>_. 9); w1 = snd (add_recovery_passkey E 7 ''new'' ''k3'' w) in
   (\<exists>u. fst (add_recovery_passkey E 7 ''new'' ''k3'' w) = Ok u) \<and>
   (\<forall>s u2. fst (session E alice_token 600 w1) = Ok (Some (s, u2)) \<longrightarrow> sess_user_id s \<noteq> 7)"
proof -
  let ?E = "mem_env (\<lambda>_. 9)" and ?w = "alice_session_world (\<lambda>_. 9)"
  have "\<exists>u. fst (add_recovery_passkey ?E 7 ''new'' ''k3'' ?w) = Ok u"
    by (simp add: run_simps add_recovery_passkey_def require_user_def user_def recovery_events_def alice_session_world_def alice_db_def
        credential_id_def del: session_keys) (simp add: session_key_def)
  then obtain u' where r: "fst (add_recovery_passkey ?E 7 ''new'' ''k3'' ?w) = Ok u'" by blast
  have n: "user_session_version alice \<noteq> -1" by (simp add: alice_def)
  have "sess_user_id s \<noteq> 7" if "fst (session ?E alice_token 600 (snd (add_recovery_passkey ?E 7 ''new'' ''k3'' ?w))) = Ok (Some (s, u2))" for s u2
    using recovery_reclaims_account [OF memory.sabledb_axioms alice_session_idle alice_session_ok n run_result [OF r]]
      run_result [OF that] by blast
  then show ?thesis unfolding Let_def using r by blast
qed

end
