(* ===== verification/Listing.thy ===== *)
theory Listing
  imports Scan EventLog "HOL-Library.Product_Lexorder"
begin

text \<open>
  Reading many records: the rules for the loops that fetch one record per key or id and keep those that
  are there (\<open>account_invitations\<close>, \<open>webhooks\<close>, \<open>webhook_deliveries\<close>, \<open>service_accounts\<close>,
  \<open>list_users\<close>), and the scan that collects keys in a \<open>BTreeSet\<close>.
\<close>

definition collect_keys :: "string list \<Rightarrow> string list \<Rightarrow> store_error + string list" where
  "collect_keys batch keys = Inr (fold insort_insert batch keys)"

text \<open>The records a map holds for a list of keys.\<close>

definition fetched :: "(value \<Rightarrow> 'a option) \<Rightarrow> db_view \<Rightarrow> string list \<Rightarrow> 'a list" where
  "fetched f v ks = List.map_filter (\<lambda>k. Option.bind (v k) f) ks"

lemma fold_insort_insert:
  "sorted (xs :: 'a :: linorder list) \<Longrightarrow> distinct xs \<Longrightarrow>
    sorted (fold insort_insert ys xs) \<and> distinct (fold insort_insert ys xs) \<and> set (fold insort_insert ys xs) = set xs \<union> set ys"
  by (induction ys arbitrary: xs) (auto simp: sorted_insort_insert distinct_insort_insert set_insort_insert)

lemma map_filter_list_all2:
  "list_all2 (\<lambda>x y. y = g x) xs ys \<Longrightarrow> List.map_filter id ys = List.map_filter g xs"
  by (induction xs ys rule: list_all2_induct) (auto simp: List.map_filter_simps split: option.splits)

lemma set_map_filter: "set (List.map_filter f xs) = {y. \<exists>x \<in> set xs. f x = Some y}"
  by (induction xs) (auto simp: List.map_filter_simps split: option.splits)

lemma set_fetched: "x \<in> set (fetched f v ks) \<longleftrightarrow> (\<exists>k \<in> set ks. \<exists>y. v k = Some y \<and> f y = Some x)"
  by (auto simp: fetched_def set_map_filter bind_eq_Some_conv)

lemma spec_bind:
  "spec m P R w \<Longrightarrow> (\<And>x w'. P x w' \<Longrightarrow> spec (k x) P' R' w') \<Longrightarrow> (\<And>e w'. R e w' \<Longrightarrow> R' e w') \<Longrightarrow> spec (sbind m k) P' R' w"
  unfolding spec_def [of "sbind m k"] wp_bind by (rule wp_use, assumption) (simp_all add: spec_def)

lemma smap_reads:
  assumes "\<And>x w. spec (f x) (\<lambda>y w'. keeps w w' \<and> view (w_db w') = view (w_db w) \<and> P x (view (w_db w)) y)
      (\<lambda>_ w'. keeps w w' \<and> view (w_db w') = view (w_db w)) w"
  shows "spec (smap f xs) (\<lambda>ys w'. keeps w w' \<and> view (w_db w') = view (w_db w) \<and> list_all2 (\<lambda>x y. P x (view (w_db w)) y) xs ys)
      (\<lambda>_ w'. keeps w w' \<and> view (w_db w') = view (w_db w)) w"
proof (induction xs arbitrary: w)
  case Nil
  then show ?case by (simp add: spec_def wp_simps)
next
  case (Cons x xs)
  show ?case unfolding spec_def smap.simps
    by (auto simp: wp_simps keeps_def intro!: wp_use [OF assms] wp_use [OF Cons.IH])
qed

context sabledb
begin

lemma get_json_reads:
  "spec (get_json E f k) (\<lambda>y w'. keeps w w' \<and> content w' = content w \<and> y = Option.bind (content w k) f)
     (\<lambda>_ w'. keeps w w' \<and> content w' = content w) w"
  unfolding spec_def by (auto simp: keeps_def intro!: wp_get_json)

lemma fetch_spec:
  "spec (smap (get_json E f) ks)
     (\<lambda>ys w'. keeps w w' \<and> content w' = content w \<and> List.map_filter id ys = fetched f (content w) ks)
     (\<lambda>_ w'. keeps w w' \<and> content w' = content w) w"
  by (rule spec_conseq [OF smap_reads [OF get_json_reads]]) (auto simp: fetched_def dest: map_filter_list_all2)

end

context scanning
begin

lemma scan_keys_spec:
  "spec (scan_all E pre n collect_keys [])
     (\<lambda>ks w'. keeps w w' \<and> content w' = content w \<and> sorted ks \<and> distinct ks \<and> set ks = keys_of (content w) pre)
     (\<lambda>_ w'. keeps w w' \<and> content w' = content w) w"
  unfolding spec_def
  by (rule wp_scan [where I = "\<lambda>S ks. sorted ks \<and> distinct ks \<and> set ks = S"])
    (auto simp: keeps_def collect_keys_def fold_insort_insert)

end

declare collect_keys_def [run_simps]

end
