(* ===== verification/Webhooks.thy ===== *)
theory Webhooks
  imports Listing
begin

text \<open>
  Webhook destinations, their cursors and delivery records (\<open>src/src/store/webhooks.rs\<close>), and the
  retention of the event log, which may not overtake a destination's cursor
  (\<open>Store::prune_events_older_than\<close> in \<open>src/src/store/events.rs\<close>). The delivery backlog is a counter
  kept beside the records; \<open>deliveries_ok\<close> says that it counts the open deliveries exactly.
  \<open>sort_unstable\<close> is a stable sort here: it sorts by keys that are unique in a consistent database.
\<close>

section \<open>Destinations\<close>

definition webhook_key :: "string \<Rightarrow> string" where
  "webhook_key wid = ''auth:webhook:'' @ wid"

definition delivery_key :: "'db env \<Rightarrow> uuid \<Rightarrow> string" where
  "delivery_key E uid = ''auth:webhook-delivery:'' @ uuid_text E uid"

definition delivery_event_key :: "string \<Rightarrow> u64 \<Rightarrow> string" where
  "delivery_event_key wid event_sequence = ''auth:webhook-delivery-event:'' @ wid @ '':'' @
     (let digits = dec_string (unat event_sequence) in replicate (20 - length digits) CHR ''0'' @ digits)"

definition cursor_key :: "string \<Rightarrow> string" where
  "cursor_key wid = ''auth:webhook-cursor:'' @ wid"

abbreviation DELIVERY_BACKLOG_KEY :: string where
  "DELIVERY_BACKLOG_KEY \<equiv> ''auth:webhook-delivery-backlog''"

definition webhooks :: "'db env \<Rightarrow> ('db, WebhookRecord list) sm" where
  "webhooks E =
     sbind (scan_all E ''auth:webhook:'' 100 collect_keys []) (\<lambda>keys.
     sbind (smap (get_json E as_webhook) keys) (\<lambda>records.
     ret (sort_key wh_id (List.map_filter id records))))"

definition webhook :: "'db env \<Rightarrow> string \<Rightarrow> ('db, WebhookRecord option) sm" where
  "webhook E wid = get_json E as_webhook (webhook_key wid)"

definition put_webhook :: "'db env \<Rightarrow> WebhookRecord \<Rightarrow> string \<Rightarrow> ('db, unit) sm" where
  "put_webhook E record event_type =
     with_snapshot_read (with_mutation (
       sbind (exec_and_log E [SET (webhook_key (wh_id record)) (VWebhook record)] event_type None) (\<lambda>_.
       ret ())))"

definition update_webhook_runtime :: "'db env \<Rightarrow> WebhookRecord \<Rightarrow> ('db, unit) sm" where
  "update_webhook_runtime E record = set_key E (webhook_key (wh_id record)) (VWebhook record)"

definition remove_webhook :: "'db env \<Rightarrow> string \<Rightarrow> ('db, unit) sm" where
  "remove_webhook E wid =
     with_snapshot_read (with_mutation (
       sbind (exec_and_log E [DEL [webhook_key wid], DEL [cursor_key wid]] ''webhook.deleted'' None) (\<lambda>_.
       ret ())))"

definition webhook_cursor :: "'db env \<Rightarrow> string \<Rightarrow> ('db, u64) sm" where
  "webhook_cursor E wid = sbind (get_json E as_num (cursor_key wid))
     (\<lambda>r. ret (case r of None \<Rightarrow> 0 | Some n \<Rightarrow> n))"

definition set_webhook_cursor :: "'db env \<Rightarrow> string \<Rightarrow> u64 \<Rightarrow> ('db, unit) sm" where
  "set_webhook_cursor E wid sequence = set_key E (cursor_key wid) (VNum sequence)"

section \<open>Deliveries\<close>

definition is_open_delivery :: "WebhookDeliveryStatusRecord \<Rightarrow> bool" where
  "is_open_delivery status \<longleftrightarrow> status \<in> {WD_Pending, WD_Retrying}"

definition is_terminal_delivery :: "WebhookDeliveryStatusRecord \<Rightarrow> bool" where
  "is_terminal_delivery status \<longleftrightarrow> status \<in> {WD_Succeeded, WD_Failed}"

definition delivery_transition_event :: "WebhookDeliveryRecord option \<Rightarrow> WebhookDeliveryRecord \<Rightarrow> string option" where
  "delivery_transition_event previous record =
     (if \<not> (case previous of None \<Rightarrow> True | Some p \<Rightarrow> wd_status p \<noteq> wd_status record) then None
      else case wd_status record of
        WD_Pending \<Rightarrow> if previous = None then Some ''analytics.webhook.delivery.queued'' else None
      | WD_Succeeded \<Rightarrow> Some ''analytics.webhook.delivery.succeeded''
      | WD_Failed \<Rightarrow> Some ''analytics.webhook.delivery.failed''
      | WD_Retrying \<Rightarrow> None)"

definition webhook_delivery :: "'db env \<Rightarrow> uuid \<Rightarrow> ('db, WebhookDeliveryRecord option) sm" where
  "webhook_delivery E uid = get_json E as_delivery (delivery_key E uid)"

definition webhook_delivery_for_event :: "'db env \<Rightarrow> string \<Rightarrow> u64 \<Rightarrow> ('db, WebhookDeliveryRecord option) sm" where
  "webhook_delivery_for_event E wid event_sequence =
     sbind (get_json E as_str (delivery_event_key wid event_sequence)) (\<lambda>r. case r of
       None \<Rightarrow> ret None
     | Some s \<Rightarrow> sbind (lift_result (parse_uuid E s)) (\<lambda>uid. webhook_delivery E uid))"

definition webhook_deliveries :: "'db env \<Rightarrow> ('db, WebhookDeliveryRecord list) sm" where
  "webhook_deliveries E =
     sbind (record_ids E ''auth:webhook-delivery:'') (\<lambda>ids.
     sbind (smap (webhook_delivery E) ids) (\<lambda>records.
     ret (sort_key (\<lambda>r. (wd_created_at r, wd_id r)) (List.map_filter id records))))"

definition webhook_delivery_backlog :: "'db env \<Rightarrow> ('db, u64) sm" where
  "webhook_delivery_backlog E = sbind (get_json E as_num DELIVERY_BACKLOG_KEY)
     (\<lambda>r. ret (case r of None \<Rightarrow> 0 | Some n \<Rightarrow> n))"

abbreviation backlog_inconsistent :: store_error where
  "backlog_inconsistent \<equiv> Bail ''webhook delivery backlog is inconsistent''"

definition next_backlog :: "bool \<Rightarrow> bool \<Rightarrow> u64 \<Rightarrow> store_error + u64" where
  "next_backlog was_open is_open backlog =
     (if \<not> was_open \<and> is_open then
        (case checked_add backlog 1 of None \<Rightarrow> Inl (Bail ''webhook delivery backlog exhausted'') | Some n \<Rightarrow> Inr n)
      else if was_open \<and> \<not> is_open then
        (case checked_sub backlog 1 of None \<Rightarrow> Inl backlog_inconsistent | Some n \<Rightarrow> Inr n)
      else Inr backlog)"

definition delivery_events :: "'db env \<Rightarrow> WebhookDeliveryRecord option \<Rightarrow> WebhookDeliveryRecord \<Rightarrow> u64 \<Rightarrow> ('db, AuthEvent list) sm" where
  "delivery_events E previous record backlog = (case delivery_transition_event previous record of
     None \<Rightarrow> ret []
   | Some event_type \<Rightarrow>
       sbind (pending_events E [(event_type, None)]) (\<lambda>events.
       ret [(last events)\<lparr>ev_data := JObj [(''latencyMilliseconds'', JNum (unat (wd_latency_milliseconds record))),
              (''backlog'', JNum (unat backlog))]\<rparr>]))"

definition put_webhook_delivery :: "'db env \<Rightarrow> WebhookDeliveryRecord \<Rightarrow> ('db, unit) sm" where
  "put_webhook_delivery E record =
     with_snapshot_read (with_mutation (
       sbind (webhook_delivery E (wd_id record)) (\<lambda>previous.
       sbind (fail_if (case previous of None \<Rightarrow> False
           | Some p \<Rightarrow> is_terminal_delivery (wd_status p) \<and> \<not> is_terminal_delivery (wd_status record))
         (Bail ''a terminal webhook delivery cannot return to a pending state'')) (\<lambda>_.
       let was_open = (case previous of None \<Rightarrow> False | Some p \<Rightarrow> is_open_delivery (wd_status p));
           is_open = is_open_delivery (wd_status record) in
       sbind (webhook_delivery_backlog E) (\<lambda>backlog.
       sbind (lift_result (next_backlog was_open is_open backlog)) (\<lambda>backlog.
       sbind (delivery_events E previous record backlog) (\<lambda>events.
       commit E [SET (delivery_key E (wd_id record)) (VDelivery record),
                 SET (delivery_event_key (wd_webhook_id record) (wd_event_sequence record)) (VStr (uuid_text E (wd_id record))),
                 SET DELIVERY_BACKLOG_KEY (VNum backlog)] events)))))))"

text \<open>The loop that picks the deliveries to prune, up to the limit.\<close>

definition prunable :: "u64 \<Rightarrow> WebhookDeliveryRecord \<Rightarrow> bool" where
  "prunable cutoff record \<longleftrightarrow> is_terminal_delivery (wd_status record) \<and>
     (case wd_completed_at record of None \<Rightarrow> False | Some completed \<Rightarrow> completed < cutoff)"

fun expired_deliveries :: "'db env \<Rightarrow> u64 \<Rightarrow> nat \<Rightarrow> uuid list \<Rightarrow> WebhookDeliveryRecord list \<Rightarrow> ('db, WebhookDeliveryRecord list) sm" where
  "expired_deliveries E cutoff limit [] expired = ret expired"
| "expired_deliveries E cutoff limit (uid # ids) expired =
     sbind (webhook_delivery E uid) (\<lambda>r. case r of
       None \<Rightarrow> expired_deliveries E cutoff limit ids expired
     | Some record \<Rightarrow>
         if prunable cutoff record then
           (let expired = expired @ [record] in
            if length expired = limit then ret expired else expired_deliveries E cutoff limit ids expired)
         else expired_deliveries E cutoff limit ids expired)"

definition prune_cmds :: "'db env \<Rightarrow> WebhookDeliveryRecord list \<Rightarrow> cmd list" where
  "prune_cmds E expired = concat (map (\<lambda>record.
     [DEL [delivery_key E (wd_id record)],
      DEL [delivery_event_key (wd_webhook_id record) (wd_event_sequence record)]]) expired)"

definition prune_webhook_deliveries_older_than :: "'db env \<Rightarrow> u64 \<Rightarrow> nat \<Rightarrow> ('db, nat) sm" where
  "prune_webhook_deliveries_older_than E cutoff limit =
     (if limit = 0 then ret 0 else
      with_snapshot_read (with_mutation (
        sbind (record_ids E ''auth:webhook-delivery:'') (\<lambda>ids.
        sbind (expired_deliveries E cutoff limit ids []) (\<lambda>expired.
        if expired = [] then ret 0 else
        sbind (db_cmd (sb_exec E (prune_cmds E expired))) (\<lambda>_. ret (length expired)))))))"

section \<open>Retention of the event log\<close>

fun slowest_cursor :: "'db env \<Rightarrow> u64 \<Rightarrow> string list \<Rightarrow> ('db, u64) sm" where
  "slowest_cursor E safe_sequence [] = ret safe_sequence"
| "slowest_cursor E safe_sequence (wid # ids) =
     sbind (webhook_cursor E wid) (\<lambda>c. slowest_cursor E (min safe_sequence c) ids)"

fun last_prunable :: "u64 \<Rightarrow> u64 \<Rightarrow> value option list \<Rightarrow> u64 option \<Rightarrow> store_error + u64 option" where
  "last_prunable cutoff sequence [] last_deleted = Inr last_deleted"
| "last_prunable cutoff sequence (v # vs) last_deleted = (case check_event sequence v of
     Inl e \<Rightarrow> Inl e
   | Inr event \<Rightarrow> if cutoff \<le> ev_occurred_at event then Inr last_deleted
       else last_prunable cutoff (sequence + 1) vs (Some sequence))"

definition event_prune_cmds :: "u64 \<Rightarrow> u64 \<Rightarrow> cmd list" where
  "event_prune_cmds minimum last_deleted =
     [DEL (map event_key (seq_range minimum last_deleted)), SET event_min_key (VNum (saturating_add last_deleted 1))]"

definition prune_events_older_than :: "'db env \<Rightarrow> u64 \<Rightarrow> u64 \<Rightarrow> ('db, u64) sm" where
  "prune_events_older_than E cutoff maximum =
     (if maximum = 0 then ret 0 else
      with_snapshot_write (with_mutation (
        sbind (latest_event_sequence E) (\<lambda>latest.
        sbind (webhooks E) (\<lambda>records.
        sbind (get_json E as_num ''analytics:projector-cursor'') (\<lambda>projector.
        let safe = (case projector of None \<Rightarrow> latest | Some c \<Rightarrow> min latest c) in
        sbind (slowest_cursor E safe (map wh_id records)) (\<lambda>safe.
        sbind (minimum_event_sequence E) (\<lambda>minimum.
        if safe < minimum then ret 0 else
        let end_seq = min safe (saturating_add minimum (maximum - 1)) in
        sbind (db_cmd (sb_mget E (map event_key (seq_range minimum end_seq)))) (\<lambda>values.
        sbind (lift_result (last_prunable cutoff minimum values None)) (\<lambda>last_deleted. case last_deleted of
          None \<Rightarrow> ret 0
        | Some last_deleted \<Rightarrow>
            sbind (db_cmd (sb_exec E (event_prune_cmds minimum last_deleted))) (\<lambda>_.
            ret (last_deleted - minimum + 1))))))))))))"

section \<open>The delivery backlog\<close>

definition open_deliveries :: "'db env \<Rightarrow> db_view \<Rightarrow> uuid set" where
  "open_deliveries E v = {uid. \<exists>r. v (delivery_key E uid) = Some (VDelivery r) \<and> is_open_delivery (wd_status r)}"

definition backlog_of :: "db_view \<Rightarrow> u64" where
  "backlog_of v = (case v DELIVERY_BACKLOG_KEY of Some (VNum n) \<Rightarrow> n | _ \<Rightarrow> 0)"

definition deliveries_ok :: "'db env \<Rightarrow> db_view \<Rightarrow> bool" where
  "deliveries_ok E v \<longleftrightarrow>
     (\<forall>uid x. v (delivery_key E uid) = Some x \<longrightarrow> (\<exists>r. x = VDelivery r \<and> wd_id r = uid)) \<and>
     unat (backlog_of v) = card (open_deliveries E v)"

definition delivery_at :: "'db env \<Rightarrow> db_view \<Rightarrow> uuid \<Rightarrow> WebhookDeliveryRecord option" where
  "delivery_at E v uid = Option.bind (v (delivery_key E uid)) as_delivery"

definition was_open :: "WebhookDeliveryRecord option \<Rightarrow> bool" where
  "was_open previous \<longleftrightarrow> (case previous of None \<Rightarrow> False | Some p \<Rightarrow> is_open_delivery (wd_status p))"

definition delivery_inputs :: "WebhookDeliveryRecord option \<Rightarrow> WebhookDeliveryRecord \<Rightarrow> event_input list" where
  "delivery_inputs previous record = (case delivery_transition_event previous record of None \<Rightarrow> [] | Some ty \<Rightarrow> [(ty, None)])"

text \<open>What recording a delivery changes.\<close>

definition delivery_put :: "'db env \<Rightarrow> db_view \<Rightarrow> WebhookDeliveryRecord \<Rightarrow> db_view \<Rightarrow> bool" where
  "delivery_put E v record m \<longleftrightarrow> (\<exists>n. next_backlog (was_open (delivery_at E v (wd_id record))) (is_open_delivery (wd_status record)) (backlog_of v) = Inr n \<and>
     (\<forall>p. delivery_at E v (wd_id record) = Some p \<longrightarrow> is_terminal_delivery (wd_status p) \<longrightarrow> is_terminal_delivery (wd_status record)) \<and>
     m = v(delivery_key E (wd_id record) \<mapsto> VDelivery record,
           delivery_event_key (wd_webhook_id record) (wd_event_sequence record) \<mapsto> VStr (uuid_text E (wd_id record)),
           DELIVERY_BACKLOG_KEY \<mapsto> VNum n))"

definition due :: "'db env \<Rightarrow> db_view \<Rightarrow> u64 \<Rightarrow> WebhookDeliveryRecord \<Rightarrow> bool" where
  "due E v cutoff r \<longleftrightarrow> prunable cutoff r \<and> (\<exists>uid. delivery_at E v uid = Some r)"

definition deliveries_pruned :: "'db env \<Rightarrow> db_view \<Rightarrow> u64 \<Rightarrow> nat \<Rightarrow> db_view \<Rightarrow> bool" where
  "deliveries_pruned E v cutoff n m \<longleftrightarrow> (\<exists>rs. length rs = n \<and> m = apply_cmds (prune_cmds E rs) v \<and>
     list_all (due E v cutoff) rs)"

lemma dueI: "delivery_at E v uid = Some r \<Longrightarrow> prunable cutoff r \<Longrightarrow> due E v cutoff r"
  by (auto simp: due_def)

lemma was_open_simps [simp]: "\<not> was_open None" "was_open (Some p) = is_open_delivery (wd_status p)"
  by (simp_all add: was_open_def)

lemma delivery_keys [simp]:
  "delivery_key E uid \<noteq> delivery_event_key wid n" "delivery_event_key wid n \<noteq> delivery_key E uid"
  "delivery_key E uid \<noteq> DELIVERY_BACKLOG_KEY" "DELIVERY_BACKLOG_KEY \<noteq> delivery_key E uid"
  "delivery_event_key wid n \<noteq> DELIVERY_BACKLOG_KEY" "DELIVERY_BACKLOG_KEY \<noteq> delivery_event_key wid n"
  by (simp_all add: delivery_key_def delivery_event_key_def)

lemma webhook_key_families [simp]:
  "\<not> event_family (webhook_key wid)" "\<not> event_family (cursor_key wid)" "\<not> event_family (delivery_key E uid)"
  "\<not> event_family (delivery_event_key wid n)" "\<not> event_family DELIVERY_BACKLOG_KEY"
  by (simp_all add: event_family_def starts_with_def webhook_key_def cursor_key_def delivery_key_def delivery_event_key_def)

lemma open_not_terminal: "is_terminal_delivery s \<longleftrightarrow> \<not> is_open_delivery s"
  by (cases s) (auto simp: is_terminal_delivery_def is_open_delivery_def)

lemma deliveries_ok_cong:
  assumes "\<And>uid. v' (delivery_key E uid) = v (delivery_key E uid)" "v' DELIVERY_BACKLOG_KEY = v DELIVERY_BACKLOG_KEY"
  shows "deliveries_ok E v' = deliveries_ok E v"
  using assms by (simp add: deliveries_ok_def open_deliveries_def backlog_of_def)

lemma logged_deliveries: "logged E v m inputs v' \<Longrightarrow> deliveries_ok E v' = deliveries_ok E m"
  by (rule deliveries_ok_cong) (simp_all add: logged_other)

context sabledb
begin

lemma delivery_key_inject [simp]: "delivery_key E u = delivery_key E u' \<longleftrightarrow> u = u'"
  by (simp add: delivery_key_def)

lemma open_deliveries_upd:
  "open_deliveries E (v(delivery_key E uid \<mapsto> VDelivery r)) =
     (if is_open_delivery (wd_status r) then insert uid (open_deliveries E v) else open_deliveries E v - {uid})"
  by (auto simp: open_deliveries_def)

lemma delivery_put_ok:
  assumes ok: "deliveries_ok E v" and p: "delivery_put E v record m"
  shows "deliveries_ok E m"
proof -
  let ?uid = "wd_id record" and ?o = "is_open_delivery (wd_status record)"
  obtain n where n: "next_backlog (was_open (delivery_at E v ?uid)) ?o (backlog_of v) = Inr n"
    and m: "m = v(delivery_key E ?uid \<mapsto> VDelivery record,
      delivery_event_key (wd_webhook_id record) (wd_event_sequence record) \<mapsto> VStr (uuid_text E ?uid), DELIVERY_BACKLOG_KEY \<mapsto> VNum n)"
    using p by (auto simp: delivery_put_def)
  have w: "was_open (delivery_at E v ?uid) \<longleftrightarrow> ?uid \<in> open_deliveries E v"
    using ok by (auto simp: was_open_def delivery_at_def open_deliveries_def deliveries_ok_def bind_eq_Some_conv split: option.splits)
  have c: "unat (backlog_of v) = card (open_deliveries E v)" using ok by (simp add: deliveries_ok_def)
  have f: "finite (open_deliveries E v)" by simp
  have o: "open_deliveries E m = (if ?o then insert ?uid (open_deliveries E v) else open_deliveries E v - {?uid})"
    unfolding open_deliveries_upd [symmetric] by (auto simp: m open_deliveries_def)
  have "unat n = card (open_deliveries E m)"
    using n unfolding w o by (auto simp: next_backlog_def c checked_add_Some checked_sub_Some unat_sub card_insert_if insert_absorb
        unat_plus_no_wrap split: if_splits option.splits)
  then show ?thesis using ok by (auto simp: deliveries_ok_def m backlog_of_def)
qed

lemma webhook_delivery_spec:
  "spec (webhook_delivery E uid) (\<lambda>y w'. keeps w w' \<and> content w' = content w \<and> y = delivery_at E (content w) uid)
     (\<lambda>_ w'. keeps w w' \<and> content w' = content w) w"
  unfolding webhook_delivery_def spec_def by (auto simp: keeps_def delivery_at_def intro!: wp_get_json)

lemma backlog_spec:
  "spec (webhook_delivery_backlog E) (\<lambda>n w'. keeps w w' \<and> content w' = content w \<and> n = backlog_of (content w))
     (\<lambda>_ w'. keeps w w' \<and> content w' = content w) w"
  unfolding webhook_delivery_backlog_def spec_def
  by (auto simp: wp_simps keeps_def backlog_of_def intro!: wp_get_json)

lemma delivery_events_spec:
  "spec (delivery_events E previous record n)
     (\<lambda>evs w'. keeps w w' \<and> content w' = content w \<and> next_events E (content w) (delivery_inputs previous record) evs)
     (\<lambda>_ w'. keeps w w' \<and> content w' = content w) w"
  unfolding delivery_events_def delivery_inputs_def spec_def
  by (auto simp: wp_simps keeps_def next_events_data intro!: wp_use [OF pending_spec] split: option.splits)
    (auto simp: next_events_def)

lemma put_webhook_delivery_spec:
  assumes "w_mutation w = Free" "w_writer w = Free"
  shows "spec (put_webhook_delivery E record)
     (\<lambda>_ w'. keeps w w' \<and> did E (delivery_put E (content w) record) (delivery_inputs (delivery_at E (content w) (wd_id record)) record) (content w) (content w'))
     (\<lambda>_ w'. keeps w w' \<and> may E (delivery_put E (content w) record) (delivery_inputs (delivery_at E (content w) (wd_id record)) record) (content w) (content w')) w"
  unfolding put_webhook_delivery_def spec_def using assms
  by (auto simp: wp_simps Let_def keeps_def
      intro!: wp_use [OF webhook_delivery_spec] wp_use [OF backlog_spec] wp_use [OF delivery_events_spec]
        wp_commit_step [where S = "\<lambda>_. delivery_put E (content w) record" and inputs = "delivery_inputs (delivery_at E (content w) (wd_id record)) record"]
      split: option.splits sum.splits)
    (auto simp: delivery_put_def)

end

lemma deliveries_prunedI [intro]:
  "list_all (due E v cutoff) rs \<Longrightarrow>
     deliveries_pruned E v cutoff (length rs) (apply_cmds (prune_cmds E rs) v)"
  "deliveries_pruned E v cutoff 0 v"
  unfolding deliveries_pruned_def by (blast, simp add: prune_cmds_def)

lemma apply_prune_cmds:
  "apply_cmds (prune_cmds E rs) v k = (if \<exists>r \<in> set rs. k = delivery_key E (wd_id r) \<or> k = delivery_event_key (wd_webhook_id r) (wd_event_sequence r)
     then None else v k)"
  by (induction rs arbitrary: v) (auto simp: prune_cmds_def)

context sabledb
begin

lemma expired_deliveries_spec:
  assumes "length expired < limit" "list_all (due E (content w) cutoff) expired"
  shows "spec (expired_deliveries E cutoff limit ids expired)
     (\<lambda>rs w'. keeps w w' \<and> content w' = content w \<and> length rs \<le> limit \<and> list_all (due E (content w) cutoff) rs)
     (\<lambda>_ w'. keeps w w' \<and> content w' = content w) w"
  using assms
proof (induction ids arbitrary: expired limit w)
  case Nil
  then show ?case by (simp add: spec_def wp_simps)
next
  case (Cons uid ids)
  have step: "spec (expired_deliveries E cutoff limit ids xs)
     (\<lambda>rs w''. keeps w w'' \<and> content w'' = content w \<and> length rs \<le> limit \<and> list_all (due E (content w) cutoff) rs)
     (\<lambda>_ w''. keeps w w'' \<and> content w'' = content w) w'"
    if "keeps w w'" "content w' = content w" "length xs < limit" "list_all (due E (content w) cutoff) xs" for xs w' limit
    by (rule spec_conseq [OF Cons.IH]) (use that in \<open>auto intro: keeps_trans\<close>)
  show ?case unfolding spec_def expired_deliveries.simps Let_def
    using Cons.prems
    by (auto simp: wp_simps dueI intro!: wp_use [OF webhook_delivery_spec] step [unfolded spec_def] split: option.splits)
qed

end

context scanning
begin

lemma prune_deliveries_spec:
  assumes "w_mutation w = Free" "w_writer w = Free"
  shows "spec (prune_webhook_deliveries_older_than E cutoff limit)
     (\<lambda>n w'. keeps w w' \<and> n \<le> limit \<and> deliveries_pruned E (content w) cutoff n (content w'))
     (\<lambda>_ w'. keeps w w' \<and> (content w' = content w \<or> (\<exists>n. deliveries_pruned E (content w) cutoff n (content w')))) w"
  unfolding prune_webhook_deliveries_older_than_def spec_def using assms
  by (auto simp: wp_simps keeps_def intro!: wp_use [OF record_ids_spec] wp_use [OF expired_deliveries_spec] wp_exec)
    (auto intro: deliveries_prunedI)

end

context sabledb
begin

lemma deliveries_pruned_ok:
  assumes ok: "deliveries_ok E v" and p: "deliveries_pruned E v cutoff n m"
  shows "deliveries_ok E m" "open_deliveries E m = open_deliveries E v"
proof -
  obtain rs where m: "m = apply_cmds (prune_cmds E rs) v" and rs: "\<And>r. r \<in> set rs \<Longrightarrow> prunable cutoff r \<and> (\<exists>uid. delivery_at E v uid = Some r)"
    using p by (auto simp: deliveries_pruned_def list_all_iff due_def)
  have own: "v (delivery_key E (wd_id r)) = Some (VDelivery r) \<and> \<not> is_open_delivery (wd_status r)" if "r \<in> set rs" for r
    using rs [OF that] ok by (auto simp: delivery_at_def bind_eq_Some_conv deliveries_ok_def prunable_def open_not_terminal)
  have k: "m (delivery_key E uid) = (if uid \<in> wd_id ` set rs then None else v (delivery_key E uid))" for uid
    by (auto simp: m apply_prune_cmds)
  show o: "open_deliveries E m = open_deliveries E v"
    by (auto simp: open_deliveries_def k dest!: own split: if_splits)
  have "m DELIVERY_BACKLOG_KEY = v DELIVERY_BACKLOG_KEY" by (simp add: m apply_prune_cmds)
  then show "deliveries_ok E m" using ok o by (simp add: deliveries_ok_def backlog_of_def k)
qed

lemma never_inconsistent:
  assumes "deliveries_ok E v"
  shows "next_backlog (was_open (delivery_at E v uid)) o' (backlog_of v) \<noteq> Inl backlog_inconsistent"
proof (cases "was_open (delivery_at E v uid)")
  case True
  then have "uid \<in> open_deliveries E v"
    by (auto simp: was_open_def delivery_at_def open_deliveries_def bind_eq_Some_conv split: option.splits)
  then have "0 < card (open_deliveries E v)" by (auto simp: card_gt_0_iff)
  then have "1 \<le> backlog_of v" using assms by (simp add: deliveries_ok_def word_le_nat_alt)
  then show ?thesis by (auto simp: next_backlog_def checked_sub_def split: option.splits)
qed (auto simp: next_backlog_def split: option.splits)

end

section \<open>Retention\<close>

definition cursor_of :: "db_view \<Rightarrow> string \<Rightarrow> u64" where
  "cursor_of v wid = (case v (cursor_key wid) of Some (VNum n) \<Rightarrow> n | _ \<Rightarrow> 0)"

definition subscribed :: "db_view \<Rightarrow> string set" where
  "subscribed v = {wid. \<exists>k r. starts_with ''auth:webhook:'' k \<and> v k = Some (VWebhook r) \<and> wh_id r = wid}"

definition events_pruned :: "db_view \<Rightarrow> u64 \<Rightarrow> u64 \<Rightarrow> u64 \<Rightarrow> db_view \<Rightarrow> bool" where
  "events_pruned v cutoff maximum n m \<longleftrightarrow> n = 0 \<and> m = v \<or>
     (\<exists>l. m = apply_cmds (event_prune_cmds (minimum_of v) l) v \<and> n = l - minimum_of v + 1 \<and> minimum_of v \<le> l \<and> l \<le> latest_of v \<and>
        unat n \<le> unat maximum \<and> (\<forall>i. minimum_of v \<le> i \<and> i \<le> l \<longrightarrow> ev_occurred_at (event_at v i) < cutoff) \<and>
        (\<forall>wid \<in> subscribed v. l \<le> cursor_of v wid))"

lemma last_prunable_range:
  assumes ok: "log_ok v" and "last_prunable cutoff a (map (v \<circ> event_key) (seq_range a b)) l0 = Inr (Some l)"
    and "minimum_of v \<le> a" "a \<le> b" "b \<le> latest_of v"
  shows "l0 = Some l \<or> a \<le> l \<and> l \<le> b \<and> (\<forall>i. a \<le> i \<and> i \<le> l \<longrightarrow> ev_occurred_at (event_at v i) < cutoff)"
  using assms(2-)
proof (induction "unat b - unat a" arbitrary: a l0)
  case 0
  then have "a = b" by (simp add: word_le_nat_alt word_unat_eq_iff)
  then show ?case using 0 log_ok_event [OF ok, of b] by (auto split: if_splits)
next
  case (Suc n)
  then have ne: "a \<noteq> b" by auto
  have lt: "unat a < unat b" using Suc.prems(3) ne by (simp add: word_le_nat_alt word_unat_eq_iff)
  then have u: "unat (a + 1) = Suc (unat a)" using unat_plus_no_wrap [of a 1] unat_u64_less [of b] by simp
  have e: "check_event a (v (event_key a)) = Inr (event_at v a)" using log_ok_event [OF ok, of a] Suc.prems by auto
  show ?case
  proof (cases "cutoff \<le> ev_occurred_at (event_at v a)")
    case True
    then show ?thesis using Suc.prems e by (simp add: seq_range_Cons [OF Suc.prems(3) ne])
  next
    case False
    then have "last_prunable cutoff (a + 1) (map (v \<circ> event_key) (seq_range (a + 1) b)) (Some a) = Inr (Some l)"
      using Suc.prems e by (simp add: seq_range_Cons [OF Suc.prems(3) ne])
    then have "Some a = Some l \<or> a + 1 \<le> l \<and> l \<le> b \<and> (\<forall>i. a + 1 \<le> i \<and> i \<le> l \<longrightarrow> ev_occurred_at (event_at v i) < cutoff)"
      by (rule Suc.hyps(1) [rotated]) (use Suc.hyps(2) Suc.prems u lt in \<open>auto simp: word_le_nat_alt\<close>)
    moreover have "a + 1 \<le> i \<or> i = a" if "a \<le> i" for i using that u by (auto simp: word_le_nat_alt word_unat_eq_iff)
    moreover have "a \<le> i" if "a + 1 \<le> i" for i using that u by (simp add: word_le_nat_alt)
    moreover have "ev_occurred_at (event_at v a) < cutoff" using False by simp
    ultimately show ?thesis using Suc.prems(3) by (metis option.inject order_antisym order_refl)
  qed
qed

lemma seq_range_split:
  assumes "a \<le> l" "l \<le> b" "l \<noteq> -1"
  shows "seq_range a b = seq_range a l @ seq_range (l + 1) b" "unat (l + 1) = Suc (unat l)"
proof -
  have n: "unat l \<noteq> 18446744073709551615"
    using assms(3) unat_minus_one_word [where 'a = 64] by (auto simp: word_unat_eq_iff)
  then show u: "unat (l + 1) = Suc (unat l)" using unat_plus_no_wrap [of l 1] unat_u64_less [of l] by simp
  have "[unat a..<Suc (unat b)] = [unat a..<Suc (unat l)] @ [Suc (unat l)..<Suc (unat b)]"
    using assms(1,2) upt_add_eq_append [of "unat a" "Suc (unat l)" "unat b - unat l"] by (simp add: word_le_nat_alt del: upt_Suc)
  then show "seq_range a b = seq_range a l @ seq_range (l + 1) b" by (simp add: seq_range_def u del: upt_Suc)
qed

lemma event_prune_view:
  fixes v :: db_view and l :: u64
  defines "m \<equiv> apply_cmds (event_prune_cmds (minimum_of v) l) v"
  shows "m event_min_key = Some (VNum (saturating_add l 1))" "m event_sequence_key = v event_sequence_key"
    "m (event_key n) = (if minimum_of v \<le> n \<and> n \<le> l then None else v (event_key n))"
    "\<not> event_family k \<Longrightarrow> m k = v k"
  unfolding m_def event_prune_cmds_def by (auto simp: set_seq_range)

lemma prune_log:
  fixes v :: db_view and l :: u64
  assumes ok: "log_ok v" and l: "minimum_of v \<le> l" "l \<le> latest_of v" "latest_of v \<noteq> -1"
  defines "m \<equiv> apply_cmds (event_prune_cmds (minimum_of v) l) v"
  shows "log_ok m" "retained m = drop (unat (l - minimum_of v + 1)) (retained v)" "unat (l - minimum_of v + 1) = Suc (unat l) - unat (minimum_of v)"
proof -
  have l1: "l \<noteq> -1" using l(2,3) word_n1_ge [of "latest_of v"] by (metis word_order.extremum_uniqueI)
  note s = seq_range_split [OF l(1,2) l1]
  note mv = event_prune_view [where v = v and l = l, folded m_def]
  have "saturating_add l 1 = l + 1" using s(2) unat_u64_less [of "l + 1"] by (simp add: saturating_add_def)
  then have mn: "minimum_of m = l + 1" "latest_of m = latest_of v" using mv(1,2) by (simp_all add: minimum_of_def latest_of_def)
  have r: "retained v = map (event_at v) (seq_range (minimum_of v) l) @ map (event_at v) (seq_range (l + 1) (latest_of v))"
    by (simp add: retained_def s(1))
  show n: "unat (l - minimum_of v + 1) = Suc (unat l) - unat (minimum_of v)"
    using l(1) s(2) unat_plus_no_wrap [of "l - minimum_of v" 1] unat_sub [OF l(1)] unat_u64_less [of "l + 1"]
    by (simp add: word_le_nat_alt)
  have "retained m = map (event_at v) (seq_range (l + 1) (latest_of v))"
    unfolding retained_def mn by (rule map_cong) (use s(2) in \<open>auto simp: set_seq_range event_at_def mv(3) word_le_nat_alt\<close>)
  then show "retained m = drop (unat (l - minimum_of v + 1)) (retained v)" unfolding n r by simp
  show "log_ok m" using ok mv l s(2) by (auto simp: log_ok_def mn word_le_nat_alt word_less_nat_alt)
qed

lemma pruned_count:
  fixes minimum maximum l s :: u64
  assumes "maximum \<noteq> 0" "minimum \<le> l" "l \<le> min s (saturating_add minimum (maximum - 1))"
  shows "unat (l - minimum + 1) \<le> unat maximum"
proof -
  have "0 < unat maximum" using assms(1) by (simp add: unat_gt_0)
  then have "unat (maximum - 1) = unat maximum - 1" using unat_sub [of 1 maximum] by (simp add: word_le_nat_alt)
  then have "unat l \<le> unat minimum + (unat maximum - 1)" using assms(3) by (auto simp: word_le_nat_alt unat_saturating_add min_def split: if_splits)
  moreover have "unat (l - minimum + 1) \<le> unat (l - minimum) + 1"
    using unat_word_ariths(1) [of "l - minimum" 1] by simp
  ultimately show ?thesis using unat_sub [OF assms(2)] \<open>0 < unat maximum\<close> by simp
qed

lemma events_prunedI:
  fixes v :: db_view
  assumes "log_ok v" "maximum \<noteq> 0" "minimum_of v \<le> s" "s \<le> latest_of v" "\<forall>wid \<in> subscribed v. s \<le> cursor_of v wid"
    and "last_prunable cutoff (minimum_of v) (map (v \<circ> event_key) (seq_range (minimum_of v) (min s (saturating_add (minimum_of v) (maximum - 1))))) None = Inr (Some l)"
  shows "events_pruned v cutoff maximum (l - minimum_of v + 1) (apply_cmds (event_prune_cmds (minimum_of v) l) v)"
proof -
  let ?e = "min s (saturating_add (minimum_of v) (maximum - 1))"
  have e: "minimum_of v \<le> ?e" "?e \<le> latest_of v" using assms(3,4) saturating_add_le by (auto simp: min_le_iff_disj)
  from last_prunable_range [OF assms(1,6) order_refl e]
  have l: "minimum_of v \<le> l" "l \<le> ?e" "\<forall>i. minimum_of v \<le> i \<and> i \<le> l \<longrightarrow> ev_occurred_at (event_at v i) < cutoff" by auto
  have "l \<le> s" "l \<le> latest_of v" using l(2) order_trans [OF l(2) e(2)] by simp_all
  moreover have "\<forall>wid \<in> subscribed v. l \<le> cursor_of v wid" using assms(5) \<open>l \<le> s\<close> by (meson order_trans)
  ultimately show ?thesis using l(1,3) pruned_count [OF assms(2) l(1,2)] unfolding events_pruned_def by blast
qed

context scanning
begin

lemma fetched_subscribed: "set ks = keys_of v ''auth:webhook:'' \<Longrightarrow> wh_id ` set (fetched as_webhook v ks) = subscribed v"
proof -
  assume ks: "set ks = keys_of v ''auth:webhook:''"
  have "r \<in> set (fetched as_webhook v ks) \<longleftrightarrow> (\<exists>k. starts_with ''auth:webhook:'' k \<and> v k = Some (VWebhook r))" for r
    unfolding set_fetched ks by (auto simp: keys_of_def)
  then show ?thesis unfolding subscribed_def by blast
qed

lemma webhooks_spec:
  "spec (webhooks E)
     (\<lambda>rs w'. keeps w w' \<and> content w' = content w \<and> sorted (map wh_id rs) \<and> set (map wh_id rs) = subscribed (content w))
     (\<lambda>_ w'. keeps w w' \<and> content w' = content w) w"
  unfolding webhooks_def spec_def
  by (auto simp: wp_simps keeps_def fetched_subscribed intro!: wp_use [OF scan_keys_spec] wp_use [OF fetch_spec])

lemma webhook_cursor_spec:
  "spec (webhook_cursor E wid) (\<lambda>n w'. keeps w w' \<and> content w' = content w \<and> n = cursor_of (content w) wid)
     (\<lambda>_ w'. keeps w w' \<and> content w' = content w) w"
  unfolding webhook_cursor_def spec_def by (auto simp: wp_simps keeps_def cursor_of_def intro!: wp_get_json)

lemma slowest_cursor_spec:
  "spec (slowest_cursor E s ids)
     (\<lambda>n w'. keeps w w' \<and> content w' = content w \<and> n \<le> s \<and> (\<forall>wid \<in> set ids. n \<le> cursor_of (content w) wid))
     (\<lambda>_ w'. keeps w w' \<and> content w' = content w) w"
proof (induction ids arbitrary: s w)
  case Nil
  then show ?case by (simp add: spec_def wp_simps)
next
  case (Cons wid ids)
  show ?case unfolding spec_def slowest_cursor.simps
    by (auto simp: wp_simps keeps_def intro!: wp_use [OF webhook_cursor_spec] wp_use [OF Cons.IH])
qed

lemma prune_events_spec:
  assumes "idle w" "log_ok (content w)"
  shows "spec (prune_events_older_than E cutoff maximum)
     (\<lambda>n w'. keeps w w' \<and> events_pruned (content w) cutoff maximum n (content w'))
     (\<lambda>_ w'. keeps w w' \<and> (\<exists>n. events_pruned (content w) cutoff maximum n (content w'))) w"
proof -
  let ?P = "\<lambda>m. \<exists>n. events_pruned (content w) cutoff maximum n m"
  have z: "events_pruned (content w) cutoff maximum' 0 (content w)" "?P (content w)" for maximum' by (auto simp: events_pruned_def)
  have i: "events_pruned (content w) cutoff maximum (l - minimum_of (content w) + 1) (apply_cmds (event_prune_cmds (minimum_of (content w)) l) (content w))"
    "?P (apply_cmds (event_prune_cmds (minimum_of (content w)) l) (content w))"
    if "maximum \<noteq> 0" "\<not> s < minimum_of (content w)" "s \<le> latest_of (content w)" "\<forall>wid \<in> subscribed (content w). s \<le> cursor_of (content w) wid"
      "last_prunable cutoff (minimum_of (content w)) (map (content w \<circ> event_key) (seq_range (minimum_of (content w))
         (min s (saturating_add (minimum_of (content w)) (maximum - 1))))) None = Inr (Some l)" for s l
    using events_prunedI [OF assms(2) that(1) _ that(3-5)] that(2) by (auto simp: not_less)
  show ?thesis unfolding prune_events_older_than_def spec_def using assms
    by (auto simp: wp_simps Let_def idle_def keeps_def z intro!: wp_use [OF latest_spec] wp_use [OF webhooks_spec] wp_get_json
        wp_use [OF slowest_cursor_spec] wp_use [OF minimum_spec] wp_mget wp_exec split: option.splits sum.splits)
      (rule i; assumption)+
qed

end

lemma events_pruned_log:
  assumes ok: "log_ok v" "latest_of v \<noteq> -1" and p: "events_pruned v cutoff maximum n m"
  shows "log_ok m" "unat n \<le> unat maximum" "retained m = drop (unat n) (retained v)"
    "e \<in> set (take (unat n) (retained v)) \<Longrightarrow> ev_occurred_at e < cutoff"
    "wid \<in> subscribed v \<Longrightarrow> event_page m (cursor_of m wid) limit = event_page v (cursor_of v wid) limit"
proof -
  have "log_ok m \<and> unat n \<le> unat maximum \<and> retained m = drop (unat n) (retained v) \<and>
    (\<forall>e \<in> set (take (unat n) (retained v)). ev_occurred_at e < cutoff) \<and> (\<forall>wid \<in> subscribed v. cursor_of m wid = cursor_of v wid \<and>
      (\<forall>e \<in> set (take (unat n) (retained v)). ev_sequence e \<le> cursor_of v wid))"
  proof (cases "n = 0 \<and> m = v")
    case False
    then obtain l where l: "m = apply_cmds (event_prune_cmds (minimum_of v) l) v" "n = l - minimum_of v + 1" "minimum_of v \<le> l" "l \<le> latest_of v"
      "unat n \<le> unat maximum" "\<forall>i. minimum_of v \<le> i \<and> i \<le> l \<longrightarrow> ev_occurred_at (event_at v i) < cutoff"
      "\<forall>wid \<in> subscribed v. l \<le> cursor_of v wid" using p by (auto simp: events_pruned_def)
    note pl = prune_log [OF ok(1) l(3,4) ok(2), folded l(1,2)]
    have l1: "l \<noteq> -1" using l(4) ok(2) word_n1_ge [of "latest_of v"] by (metis word_order.extremum_uniqueI)
    have t: "take (unat n) (retained v) = map (event_at v) (seq_range (minimum_of v) l)"
      unfolding retained_def seq_range_split(1) [OF l(3,4) l1] pl(3) by simp
    have e: "ev_sequence (event_at v i) = i" if "minimum_of v \<le> i" "i \<le> l" for i
      using log_ok_event(2) [OF ok(1) that(1)] that(2) l(4) by auto
    have "cursor_of m wid = cursor_of v wid" for wid unfolding l(1) cursor_of_def by (simp add: event_prune_view)
    then show ?thesis using pl(1,2) l(5-7) unfolding t by (auto simp: set_seq_range e)
  qed (use ok in simp)
  note all = this
  show "log_ok m" "unat n \<le> unat maximum" "retained m = drop (unat n) (retained v)" using all by blast+
  show "ev_occurred_at e < cutoff" if "e \<in> set (take (unat n) (retained v))" using all that by blast
  show "event_page m (cursor_of m wid) limit = event_page v (cursor_of v wid) limit" if "wid \<in> subscribed v"
  proof -
    let ?c = "cursor_of v wid" and ?n = "unat n"
    have "filter (\<lambda>e. ?c < ev_sequence e) (take ?n (retained v)) = []" using all that by (auto simp: filter_empty_conv not_less)
    moreover have "filter (\<lambda>e. ?c < ev_sequence e) (retained v) =
        filter (\<lambda>e. ?c < ev_sequence e) (take ?n (retained v)) @ filter (\<lambda>e. ?c < ev_sequence e) (drop ?n (retained v))"
      unfolding filter_append [symmetric] by simp
    ultimately show ?thesis using all that by (simp add: event_page_def)
  qed
qed

section \<open>Properties\<close>

text \<open>C24: the delivery backlog. Recording a delivery and pruning finished ones keep the counter equal to
  the number of open deliveries whatever fails, the counter that is read is that number, and the code's
  check for an inconsistent counter never fires.\<close>

theorem webhook_backlog_exact:
  assumes "scanning E view remaining rounds" "idle w" "deliveries_ok E (view (w_db w))"
  shows "(\<forall>record r w'. put_webhook_delivery E record w = (r, w') \<longrightarrow> r \<noteq> Stuck \<and> deliveries_ok E (view (w_db w'))) \<and>
    (\<forall>cutoff limit r w'. prune_webhook_deliveries_older_than E cutoff limit w = (r, w') \<longrightarrow>
       r \<noteq> Stuck \<and> deliveries_ok E (view (w_db w')) \<and> open_deliveries E (view (w_db w')) = open_deliveries E (view (w_db w))) \<and>
    (\<forall>n w'. webhook_delivery_backlog E w = (Ok n, w') \<longrightarrow> unat n = card (open_deliveries E (view (w_db w)))) \<and>
    (\<forall>uid is_open. next_backlog (was_open (delivery_at E (view (w_db w)) uid)) is_open (backlog_of (view (w_db w))) \<noteq> Inl backlog_inconsistent)"
proof -
  let ?v = "view (w_db w)"
  have db: "sabledb E view" using assms(1) by (simp add: scanning_def)
  have free: "w_mutation w = Free" "w_writer w = Free" using assms(2) by (simp_all add: idle_def)
  have "r \<noteq> Stuck \<and> deliveries_ok E (view (w_db w'))" if r: "put_webhook_delivery E rec w = (r, w')" for rec r w'
    using specD [OF sabledb.put_webhook_delivery_spec [OF db free] r] sabledb.delivery_put_ok [OF db assms(3)] assms(3)
    by (cases r) (auto simp: did_def may_def logged_deliveries)
  moreover have "r \<noteq> Stuck \<and> deliveries_ok E (view (w_db w')) \<and> open_deliveries E (view (w_db w')) = open_deliveries E ?v"
    if r: "prune_webhook_deliveries_older_than E cutoff limit w = (r, w')" for cutoff limit r w'
    using specD [OF scanning.prune_deliveries_spec [OF assms(1) free] r] sabledb.deliveries_pruned_ok [OF db assms(3)] assms(3)
    by (cases r) auto
  moreover have "unat n = card (open_deliveries E ?v)" if r: "webhook_delivery_backlog E w = (Ok n, w')" for n w'
    using spec_OkD [OF sabledb.backlog_spec [OF db] r] assms(3) by (simp add: deliveries_ok_def)
  ultimately show ?thesis using sabledb.never_inconsistent [OF db assms(3)] by blast
qed

definition pending_delivery :: WebhookDeliveryRecord where
  "pending_delivery = \<lparr>wd_id = 4, wd_webhook_id = ''w'', wd_event_sequence = 1, wd_event_id = 5, wd_event_type = ''account.created'',
     wd_status = WD_Pending, wd_attempt_count = 0, wd_response_status = None, wd_latency_milliseconds = 0, wd_created_at = 3,
     wd_next_attempt_at = None, wd_completed_at = None, wd_error_class = []\<rparr>"

theorem webhook_backlog_exact_witness:
  "let E = mem_env (\<lambda>_. 9); w = mem_world [] []; w' = snd (put_webhook_delivery E pending_delivery w) in
   fst (put_webhook_delivery E pending_delivery w) = Ok () \<and> deliveries_ok E (mem_view (w_db w'))"
proof -
  let ?E = "mem_env (\<lambda>_. 9)" and ?w = "mem_world [] []"
  have ok: "idle ?w" "deliveries_ok ?E (mem_view (w_db ?w))"
    by (simp_all add: mem_world_def mem_view_def idle_def deliveries_ok_def open_deliveries_def backlog_of_def)
  have r: "fst (put_webhook_delivery ?E pending_delivery ?w) = Ok ()"
    by (simp add: run_simps put_webhook_delivery_def webhook_delivery_def webhook_delivery_backlog_def next_backlog_def
        delivery_events_def delivery_transition_event_def is_open_delivery_def pending_delivery_def)
  from webhook_backlog_exact [OF memory_scan.scanning_axioms ok, THEN conjunct1, rule_format, OF run_result [OF r]] r
  show ?thesis unfolding Let_def by blast
qed

text \<open>C25: retention of the event log. Pruning removes a prefix of the retained log, at most \<open>maximum\<close> events, all
  older than the cutoff; the log stays well formed, and every webhook destination reads exactly the page it
  would have read before.\<close>

theorem retention_spares_consumers:
  assumes "scanning E view remaining rounds" "idle w" "log_ok (view (w_db w))" "latest_of (view (w_db w)) \<noteq> -1"
    and "prune_events_older_than E cutoff maximum w = (r, w')"
  shows "\<exists>n. unat n \<le> unat maximum \<and> (\<forall>count. r = Ok count \<longrightarrow> count = n) \<and> r \<noteq> Stuck \<and> log_ok (view (w_db w')) \<and>
    retained (view (w_db w')) = drop (unat n) (retained (view (w_db w))) \<and>
    (\<forall>e \<in> set (take (unat n) (retained (view (w_db w)))). ev_occurred_at e < cutoff) \<and>
    (\<forall>wid \<in> subscribed (view (w_db w)). \<forall>limit.
       event_page (view (w_db w')) (cursor_of (view (w_db w')) wid) limit = event_page (view (w_db w)) (cursor_of (view (w_db w)) wid) limit)"
proof -
  have "\<exists>n. events_pruned (view (w_db w)) cutoff maximum n (view (w_db w')) \<and> (\<forall>count. r = Ok count \<longrightarrow> count = n) \<and> r \<noteq> Stuck"
    using specD [OF scanning.prune_events_spec [OF assms(1-3)] assms(5)] by (cases r) auto
  then obtain n where n: "events_pruned (view (w_db w)) cutoff maximum n (view (w_db w'))" "\<forall>count. r = Ok count \<longrightarrow> count = n" "r \<noteq> Stuck" by blast
  show ?thesis using events_pruned_log [OF assms(3,4) n(1)] n(2,3) by blast
qed

definition old_event :: AuthEvent where
  "old_event = \<lparr>ev_sequence = 1, ev_id = 3, ev_tenant_id = ''demo'', ev_type = ''account.created'', ev_subject = None,
     ev_occurred_at = 2, ev_data = JObj []\<rparr>"

definition caught_up_webhook :: WebhookRecord where
  "caught_up_webhook = \<lparr>wh_id = ''w'', wh_name = ''n'', wh_url = ''u'', wh_status = WH_Active, wh_event_types = [],
     wh_secret = \<lparr>ews_wrapping_key_id = ''k'', ews_nonce = ''n'', ews_ciphertext = ''c''\<rparr>, wh_secret_hint = ''h'',
     wh_management_source = WH_Dashboard, wh_created_at = 1, wh_updated_at = 1, wh_last_delivery_at = None\<rparr>"

definition retention_world :: "mem world" where
  "retention_world = mem_world [(event_sequence_key, VNum 1), (event_key 1, VEvent old_event),
     (webhook_key ''w'', VWebhook caught_up_webhook), (cursor_key ''w'', VNum 1)] []"

lemma retention_world_ok: "idle retention_world" "log_ok (mem_view (w_db retention_world))" "latest_of (mem_view (w_db retention_world)) = 1"
  "minimum_of (mem_view (w_db retention_world)) = 1"
proof -
  let ?v = "mem_view (w_db retention_world)"
  have keys: "event_key n \<noteq> webhook_key i" "event_key n \<noteq> cursor_key i" for n i
    by (simp_all add: event_key_def webhook_key_def cursor_key_def)
  have v: "?v event_sequence_key = Some (VNum 1)" "?v event_min_key = None" "?v (event_key n) = (if n = 1 then Some (VEvent old_event) else None)" for n
    using keys [of n] by (simp_all add: retention_world_def mem_world_def mem_view_def) (simp_all add: webhook_key_def cursor_key_def)
  show "idle retention_world" by (simp add: retention_world_def mem_world_def idle_def)
  show l: "latest_of ?v = 1" by (simp add: latest_of_def v)
  show m: "minimum_of ?v = 1" by (simp add: minimum_of_def v)
  show "log_ok ?v" by (auto simp: log_ok_def v l m old_event_def)
qed

theorem retention_spares_consumers_witness:
  "let E = mem_env (\<lambda>_. 9); w' = snd (prune_events_older_than E 9 5 retention_world) in
   fst (prune_events_older_than E 9 5 retention_world) = Ok 1 \<and> length (retained (mem_view (w_db w'))) = 0 \<and> log_ok (mem_view (w_db w'))"
proof -
  let ?E = "mem_env (\<lambda>_. 9)" and ?w = "retention_world"
  have r: "fst (prune_events_older_than ?E 9 5 ?w) = Ok 1"
    by (simp add: run_simps prune_events_older_than_def webhooks_def retention_world_def webhook_cursor_def caught_up_webhook_def
        old_event_def webhook_key_def cursor_key_def event_prune_cmds_def starts_with_def insort_insert_key_def List.map_filter_simps)
  have "latest_of (mem_view (w_db ?w)) \<noteq> -1" by (simp add: retention_world_ok(3))
  from retention_spares_consumers [OF memory_scan.scanning_axioms retention_world_ok(1,2) this run_result [OF r]]
  have "retained (mem_view (w_db (snd (prune_events_older_than ?E 9 5 ?w)))) = drop 1 (retained (mem_view (w_db ?w)))"
    "log_ok (mem_view (w_db (snd (prune_events_older_than ?E 9 5 ?w))))" by auto
  moreover have "length (retained (mem_view (w_db ?w))) \<le> 1" by (simp add: retained_def retention_world_ok(3,4))
  ultimately show ?thesis unfolding Let_def using r by simp
qed

end
