(* ===== verification/Operators.thy ===== *)
theory Operators
  imports Accounts Listing
begin

text \<open>
  The organization record and the operator grants of the console (\<open>src/src/store/organization.rs\<close>). A
  withdrawn grant stays behind as a tombstone: \<open>grant_decision\<close> must refuse it, because a missing record
  is bootstrapped as Owner. \<open>revoked_grant\<close> is the state a demotion leaves and only a promotion clears.
\<close>

abbreviation ORGANIZATION_KEY :: string where
  "ORGANIZATION_KEY \<equiv> ''auth:organization''"

abbreviation OPERATOR_PREFIX :: string where
  "OPERATOR_PREFIX \<equiv> ''auth:operator:''"

abbreviation OPERATOR_SEEN_PREFIX :: string where
  "OPERATOR_SEEN_PREFIX \<equiv> ''auth:operator-seen:''"

definition operator_key :: "'db env \<Rightarrow> uuid \<Rightarrow> string" where
  "operator_key E uid = OPERATOR_PREFIX @ uuid_text E uid"

definition operator_seen_key :: "'db env \<Rightarrow> uuid \<Rightarrow> string" where
  "operator_seen_key E uid = OPERATOR_SEEN_PREFIX @ uuid_text E uid"

datatype GrantDecision = Honour | Deny | Bootstrap

definition grant_decision :: "OperatorRecord option \<Rightarrow> bool \<Rightarrow> GrantDecision" where
  "grant_decision stored_grant bootstrap_allowed = (case stored_grant of
     Some r \<Rightarrow> if op_revoked_at r = None then Honour else Deny
   | None \<Rightarrow> if bootstrap_allowed then Bootstrap else Deny)"

definition ensure_organization :: "'db env \<Rightarrow> string \<Rightarrow> ('db, OrganizationRecord) sm" where
  "ensure_organization E default_name =
     with_snapshot_read (
       sbind (get_json E as_organization ORGANIZATION_KEY) (\<lambda>found. case found of
         Some organization \<Rightarrow> ret organization
       | None \<Rightarrow>
           sbind (new_v4 E) (\<lambda>uid.
           sbind (now E) (\<lambda>created_at.
           let organization = \<lparr>org_id = uid, org_slug = env_tenant E, org_name = default_name, org_created_at = created_at\<rparr> in
           sbind (db_cmd (sb_setnx E ORGANIZATION_KEY (VOrganization organization) None)) (\<lambda>inserted.
           if inserted then
             sbind (append_event_within_snapshot E ''organization.created'' None) (\<lambda>_. ret organization)
           else
             sbind (get_json E as_organization ORGANIZATION_KEY) (\<lambda>found.
             ok_or (Bail ''organization disappeared during initialization'') found))))))"

definition organization :: "'db env \<Rightarrow> ('db, OrganizationRecord option) sm" where
  "organization E = get_json E as_organization ORGANIZATION_KEY"

definition update_organization :: "'db env \<Rightarrow> string \<Rightarrow> ('db, OrganizationRecord) sm" where
  "update_organization E name =
     with_snapshot_read (with_mutation (
       sbind (get_json E as_organization ORGANIZATION_KEY) (\<lambda>found.
       sbind (ok_or (Policy OrganizationMissing) found) (\<lambda>organization.
       let organization = organization\<lparr>org_name := name\<rparr> in
       sbind (pending_events E [(''organization.updated'', None)]) (\<lambda>events.
       sbind (commit E [SET ORGANIZATION_KEY (VOrganization organization)] events) (\<lambda>_.
       ret organization))))))"

definition operator :: "'db env \<Rightarrow> uuid \<Rightarrow> ('db, OperatorRecord option) sm" where
  "operator E uid = get_json E as_operator (operator_key E uid)"

definition record_operator_seen :: "'db env \<Rightarrow> uuid \<Rightarrow> ('db, unit) sm" where
  "record_operator_seen E uid =
     sbind (now E) (\<lambda>t.
     sbind (attempt (set_key E (operator_seen_key E uid) (VStr (dec_string (unat t))))) (\<lambda>_.
     ret ()))"

text \<open>\<open>str::parse::<u64>\<close>: digits after an optional plus sign, within the range of the type.\<close>

definition parse_u64 :: "string \<Rightarrow> u64 option" where
  "parse_u64 s = (let digits = (case s of c # cs \<Rightarrow> if c = CHR ''+'' then cs else s | [] \<Rightarrow> []) in
     if digits \<noteq> [] \<and> list_all is_ascii_digit digits \<and> dec_value digits < 2 ^ 64 then Some (of_nat (dec_value digits)) else None)"

definition operator_seen_at :: "'db env \<Rightarrow> uuid \<Rightarrow> ('db, u64 option) sm" where
  "operator_seen_at E uid =
     sbind (attempt (get_json E as_str (operator_seen_key E uid))) (\<lambda>r.
     ret (case r of Inr (Some s) \<Rightarrow> parse_u64 s | _ \<Rightarrow> None))"

definition ensure_operator :: "'db env \<Rightarrow> User \<Rightarrow> bool \<Rightarrow> ('db, OperatorRecord option) sm" where
  "ensure_operator E u bootstrap_allowed =
     with_snapshot_read (
       let key = operator_key E (user_id u) in
       sbind (get_json E as_operator key) (\<lambda>stored_grant. case grant_decision stored_grant bootstrap_allowed of
         Honour \<Rightarrow> sbind (record_operator_seen E (user_id u)) (\<lambda>_. ret stored_grant)
       | Deny \<Rightarrow> ret None
       | Bootstrap \<Rightarrow> with_mutation (
           sbind (now E) (\<lambda>created_at.
           let grant = \<lparr>op_user_id = user_id u, op_role = Owner, op_created_at = created_at, op_revoked_at = None\<rparr> in
           sbind (db_cmd (sb_setnx E key (VOperator grant) None)) (\<lambda>inserted.
           if inserted then
             sbind (append_event_locked E ''operator.created'' (Some (user_id u))) (\<lambda>_. ret (Some grant))
           else get_json E as_operator key)))))"

definition promote_operator :: "'db env \<Rightarrow> uuid \<Rightarrow> OperatorRoleRecord \<Rightarrow> ('db, OperatorRecord \<times> User) sm" where
  "promote_operator E uid role =
     with_snapshot_read (with_mutation (
       sbind (user E uid) (\<lambda>u.
       sbind (ok_or (Policy UserMissing) u) (\<lambda>u.
       let key = operator_key E (user_id u) in
       sbind (get_json E as_operator key) (\<lambda>existing.
       sbind (case existing of None \<Rightarrow> now E | Some r \<Rightarrow> ret (op_created_at r)) (\<lambda>created_at.
       let grant = \<lparr>op_user_id = user_id u, op_role = role, op_created_at = created_at, op_revoked_at = None\<rparr> in
       sbind (exec_and_log E [SET key (VOperator grant)] ''operator.promoted'' (Some (user_id u))) (\<lambda>_.
       ret (grant, u))))))))"

definition demote_operator :: "'db env \<Rightarrow> uuid \<Rightarrow> ('db, bool) sm" where
  "demote_operator E uid =
     with_snapshot_read (with_mutation (
       let key = operator_key E uid in
       sbind (get_json E as_operator key) (\<lambda>found. case found of
         None \<Rightarrow> ret False
       | Some grant \<Rightarrow>
           if op_revoked_at grant \<noteq> None then ret False else
           sbind (now E) (\<lambda>t.
           sbind (exec_and_log E [SET key (VOperator (grant\<lparr>op_revoked_at := Some t\<rparr>))] ''operator.demoted'' (Some uid)) (\<lambda>_.
           ret True)))))"

definition operator_listing :: "'db env \<Rightarrow> uuid \<Rightarrow> ('db, OperatorRecord \<times> User \<times> u64 option) sm" where
  "operator_listing E uid =
     sbind (operator E uid) (\<lambda>grant.
     sbind (ok_or (Bail ''operator disappeared during listing'') grant) (\<lambda>grant.
     sbind (user E uid) (\<lambda>u.
     sbind (ok_or (Bail ''operator points to an unknown user'') u) (\<lambda>u.
     sbind (operator_seen_at E uid) (\<lambda>last_authenticated_at.
     ret (grant, u, last_authenticated_at))))))"

definition operators :: "'db env \<Rightarrow> ('db, (OperatorRecord \<times> User \<times> u64 option) list) sm" where
  "operators E = sbind (record_ids E OPERATOR_PREFIX) (\<lambda>ids. smap (operator_listing E) ids)"

section \<open>Specifications\<close>

lemma operator_keys [simp]:
  "\<not> event_family (operator_key E uid)" "\<not> event_family (operator_seen_key E uid)" "\<not> event_family ORGANIZATION_KEY"
  "operator_key E uid \<noteq> operator_seen_key E uid'" "operator_seen_key E uid' \<noteq> operator_key E uid"
  by (simp_all add: event_family_def starts_with_def operator_key_def operator_seen_key_def)

definition grant_at :: "'db env \<Rightarrow> db_view \<Rightarrow> uuid \<Rightarrow> OperatorRecord option" where
  "grant_at E v uid = Option.bind (v (operator_key E uid)) as_operator"

definition marked_seen :: "'db env \<Rightarrow> db_view \<Rightarrow> uuid \<Rightarrow> db_view \<Rightarrow> bool" where
  "marked_seen E v uid v' \<longleftrightarrow> v' = v \<or> (\<exists>s. v' = v(operator_seen_key E uid \<mapsto> VStr s))"

lemma marked_seenI: "marked_seen E v uid v" "marked_seen E v uid (v(operator_seen_key E uid \<mapsto> VStr s))"
  by (auto simp: marked_seen_def)

definition new_owner :: "'db env \<Rightarrow> db_view \<Rightarrow> uuid \<Rightarrow> OperatorRecord \<Rightarrow> db_view \<Rightarrow> bool" where
  "new_owner E v uid g m \<longleftrightarrow> v (operator_key E uid) = None \<and> op_user_id g = uid \<and> op_role g = Owner \<and> op_revoked_at g = None \<and>
     m = v(operator_key E uid \<mapsto> VOperator g)"

definition withdrawn :: "'db env \<Rightarrow> db_view \<Rightarrow> uuid \<Rightarrow> db_view \<Rightarrow> bool" where
  "withdrawn E v uid m \<longleftrightarrow> (\<exists>g t. v (operator_key E uid) = Some (VOperator g) \<and> op_revoked_at g = None \<and>
     m = v(operator_key E uid \<mapsto> VOperator (g\<lparr>op_revoked_at := Some t\<rparr>)))"

definition granted :: "'db env \<Rightarrow> db_view \<Rightarrow> uuid \<Rightarrow> OperatorRoleRecord \<Rightarrow> OperatorRecord \<times> User \<Rightarrow> db_view \<Rightarrow> bool" where
  "granted E v uid role gu m \<longleftrightarrow> stored E v uid (snd gu) \<and> op_user_id (fst gu) = user_id (snd gu) \<and> op_role (fst gu) = role \<and> op_revoked_at (fst gu) = None \<and>
     m = v(operator_key E (user_id (snd gu)) \<mapsto> VOperator (fst gu))"

lemma committed_after:
  assumes "\<And>k. event_family k \<Longrightarrow> m k = v k" "committed E m m inputs evs v'"
  shows "logged E v m inputs v'"
proof -
  have "latest_of m = latest_of v" using assms(1) by (intro log_ok_cong) blast
  moreover have "apply_cmds (queue_events evs) m k = apply_cmds (queue_events evs) v k" if "event_family k" for k
    by (rule apply_cmds_cong) (rule assms(1) [OF that])
  ultimately show ?thesis using assms(2) by (auto simp: logged_def committed_def next_events_def)
qed

lemma new_owner_logged:
  assumes "new_owner E v uid g m" "committed E m m inputs evs v'"
  shows "did E (new_owner E v uid g) inputs v v'"
proof -
  have "logged E v m inputs v'" using assms(1) by (intro committed_after [OF _ assms(2)]) (auto simp: new_owner_def)
  then show ?thesis using assms(1) by (auto simp: did_def)
qed

context sabledb
begin

lemma operator_key_inject [simp]: "operator_key E u = operator_key E u' \<longleftrightarrow> u = u'"
  by (simp add: operator_key_def)

lemma record_operator_seen_spec:
  "spec (record_operator_seen E uid)
     (\<lambda>_ w'. keeps w w' \<and> marked_seen E (content w) uid (content w'))
     (\<lambda>_ _. False) w"
  unfolding record_operator_seen_def set_key_def spec_def
  by (auto simp: wp_simps keeps_def intro!: wp_exec marked_seenI)

lemma ensure_operator_spec:
  assumes "w_mutation w = Free" "w_writer w = Free"
  shows "spec (ensure_operator E u allowed)
     (\<lambda>x w'. keeps w w' \<and> (case grant_decision (grant_at E (content w) (user_id u)) allowed of
          Honour \<Rightarrow> x = grant_at E (content w) (user_id u) \<and> marked_seen E (content w) (user_id u) (content w')
        | Deny \<Rightarrow> x = None \<and> content w' = content w
        | Bootstrap \<Rightarrow> (\<exists>g. x = Some g \<and> did E (new_owner E (content w) (user_id u) g) [(''operator.created'', Some (user_id u))] (content w) (content w'))))
     (\<lambda>_ w'. keeps w w' \<and> (content w' = content w \<or> grant_decision (grant_at E (content w) (user_id u)) allowed = Bootstrap \<and>
        may_part E (\<lambda>m. \<exists>g. new_owner E (content w) (user_id u) g m) [(''operator.created'', Some (user_id u))] (content w) (content w'))) w"
proof -
  let ?v = "content w" and ?k = "operator_key E (user_id u)" and ?in = "[(''operator.created'', Some (user_id u))]"
  let ?m = "\<lambda>t. ?v(?k \<mapsto> VOperator \<lparr>op_user_id = user_id u, op_role = Owner, op_created_at = t, op_revoked_at = None\<rparr>)"
  have n: "new_owner E ?v (user_id u) \<lparr>op_user_id = user_id u, op_role = Owner, op_created_at = t, op_revoked_at = None\<rparr> (?m t)" if "?v ?k = None" for t
    using that by (simp add: new_owner_def)
  have d: "\<exists>g. new_owner E ?v (user_id u) g (?m t)" if "?v ?k = None" for t using n [OF that] by blast
  have p: "may_part E (\<lambda>m. \<exists>g. new_owner E ?v (user_id u) g m) ?in ?v v'" if "maybe_committed E (?m t) (?m t) ?in v'" "?v ?k = None" for t v'
  proof -
    have "did E (\<lambda>m. \<exists>g. new_owner E ?v (user_id u) g m) ?in ?v v'" if "committed E (?m t) (?m t) ?in evs v'" for evs
      using new_owner_logged [OF n [OF \<open>?v ?k = None\<close>] that] by (auto simp: did_def)
    then show ?thesis using that d [of t] by (auto simp: may_part_def maybe_committed_def)
  qed
  have q: "may_part E (\<lambda>m. \<exists>g. new_owner E ?v (user_id u) g m) ?in ?v (?m t)" if "?v ?k = None" for t
    using d [OF that] by (simp add: may_part_def)
  show ?thesis unfolding ensure_operator_def spec_def using assms
    by (auto simp: wp_simps Let_def keeps_def grant_at_def grant_decision_def
        intro!: wp_get_json wp_use [OF record_operator_seen_spec] wp_setnx wp_use [OF append_event_locked_spec]
        split: if_splits)
      (use p q new_owner_logged [OF n] in blast)+
qed

lemma demote_operator_spec:
  assumes "w_mutation w = Free" "w_writer w = Free"
  shows "spec (demote_operator E uid)
     (\<lambda>b w'. keeps w w' \<and> (if b then did E (withdrawn E (content w) uid) [(''operator.demoted'', Some uid)] (content w) (content w')
        else content w' = content w \<and> (\<forall>x. content w (operator_key E uid) = Some x \<longrightarrow> (\<exists>g. x = VOperator g \<and> op_revoked_at g \<noteq> None))))
     (\<lambda>_ w'. keeps w w' \<and> may_part E (withdrawn E (content w) uid) [(''operator.demoted'', Some uid)] (content w) (content w')) w"
  unfolding demote_operator_def spec_def using assms
  by (auto simp: wp_simps Let_def keeps_def grant_at_def
      intro!: wp_get_json wp_exec_and_log_step [where S = "\<lambda>_. withdrawn E (content w) uid"] split: option.splits)
    (auto simp: withdrawn_def)

lemma promote_operator_spec:
  assumes "w_mutation w = Free" "w_writer w = Free"
  shows "spec (promote_operator E uid role)
     (\<lambda>gu w'. keeps w w' \<and> did E (granted E (content w) uid role gu) [(''operator.promoted'', Some (user_id (snd gu)))] (content w) (content w'))
     (\<lambda>_ w'. keeps w w' \<and> (content w' = content w \<or>
        (\<exists>subject. may_part E (\<lambda>m. \<exists>gu. granted E (content w) uid role gu m) [(''operator.promoted'', subject)] (content w) (content w')))) w"
  unfolding promote_operator_def spec_def using assms
  by (auto simp: wp_simps Let_def keeps_def
      intro!: wp_use [OF user_spec] wp_get_json wp_exec_and_log_step [where S = "granted E (content w) uid role"] split: option.splits)
    (simp add: granted_def | (erule allE, erule notE, assumption))+

end

section \<open>Properties\<close>

text \<open>C26: operator access. A request is granted only on a live stored grant, or by creating the first Owner
  grant of an allowlisted account that has no record; once a grant was withdrawn, no request of that
  account is granted, allowlisted or not, and none changes the record.\<close>

theorem operator_access_exact:
  assumes "sabledb E view" "idle w"
  shows "(\<forall>u allowed g w'. ensure_operator E u allowed w = (Ok (Some g), w') \<longrightarrow> op_revoked_at g = None \<and>
      (view (w_db w) (operator_key E (user_id u)) = Some (VOperator g) \<or>
       view (w_db w) (operator_key E (user_id u)) = None \<and> allowed \<and> op_role g = Owner \<and>
         view (w_db w') (operator_key E (user_id u)) = Some (VOperator g))) \<and>
    (\<forall>uid b w1. demote_operator E uid w = (Ok b, w1) \<and> view (w_db w) (operator_key E uid) \<noteq> None \<longrightarrow>
      (\<forall>u allowed r w2. user_id u = uid \<and> ensure_operator E u allowed w1 = (r, w2) \<longrightarrow>
         (r = Ok None \<or> (\<exists>e. r = Err e)) \<and> view (w_db w2) = view (w_db w1)))"
proof (intro conjI allI impI)
  let ?v = "view (w_db w)"
  have free: "w_mutation w = Free" "w_writer w = Free" using assms(2) by (simp_all add: idle_def)
  {
    fix u allowed g w' assume r: "ensure_operator E u allowed w = (Ok (Some g), w')"
    let ?k = "operator_key E (user_id u)"
    note o = spec_OkD [OF sabledb.ensure_operator_spec [OF assms(1) free] r, THEN conjunct2]
    show "op_revoked_at g = None" "?v ?k = Some (VOperator g) \<or> ?v ?k = None \<and> allowed \<and> op_role g = Owner \<and> view (w_db w') ?k = Some (VOperator g)"
      using o by (auto simp: grant_decision_def grant_at_def did_def new_owner_def bind_eq_Some_conv dest!: logged_other [of _ _ _ _ _ ?k]
          split: option.splits if_splits)
  }
  fix uid b w1 u allowed r w2
  assume d: "demote_operator E uid w = (Ok b, w1) \<and> ?v (operator_key E uid) \<noteq> None" and r: "user_id u = uid \<and> ensure_operator E u allowed w1 = (r, w2)"
  note dm = spec_OkD [OF sabledb.demote_operator_spec [OF assms(1) free] conjunct1 [OF d]]
  have k: "keeps w w1" using dm by blast
  obtain g where g: "view (w_db w1) (operator_key E uid) = Some (VOperator g)" "op_revoked_at g \<noteq> None"
  proof (cases b)
    case True
    then obtain m where m: "withdrawn E ?v uid m" "logged E ?v m [(''operator.demoted'', Some uid)] (view (w_db w1))" using dm by (auto simp: did_def)
    show thesis using m(1) logged_other [OF m(2), of "operator_key E uid"] by (auto simp: withdrawn_def intro: that)
  next
    case False
    then obtain g' where "view (w_db w1) (operator_key E uid) = Some (VOperator g')" "op_revoked_at g' \<noteq> None" using dm d by auto
    then show thesis by (rule that)
  qed
  have deny: "grant_decision (grant_at E (view (w_db w1)) (user_id u)) allowed = Deny" using g r by (simp add: grant_at_def grant_decision_def)
  have free1: "w_mutation w1 = Free" "w_writer w1 = Free" using k free by (simp_all add: keeps_def)
  note o = specD [OF sabledb.ensure_operator_spec [OF assms(1) free1] conjunct2 [OF r], unfolded deny GrantDecision.case]
  show "r = Ok None \<or> (\<exists>e. r = Err e)" using o by (cases r) auto
  show "view (w_db w2) = view (w_db w1)" using o by (cases r) auto
qed

definition owner_world :: "mem world" where
  "owner_world = mem_world [(operator_key (mem_env (\<lambda>_. 9)) 7,
     VOperator \<lparr>op_user_id = 7, op_role = Auditor, op_created_at = 3, op_revoked_at = None\<rparr>)] []"

theorem operator_access_exact_witness:
  "let E = mem_env (\<lambda>_. 9); w1 = snd (demote_operator E 7 owner_world) in
   (\<exists>g. fst (ensure_operator E alice False owner_world) = Ok (Some g) \<and> op_revoked_at g = None) \<and>
   fst (demote_operator E 7 owner_world) = Ok True \<and>
   (fst (ensure_operator E alice True w1) = Ok None \<or> (\<exists>e. fst (ensure_operator E alice True w1) = Err e))"
proof -
  let ?E = "mem_env (\<lambda>_. 9)" and ?w = owner_world and ?g = "\<lparr>op_user_id = 7, op_role = Auditor, op_created_at = 3, op_revoked_at = None\<rparr>"
  have a: "user_id alice = 7" by (simp add: alice_def)
  have i: "idle ?w" "mem_view (w_db ?w) (operator_key ?E 7) \<noteq> None"
    by (simp_all add: owner_world_def mem_world_def mem_view_def idle_def)
  note t = operator_access_exact [OF memory.sabledb_axioms i(1)]
  have r: "fst (ensure_operator ?E alice False ?w) = Ok (Some ?g)"
    by (simp add: run_simps ensure_operator_def owner_world_def a grant_decision_def record_operator_seen_def)
  have d: "fst (demote_operator ?E 7 ?w) = Ok True"
    by (simp add: run_simps demote_operator_def owner_world_def operator_key_def)
  have "op_revoked_at ?g = None" using t [THEN conjunct1, rule_format, OF run_result [OF r]] by blast
  moreover have "fst (ensure_operator ?E alice True (snd (demote_operator ?E 7 ?w))) = Ok None \<or>
      (\<exists>e. fst (ensure_operator ?E alice True (snd (demote_operator ?E 7 ?w))) = Err e)"
    using t [THEN conjunct2, rule_format, OF conjI [OF run_result [OF d] i(2)] conjI [OF a prod.collapse [symmetric]]] by blast
  ultimately show ?thesis unfolding Let_def using r d by blast
qed

end
