(* ===== verification/ServiceAccounts.thy ===== *)
theory ServiceAccounts
  imports Listing
begin

text \<open>
  Service principals, their credentials and the exchange of a credential for scopes
  (\<open>src/src/store/service_accounts.rs\<close>). A raw secret is found through a locator keyed by its hash;
  revocation marks the credential and scans for the locators that lead to it.
\<close>

abbreviation SERVICE_ACCOUNT_PREFIX :: string where
  "SERVICE_ACCOUNT_PREFIX \<equiv> ''auth:service-account:''"

abbreviation SERVICE_CREDENTIAL_PREFIX :: string where
  "SERVICE_CREDENTIAL_PREFIX \<equiv> ''auth:service-credential:''"

definition service_account_key :: "'db env \<Rightarrow> uuid \<Rightarrow> string" where
  "service_account_key E uid = SERVICE_ACCOUNT_PREFIX @ uuid_text E uid"

definition service_credential_key :: "'db env \<Rightarrow> string \<Rightarrow> string" where
  "service_credential_key E secret = SERVICE_CREDENTIAL_PREFIX @ sha256_hex E secret"

definition service_account :: "'db env \<Rightarrow> uuid \<Rightarrow> ('db, ServiceAccountRecord option) sm" where
  "service_account E uid = get_json E as_service_account (service_account_key E uid)"

definition service_accounts :: "'db env \<Rightarrow> ('db, ServiceAccountRecord list) sm" where
  "service_accounts E =
     sbind (record_ids E SERVICE_ACCOUNT_PREFIX) (\<lambda>ids.
     smap (\<lambda>uid. sbind (service_account E uid) (\<lambda>found.
       ok_or (Bail ''service account disappeared during listing'') found)) ids)"

definition create_service_account :: "'db env \<Rightarrow> string \<Rightarrow> string \<Rightarrow> string list \<Rightarrow> uuid \<Rightarrow> ('db, ServiceAccountRecord) sm" where
  "create_service_account E name description scopes created_by =
     with_snapshot_read (with_mutation (
       sbind (new_v4 E) (\<lambda>uid.
       sbind (now E) (\<lambda>created_at.
       let account = \<lparr>sa_id = uid, sa_name = name, sa_description = description, sa_status = SA_Active, sa_scopes = scopes,
             sa_credentials = [], sa_created_at = created_at, sa_created_by = created_by, sa_last_used_at = None\<rparr> in
       sbind (pending_events E [(''service_account.created'', Some uid)]) (\<lambda>events.
       sbind (commit E [SET (service_account_key E uid) (VServiceAccount account)] events) (\<lambda>_.
       ret account))))))"

definition update_service_account ::
  "'db env \<Rightarrow> uuid \<Rightarrow> string \<Rightarrow> string \<Rightarrow> ServiceAccountStatusRecord \<Rightarrow> string list \<Rightarrow> ('db, ServiceAccountRecord) sm" where
  "update_service_account E uid name description status scopes =
     with_snapshot_read (with_mutation (
       sbind (service_account E uid) (\<lambda>found.
       sbind (ok_or (Policy ServiceAccountMissing) found) (\<lambda>account.
       let account = account\<lparr>sa_name := name, sa_description := description, sa_status := status, sa_scopes := scopes\<rparr> in
       sbind (pending_events E [(''service_account.updated'', Some (sa_id account))]) (\<lambda>events.
       sbind (commit E [SET (service_account_key E uid) (VServiceAccount account)] events) (\<lambda>_.
       ret account))))))"

definition create_service_credential ::
  "'db env \<Rightarrow> uuid \<Rightarrow> string \<Rightarrow> u64 option \<Rightarrow> ('db, ServiceAccountCredentialRecord \<times> string) sm" where
  "create_service_credential E service_account_id name expires_at =
     with_snapshot_read (with_mutation (
       sbind (service_account E service_account_id) (\<lambda>found.
       sbind (ok_or (Policy ServiceAccountMissing) found) (\<lambda>account.
       sbind (random_bytes E 32) (\<lambda>random.
       let raw = ''rsa_'' @ b64url E random in
       sbind (new_v4 E) (\<lambda>credential_id.
       sbind (now E) (\<lambda>created_at.
       let credential = \<lparr>sac_id = credential_id, sac_name = name, sac_secret_hint = rev (take 6 (rev raw)), sac_created_at = created_at,
             sac_expires_at = expires_at, sac_last_used_at = None, sac_revoked_at = None\<rparr>;
           locator_key = service_credential_key E raw in
       sbind (exists_key E locator_key) (\<lambda>taken.
       sbind (fail_if taken (Bail ''service account credential collision'')) (\<lambda>_.
       let locator = \<lparr>loc_service_account_id = service_account_id, loc_credential_id = credential_id\<rparr>;
           account = account\<lparr>sa_credentials := sa_credentials account @ [credential]\<rparr> in
       sbind (pending_events E [(''service_account.credential.created'', Some service_account_id)]) (\<lambda>events.
       sbind (commit E [SET (service_account_key E service_account_id) (VServiceAccount account),
           SET locator_key (VLocator locator)] events) (\<lambda>_.
       ret (credential, raw))))))))))))"

text \<open>The scan for locators. A locator that cannot be read or decoded is skipped.\<close>

fun match_locators :: "'db env \<Rightarrow> uuid \<Rightarrow> string list \<Rightarrow> string list \<Rightarrow> 'db \<Rightarrow> string list \<times> 'db" where
  "match_locators E credential_id [] keys d = (keys, d)"
| "match_locators E credential_id (key # batch) keys d = (case sb_get E key d of (r, d') \<Rightarrow>
     match_locators E credential_id batch
       (case r of
          Inr (Some v) \<Rightarrow> (case as_locator v of
             Some locator \<Rightarrow> if loc_credential_id locator = credential_id then keys @ [key] else keys
           | None \<Rightarrow> keys)
        | _ \<Rightarrow> keys) d')"

partial_function (option) locator_keys_from :: "'db env \<Rightarrow> uuid \<Rightarrow> u64 \<Rightarrow> nat \<Rightarrow> string list \<Rightarrow> 'db \<Rightarrow>
    ((store_error + string list) \<times> 'db) option" where
  "locator_keys_from E credential_id cursor scanned keys d =
     (case sb_scan E cursor SERVICE_CREDENTIAL_PREFIX 500 d of
        (Inl e, d') \<Rightarrow> Some (Inl (Redis e), d')
      | (Inr (next_cursor, batch), d') \<Rightarrow>
          (case match_locators E credential_id batch keys d' of (keys', d'') \<Rightarrow>
             if scanned + length batch > MAX_SNAPSHOT_KEYS
             then Some (Inl (Bail ''RustyAuth service credential namespace exceeds the safety limit''), d'')
             else if next_cursor = 0 then Some (Inr keys', d'')
             else locator_keys_from E credential_id next_cursor (scanned + length batch) keys' d''))"

definition service_credential_locator_keys :: "'db env \<Rightarrow> uuid \<Rightarrow> ('db, string list) sm" where
  "service_credential_locator_keys E credential_id = (\<lambda>w. case locator_keys_from E credential_id 0 0 [] (w_db w) of
     None \<Rightarrow> (Stuck, w)
   | Some (Inl e, d) \<Rightarrow> (Err e, w\<lparr>w_db := d\<rparr>)
   | Some (Inr keys, d) \<Rightarrow> (Ok keys, w\<lparr>w_db := d\<rparr>))"

definition revoke_service_credential :: "'db env \<Rightarrow> uuid \<Rightarrow> uuid \<Rightarrow> ('db, ServiceAccountCredentialRecord) sm" where
  "revoke_service_credential E service_account_id credential_id =
     with_snapshot_read (
       sbind (service_credential_locator_keys E credential_id) (\<lambda>locator_keys.
       with_mutation (
         sbind (service_account E service_account_id) (\<lambda>found.
         sbind (ok_or (Policy ServiceAccountMissing) found) (\<lambda>account.
         sbind (ok_or (Policy ServiceCredentialMissing) (find (\<lambda>c. sac_id c = credential_id) (sa_credentials account))) (\<lambda>credential.
         sbind (if sac_revoked_at credential = None then sbind (now E) (\<lambda>t. ret (credential\<lparr>sac_revoked_at := Some t\<rparr>))
                else ret credential) (\<lambda>credential.
         let account = account\<lparr>sa_credentials := update_first (\<lambda>c. sac_id c = credential_id) (\<lambda>_. credential) (sa_credentials account)\<rparr> in
         sbind (pending_events E [(''service_account.credential.revoked'', Some service_account_id)]) (\<lambda>events.
         sbind (commit E (SET (service_account_key E service_account_id) (VServiceAccount account) #
             map (\<lambda>key. DEL [key]) locator_keys) events) (\<lambda>_.
         ret credential)))))))))"

definition credential_live :: "u64 \<Rightarrow> ServiceAccountCredentialRecord \<Rightarrow> bool" where
  "credential_live current c \<longleftrightarrow> sac_revoked_at c = None \<and>
     (case sac_expires_at c of None \<Rightarrow> True | Some expiry \<Rightarrow> expiry > current)"

definition exchange_service_credential :: "'db env \<Rightarrow> string \<Rightarrow> string list \<Rightarrow> ('db, ServiceAccountGrant) sm" where
  "exchange_service_credential E raw requested_scopes =
     (if length raw < 40 \<or> length raw > 128 \<or> \<not> starts_with ''rsa_'' raw then fail (Policy InvalidServiceCredential) else
      with_snapshot_read (with_mutation (
        sbind (get_json E as_locator (service_credential_key E raw)) (\<lambda>found.
        sbind (ok_or (Policy InvalidServiceCredential) found) (\<lambda>locator.
        sbind (service_account E (loc_service_account_id locator)) (\<lambda>found.
        sbind (ok_or (Policy InvalidServiceCredential) found) (\<lambda>account.
        sbind (fail_if (sa_status account \<noteq> SA_Active) (Policy InvalidServiceCredential)) (\<lambda>_.
        sbind (now E) (\<lambda>current.
        sbind (ok_or (Policy InvalidServiceCredential)
            (case find (\<lambda>c. sac_id c = loc_credential_id locator) (sa_credentials account) of
               Some c \<Rightarrow> if credential_live current c then Some c else None | None \<Rightarrow> None)) (\<lambda>credential.
        sbind (fail_if (list_ex (\<lambda>scope. scope \<notin> set (sa_scopes account)) requested_scopes) (Policy ServiceScopeDenied)) (\<lambda>_.
        let account = account\<lparr>sa_credentials := update_first (\<lambda>c. sac_id c = loc_credential_id locator)
                (\<lambda>c. c\<lparr>sac_last_used_at := Some current\<rparr>) (sa_credentials account), sa_last_used_at := Some current\<rparr>;
            scopes = (if requested_scopes = [] then sa_scopes account else requested_scopes) in
        sbind (pending_events E [(''service_account.credential.authenticated'', Some (sa_id account))]) (\<lambda>events.
        sbind (commit E [SET (service_account_key E (sa_id account)) (VServiceAccount account)] events) (\<lambda>_.
        ret \<lparr>grant_service_account_id = sa_id account, grant_scopes = scopes\<rparr>)))))))))))))"

section \<open>The locator scan ends\<close>

text \<open>A read between two calls of \<open>SCAN\<close> does not disturb the iteration.\<close>

locale scanning_reads = scanning E view remaining rounds
  for E :: "'db env" and view :: "'db \<Rightarrow> db_view" and remaining :: "'db \<Rightarrow> string \<Rightarrow> u64 \<Rightarrow> string set"
    and rounds :: "'db \<Rightarrow> string \<Rightarrow> u64 \<Rightarrow> nat" +
  assumes read_law: "\<And>k d r d' p c. sb_get E k d = (r, d') \<Longrightarrow> remaining d' p c = remaining d p c \<and> rounds d' p c = rounds d p c"

definition leads_to :: "db_view \<Rightarrow> uuid \<Rightarrow> string \<Rightarrow> bool" where
  "leads_to v cid k \<longleftrightarrow> starts_with SERVICE_CREDENTIAL_PREFIX k \<and> (\<exists>l. v k = Some (VLocator l) \<and> loc_credential_id l = cid)"

context scanning_reads
begin

lemma match_locators_reads:
  assumes "match_locators E cid batch keys d = (keys', d')" "\<forall>k \<in> set batch. starts_with SERVICE_CREDENTIAL_PREFIX k"
    "\<forall>k \<in> set keys. leads_to (view d) cid k"
  shows "view d' = view d \<and> rounds d' p c = rounds d p c \<and> (\<forall>k \<in> set keys'. leads_to (view d) cid k)"
  using assms
proof (induction batch arbitrary: keys d)
  case (Cons k batch)
  obtain r d1 where g: "sb_get E k d = (r, d1)" by fastforce
  define keys1 where "keys1 = (case r of Inr (Some v) \<Rightarrow> (case as_locator v of
             Some locator \<Rightarrow> if loc_credential_id locator = cid then keys @ [k] else keys
           | None \<Rightarrow> keys) | _ \<Rightarrow> keys)"
  have v1: "view d1 = view d" "rounds d1 p c = rounds d p c" "\<forall>x. r = Inr x \<longrightarrow> x = view d k"
    using get_law [OF g] read_law [OF g] by auto
  have m: "match_locators E cid batch keys1 d1 = (keys', d')" using Cons.prems(1) g by (simp add: keys1_def)
  have k1: "\<forall>k \<in> set keys1. leads_to (view d1) cid k"
    using Cons.prems(2,3) v1 by (auto simp: keys1_def leads_to_def split: sum.splits option.splits if_splits)
  show ?case using Cons.IH [OF m _ k1] Cons.prems(2) v1 by simp
qed simp

lemma locator_keys_from_ends:
  assumes "\<forall>k \<in> set keys. leads_to (view d) cid k"
  shows "\<exists>r d'. locator_keys_from E cid c n keys d = Some (r, d') \<and> view d' = view d \<and>
     (\<forall>ks. r = Inr ks \<longrightarrow> (\<forall>k \<in> set ks. leads_to (view d) cid k))"
  using assms
proof (induction "rounds d SERVICE_CREDENTIAL_PREFIX c" arbitrary: c n keys d rule: less_induct)
  case less
  obtain r d1 where sc: "sb_scan E c SERVICE_CREDENTIAL_PREFIX 500 d = (r, d1)" by fastforce
  note law = scan_law [OF sc]
  show ?case
  proof (cases r)
    case (Inl e)
    then show ?thesis using sc law by (subst locator_keys_from.simps) auto
  next
    case (Inr p1)
    obtain c1 ks where p1: "p1 = (c1, ks)" by (cases p1)
    obtain keys1 d2 where m: "match_locators E cid ks keys d1 = (keys1, d2)" by fastforce
    have v1: "view d1 = view d" using law by blast
    have m': "view d2 = view d1 \<and> rounds d2 SERVICE_CREDENTIAL_PREFIX c1 = rounds d1 SERVICE_CREDENTIAL_PREFIX c1 \<and>
        (\<forall>k \<in> set keys1. leads_to (view d1) cid k)"
      by (rule match_locators_reads [OF m]) (use law Inr p1 less.prems in auto)
    show ?thesis
    proof (cases "n + length ks > MAX_SNAPSHOT_KEYS \<or> c1 = 0")
      case True
      then show ?thesis using sc Inr p1 m m' v1 by (subst locator_keys_from.simps) auto
    next
      case False
      have "rounds d2 SERVICE_CREDENTIAL_PREFIX c1 < rounds d SERVICE_CREDENTIAL_PREFIX c" using law Inr p1 False m' by auto
      from less.hyps [OF this, of keys1 "n + length ks"] m' v1
      show ?thesis using sc Inr p1 m False by (subst locator_keys_from.simps) auto
    qed
  qed
qed

lemma locator_keys_spec:
  "spec (service_credential_locator_keys E cid)
     (\<lambda>ks w'. keeps w w' \<and> content w' = content w \<and> (\<forall>k \<in> set ks. leads_to (content w) cid k))
     (\<lambda>_ w'. keeps w w' \<and> content w' = content w) w"
proof -
  obtain r d' where "locator_keys_from E cid 0 0 [] (w_db w) = Some (r, d')" "view d' = content w"
    "\<forall>ks. r = Inr ks \<longrightarrow> (\<forall>k \<in> set ks. leads_to (content w) cid k)" using locator_keys_from_ends [of "[]"] by fastforce
  then show ?thesis by (cases r) (auto simp: service_credential_locator_keys_def spec_def wp_def keeps_def)
qed

end

interpretation memory_reads: scanning_reads "mem_env clock" mem_view "\<lambda>d p _. {k. starts_with p k \<and> mem_view d k \<noteq> None}" "\<lambda>_ _ _. 0"
  for clock
  by unfold_locales (auto simp: mem_env_sel mem_view_def elim!: mem_try_cases)

section \<open>Specifications\<close>

lemma service_keys [simp]:
  "\<not> event_family (service_account_key E uid)" "\<not> event_family (service_credential_key E raw)"
  "service_account_key E uid \<noteq> service_credential_key E' raw" "service_credential_key E' raw \<noteq> service_account_key E uid"
  by (simp_all add: event_family_def starts_with_def service_account_key_def service_credential_key_def)

lemma locator_prefix:
  assumes "starts_with SERVICE_CREDENTIAL_PREFIX k"
  shows "\<not> event_family k" "k \<noteq> service_account_key E uid"
proof -
  obtain t where "k = SERVICE_CREDENTIAL_PREFIX @ t" using assms unfolding starts_with_def by (metis append_take_drop_id)
  then show "\<not> event_family k" "k \<noteq> service_account_key E uid" by (simp_all add: event_family_def starts_with_def service_account_key_def)
qed

definition account_at :: "'db env \<Rightarrow> db_view \<Rightarrow> uuid \<Rightarrow> ServiceAccountRecord \<Rightarrow> bool" where
  "account_at E v uid a \<longleftrightarrow> v (service_account_key E uid) = Some (VServiceAccount a)"

text \<open>What creating and revoking a credential, and exchanging one at time \<open>t\<close>, change.\<close>

definition credential_created :: "'db env \<Rightarrow> db_view \<Rightarrow> uuid \<Rightarrow> string \<Rightarrow> u64 option \<Rightarrow> ServiceAccountCredentialRecord \<times> string \<Rightarrow> db_view \<Rightarrow> bool" where
  "credential_created E v said name expires = (\<lambda>(c, raw) m. (\<exists>a. account_at E v said a \<and> v (service_credential_key E raw) = None \<and>
     sac_expires_at c = expires \<and> sac_revoked_at c = None \<and> sac_name c = name \<and> (\<exists>n. raw = ''rsa_'' @ b64url E (env_rand E n 32)) \<and>
     m = v(service_account_key E said \<mapsto> VServiceAccount (a\<lparr>sa_credentials := sa_credentials a @ [c]\<rparr>),
           service_credential_key E raw \<mapsto> VLocator \<lparr>loc_service_account_id = said, loc_credential_id = sac_id c\<rparr>)))"

definition credential_revoked :: "'db env \<Rightarrow> db_view \<Rightarrow> uuid \<Rightarrow> uuid \<Rightarrow> ServiceAccountCredentialRecord \<Rightarrow> db_view \<Rightarrow> bool" where
  "credential_revoked E v said cid c m \<longleftrightarrow> (\<exists>a c0 keys. account_at E v said a \<and> find (\<lambda>c. sac_id c = cid) (sa_credentials a) = Some c0 \<and>
     (\<exists>t. c = c0\<lparr>sac_revoked_at := Some t\<rparr>) \<and> (\<forall>k \<in> set keys. leads_to v cid k) \<and>
     m = apply_cmds (SET (service_account_key E said) (VServiceAccount (a\<lparr>sa_credentials := update_first (\<lambda>c. sac_id c = cid) (\<lambda>_. c) (sa_credentials a)\<rparr>)) #
       map (\<lambda>key. DEL [key]) keys) v)"

definition exchangeable :: "'db env \<Rightarrow> db_view \<Rightarrow> string \<Rightarrow> string list \<Rightarrow> u64 \<Rightarrow> ServiceAccountRecord \<Rightarrow> uuid \<Rightarrow> bool" where
  "exchangeable E v raw requested t a cid \<longleftrightarrow> 40 \<le> length raw \<and> length raw \<le> 128 \<and> starts_with ''rsa_'' raw \<and>
     (\<exists>l c. v (service_credential_key E raw) = Some (VLocator l) \<and> account_at E v (loc_service_account_id l) a \<and> loc_credential_id l = cid \<and>
        find (\<lambda>c. sac_id c = cid) (sa_credentials a) = Some c \<and> credential_live t c) \<and>
     sa_status a = SA_Active \<and> set requested \<subseteq> set (sa_scopes a)"

definition exchanged :: "'db env \<Rightarrow> db_view \<Rightarrow> string \<Rightarrow> string list \<Rightarrow> u64 \<Rightarrow> ServiceAccountGrant \<Rightarrow> db_view \<Rightarrow> bool" where
  "exchanged E v raw requested t g m \<longleftrightarrow> (\<exists>a cid. exchangeable E v raw requested t a cid \<and>
     g = \<lparr>grant_service_account_id = sa_id a, grant_scopes = if requested = [] then sa_scopes a else requested\<rparr> \<and>
     m = v(service_account_key E (sa_id a) \<mapsto> VServiceAccount (a\<lparr>sa_credentials := update_first (\<lambda>c. sac_id c = cid)
       (\<lambda>c. c\<lparr>sac_last_used_at := Some t\<rparr>) (sa_credentials a), sa_last_used_at := Some t\<rparr>)))"

lemma exchangedI:
  assumes "\<not> length raw < 40" "\<not> 128 < length raw" "starts_with ''rsa_'' raw" "v (service_credential_key E raw) = Some (VLocator l)"
    "v (service_account_key E (loc_service_account_id l)) = Some (VServiceAccount a)"
    "find (\<lambda>c. sac_id c = loc_credential_id l) (sa_credentials a) = Some c" "credential_live t c" "sa_status a = SA_Active"
    "set requested \<subseteq> set (sa_scopes a)" "scopes = (if requested = [] then sa_scopes a else requested)"
  shows "exchanged E v raw requested t \<lparr>grant_service_account_id = sa_id a, grant_scopes = scopes\<rparr>
     (v(service_account_key E (sa_id a) \<mapsto> VServiceAccount (a\<lparr>sa_credentials := update_first (\<lambda>c. sac_id c = loc_credential_id l)
       (\<lambda>c. c\<lparr>sac_last_used_at := Some t\<rparr>) (sa_credentials a), sa_last_used_at := Some t\<rparr>)))"
  unfolding exchanged_def exchangeable_def account_at_def using assms by (auto simp: not_less)

lemma off_log_DELs: "\<forall>k \<in> set ks. \<not> event_family k \<Longrightarrow> off_log (map (\<lambda>key. DEL [key]) ks)"
  by (auto simp: off_log_def cmds_keys_def)

lemma apply_DELs: "apply_cmds (map (\<lambda>key. DEL [key]) ks) m k = (if k \<in> set ks then None else m k)"
  by (induction ks arbitrary: m) auto

context sabledb
begin

lemma wp_pending_commit:
  assumes "off_log cs"
    and "\<And>w'. keeps w w' \<Longrightarrow> did E (S x) inputs (content w) (content w') \<Longrightarrow> wp (k ()) Q w'"
    and "\<And>w' e. keeps w w' \<Longrightarrow> may E (\<lambda>m. \<exists>x. S x m) inputs (content w) (content w') \<Longrightarrow> Q (Err e) w'"
    and "\<And>w' e. keeps w w' \<Longrightarrow> content w' = content w \<Longrightarrow> R e w'"
    and "S x (apply_cmds cs (content w))"
  shows "wp (pending_events E inputs) (on_ok (\<lambda>events. wp (sbind (commit E cs events) k) Q) R T) w"
proof (rule wp_use [OF pending_spec])
  fix evs w1
  assume p: "keeps w w1 \<and> content w1 = content w \<and> next_events E (content w) inputs evs \<and> (\<forall>e \<in> set evs. ev_data e = empty_event_data)"
  have "wp (commit E cs evs) (on_ok (\<lambda>x. wp (k x) Q) (\<lambda>e. Q (Err e)) (Q Stuck)) w1"
    by (rule wp_commit_step [where S = S and x = x and inputs = inputs])
      (use p assms(1,5) in \<open>auto simp: wp_simps intro: assms(2,3) keeps_trans\<close>)
  then show "on_ok (\<lambda>events. wp (sbind (commit E cs events) k) Q) R T (Ok evs) w1" by (simp add: wp_simps)
qed (simp add: wp_simps assms(4))

lemma exchange_spec:
  assumes "w_mutation w = Free" "w_writer w = Free"
  shows "spec (exchange_service_credential E raw requested)
     (\<lambda>g w'. keeps w w' \<and> did E (exchanged E (content w) raw requested (env_clock E (w_ticks w)) g)
        [(''service_account.credential.authenticated'', Some (grant_service_account_id g))] (content w) (content w'))
     (\<lambda>_ w'. keeps w w' \<and> (\<exists>s. may E (\<lambda>m. \<exists>g. exchanged E (content w) raw requested (env_clock E (w_ticks w)) g m)
        [(''service_account.credential.authenticated'', s)] (content w) (content w'))) w"
  unfolding exchange_service_credential_def service_account_def spec_def using assms
  by (auto simp: wp_simps Let_def keeps_def
      intro!: wp_get_json wp_pending_commit [where S = "exchanged E (content w) raw requested (env_clock E (w_ticks w))"] split: option.splits)
    (assumption | (rule exI, assumption) | (rule exchangedI; (assumption | simp add: list_ex_iff subset_eq)))+

lemma create_service_credential_spec:
  assumes "w_mutation w = Free" "w_writer w = Free"
  shows "spec (create_service_credential E said name expires)
     (\<lambda>x w'. keeps w w' \<and> did E (credential_created E (content w) said name expires x)
        [(''service_account.credential.created'', Some said)] (content w) (content w'))
     (\<lambda>_ w'. keeps w w' \<and> may E (\<lambda>m. \<exists>x. credential_created E (content w) said name expires x m)
        [(''service_account.credential.created'', Some said)] (content w) (content w')) w"
  unfolding create_service_credential_def service_account_def spec_def using assms
  by (auto simp: wp_simps Let_def keeps_def
      intro!: wp_get_json wp_exists_key wp_pending_commit [where S = "credential_created E (content w) said name expires"] split: option.splits)
    (assumption, simp add: credential_created_def account_at_def, blast)

end

context scanning_reads
begin

lemma revoke_service_credential_spec:
  assumes "w_mutation w = Free" "w_writer w = Free"
  shows "spec (revoke_service_credential E said cid)
     (\<lambda>c w'. keeps w w' \<and> did E (credential_revoked E (content w) said cid c) [(''service_account.credential.revoked'', Some said)] (content w) (content w'))
     (\<lambda>_ w'. keeps w w' \<and> may E (\<lambda>m. \<exists>c. credential_revoked E (content w) said cid c m)
        [(''service_account.credential.revoked'', Some said)] (content w) (content w')) w"
proof -
  have off: "off_log (map (\<lambda>key. DEL [key]) ks)" if "\<forall>k \<in> set ks. leads_to (content w) cid k" for ks
    using that locator_prefix(1) by (intro off_log_DELs) (auto simp: leads_to_def)
  have rv: "credential_revoked E (content w) said cid c
      (apply_cmds (SET (service_account_key E said) (VServiceAccount (a\<lparr>sa_credentials := update_first (\<lambda>c. sac_id c = cid) (\<lambda>_. c) (sa_credentials a)\<rparr>)) #
         map (\<lambda>key. DEL [key]) ks) (content w))"
    if "content w (service_account_key E said) = Some (VServiceAccount a)" "find (\<lambda>c. sac_id c = cid) (sa_credentials a) = Some c0"
      "c = c0\<lparr>sac_revoked_at := Some t\<rparr>" "\<forall>k \<in> set ks. leads_to (content w) cid k" for a c c0 t ks
    unfolding credential_revoked_def account_at_def using that by blast
  have same: "c = c\<lparr>sac_revoked_at := Some t\<rparr>" if "sac_revoked_at c = Some t" for c :: ServiceAccountCredentialRecord and t
    using that by (cases c) simp
  show ?thesis
  unfolding revoke_service_credential_def service_account_def spec_def using assms
  by (auto simp: wp_simps Let_def keeps_def off simp del: apply_cmds_Cons
      intro!: wp_use [OF locator_keys_spec] wp_get_json wp_pending_commit [where S = "credential_revoked E (content w) said cid"]
      split: option.splits if_splits)
    (assumption | (rule rv, assumption, assumption, rule refl, assumption) | (rule rv, assumption, assumption, erule same, assumption))+
qed

end

section \<open>Properties\<close>


text \<open>C28: a revoked service credential is worthless. After a successful revocation no secret whose locator led to
  that credential is exchanged any more, whether or not the scan found its locator.\<close>

theorem revoked_service_credential_refused:
  assumes "scanning_reads E view remaining rounds" "idle w" "revoke_service_credential E said cid w = (Ok c, w1)"
    and "view (w_db w) (service_credential_key E raw) = Some (VLocator \<lparr>loc_service_account_id = said, loc_credential_id = cid\<rparr>)"
  shows "sac_revoked_at c \<noteq> None \<and> (\<forall>g w2. exchange_service_credential E raw requested w1 \<noteq> (Ok g, w2))"
proof -
  have db: "sabledb E view" using assms(1) by (simp add: scanning_reads_def scanning_def)
  have free: "w_mutation w = Free" "w_writer w = Free" using assms(2) by (simp_all add: idle_def)
  from spec_OkD [OF scanning_reads.revoke_service_credential_spec [OF assms(1) free] assms(3)]
  obtain m where k: "keeps w w1" and m: "credential_revoked E (view (w_db w)) said cid c m"
    "logged E (view (w_db w)) m [(''service_account.credential.revoked'', Some said)] (view (w_db w1))" by (auto simp: did_def)
  obtain a c0 keys t where a: "find (\<lambda>c. sac_id c = cid) (sa_credentials a) = Some c0" "c = c0\<lparr>sac_revoked_at := Some t\<rparr>"
    "\<forall>k \<in> set keys. leads_to (view (w_db w)) cid k"
    "m = apply_cmds (SET (service_account_key E said) (VServiceAccount (a\<lparr>sa_credentials := update_first (\<lambda>c. sac_id c = cid) (\<lambda>_. c) (sa_credentials a)\<rparr>)) #
       map (\<lambda>key. DEL [key]) keys) (view (w_db w))" using m(1) by (auto simp: credential_revoked_def)
  let ?a = "a\<lparr>sa_credentials := update_first (\<lambda>c. sac_id c = cid) (\<lambda>_. c) (sa_credentials a)\<rparr>"
  have nk: "service_account_key E said \<notin> set keys" using a(3) locator_prefix(2) unfolding leads_to_def by blast
  have acc: "view (w_db w1) (service_account_key E said) = Some (VServiceAccount ?a)"
    using logged_other [OF m(2), of "service_account_key E said"] nk by (simp add: a(4) apply_DELs)
  have loc: "view (w_db w1) (service_credential_key E raw) \<in> {None, view (w_db w) (service_credential_key E raw)}"
    using logged_other [OF m(2), of "service_credential_key E raw"] by (simp add: a(4) apply_DELs)
  have "sac_id c = cid" using find_Some_mem [OF a(1)] a(2) by simp
  then have f: "find (\<lambda>c. sac_id c = cid) (sa_credentials ?a) = Some c" using find_update_first [of "\<lambda>c. sac_id c = cid" "\<lambda>_. c" "sa_credentials a"] a(1) by simp
  have "\<not> exchangeable E (view (w_db w1)) raw requested t' a' cid'" for t' a' cid'
    using loc acc f a(2) assms(4) by (auto simp: exchangeable_def account_at_def credential_live_def)
  then have "exchange_service_credential E raw requested w1 \<noteq> (Ok g, w2)" for g w2
    using spec_OkD [OF sabledb.exchange_spec [OF db, of w1]] k free by (fastforce simp: did_def exchanged_def keeps_def)
  then show ?thesis using a(2) by simp
qed

definition service_example :: ServiceAccountRecord where
  "service_example = \<lparr>sa_id = 3, sa_name = ''ci'', sa_description = [], sa_status = SA_Active, sa_scopes = [''read'', ''write''],
     sa_credentials = [\<lparr>sac_id = 8, sac_name = ''k'', sac_secret_hint = ''h'', sac_created_at = 1, sac_expires_at = Some 60,
       sac_last_used_at = None, sac_revoked_at = None\<rparr>], sa_created_at = 1, sa_created_by = 7, sa_last_used_at = None\<rparr>"

definition service_secret :: string where
  "service_secret = ''rsa_'' @ replicate 43 CHR ''x''"

definition service_db :: "(string \<times> value) list" where
  "service_db = [(service_account_key (mem_env (\<lambda>_. 9)) 3, VServiceAccount service_example),
     (service_credential_key (mem_env (\<lambda>_. 9)) service_secret, VLocator \<lparr>loc_service_account_id = 3, loc_credential_id = 8\<rparr>)]"

definition service_world :: "mem world" where
  "service_world = mem_world service_db []"

lemma service_db_locators:
  "locator_keys_from (mem_env (\<lambda>_. 9)) 8 0 0 [] (service_db, []) = Some (Inr [service_credential_key (mem_env (\<lambda>_. 9)) service_secret], service_db, [])"
  by (subst locator_keys_from.simps) (simp add: run_simps service_db_def service_account_key_def service_credential_key_def starts_with_def)

lemma service_world_idle: "idle service_world"
  by (simp add: service_world_def mem_world_def idle_def)


theorem revoked_service_credential_refused_witness:
  "let E = mem_env (\<lambda>_. 9); w1 = snd (revoke_service_credential E 3 8 service_world) in
   (\<exists>c. fst (revoke_service_credential E 3 8 service_world) = Ok c) \<and> (\<forall>g. fst (exchange_service_credential E service_secret [] w1) \<noteq> Ok g)"
proof -
  let ?E = "mem_env (\<lambda>_. 9)"
  have s: "mem_view (w_db service_world) (service_credential_key ?E service_secret) = Some (VLocator \<lparr>loc_service_account_id = 3, loc_credential_id = 8\<rparr>)"
    by (simp add: service_world_def service_db_def mem_world_def mem_view_def)
  have "\<exists>c. fst (revoke_service_credential ?E 3 8 service_world) = Ok c"
    by (simp add: run_simps revoke_service_credential_def service_world_def service_account_def service_credential_locator_keys_def service_db_locators)
      (simp add: run_simps service_db_def service_example_def service_credential_key_def service_account_key_def)
  then obtain c where r: "fst (revoke_service_credential ?E 3 8 service_world) = Ok c" by blast
  have "fst (exchange_service_credential ?E service_secret [] (snd (revoke_service_credential ?E 3 8 service_world))) \<noteq> Ok g" for g
    using revoked_service_credential_refused [OF memory_reads.scanning_reads_axioms service_world_idle run_result [OF r] s, THEN conjunct2]
      run_result [of _ "Ok g"] by blast
  then show ?thesis unfolding Let_def using r by blast
qed

end
