(* ===== verification/Search.thy ===== *)
theory Search
  imports Accounts Listing "HOL-Library.Sublist"
begin

text \<open>
  Account listing and search (\<open>src/src/store/users/search.rs\<close>): index lookups where a criterion has an
  index, otherwise a bounded scan of the account keys in ascending id order with a resumable cursor.
  The bounded accumulation of candidate ids is equal to sorting all of them and cutting off the rest;
  the cursor of a search page always moves forward. A \<open>BTreeSet\<close> is the sorted list of its elements.
\<close>

abbreviation MAX_SEARCH_CANDIDATES :: nat where
  "MAX_SEARCH_CANDIDATES \<equiv> 2000"

record UserSearch =
  search_user_id :: "uuid option"
  search_identifier :: "IdentifierValue option"
  search_passkey_credential_id :: "string option"
  search_passkey_label :: "string option"
  search_given_name :: "string option"
  search_family_name :: "string option"
  search_display_name :: "string option"

record UserSearchPage =
  page_users :: "User list"
  page_next_after :: "uuid option"

definition search_is_empty :: "UserSearch \<Rightarrow> bool" where
  "search_is_empty s \<longleftrightarrow> search_user_id s = None \<and> search_identifier s = None \<and> search_passkey_credential_id s = None \<and>
     search_passkey_label s = None \<and> search_given_name s = None \<and> search_family_name s = None \<and> search_display_name s = None"

definition is_none_or :: "'a option \<Rightarrow> ('a \<Rightarrow> bool) \<Rightarrow> bool" where
  "is_none_or x P \<longleftrightarrow> (case x of None \<Rightarrow> True | Some y \<Rightarrow> P y)"

definition search_matches :: "UserSearch \<Rightarrow> User \<Rightarrow> bool" where
  "search_matches s u \<longleftrightarrow>
     is_none_or (search_user_id s) (\<lambda>x. user_id u = x) \<and>
     is_none_or (search_identifier s) (\<lambda>x. list_ex (\<lambda>i. ai_kind i = iv_kind x \<and> ai_value i = iv_value x) (user_identifiers u)) \<and>
     is_none_or (search_passkey_credential_id s) (\<lambda>x. list_ex (\<lambda>k. pk_id k = x) (user_passkeys u)) \<and>
     is_none_or (search_passkey_label s) (\<lambda>x. list_ex (\<lambda>k. pk_label k = x) (user_passkeys u)) \<and>
     is_none_or (search_given_name s) (\<lambda>x. given_name (user_profile u) = Some x) \<and>
     is_none_or (search_family_name s) (\<lambda>x. family_name (user_profile u) = Some x) \<and>
     is_none_or (search_display_name s) (\<lambda>x. display_name (user_profile u) = Some x)"

section \<open>Candidates\<close>

fun accumulate_candidates :: "uuid option \<Rightarrow> nat \<Rightarrow> uuid list \<Rightarrow> uuid list \<Rightarrow> uuid list" where
  "accumulate_candidates after limit [] kept = kept"
| "accumulate_candidates after limit (uid # ids) kept =
     (if (case after of Some cursor \<Rightarrow> uid \<le> cursor | None \<Rightarrow> False) then accumulate_candidates after limit ids kept
      else let kept = insort_insert uid kept in
        accumulate_candidates after limit ids (if length kept > limit then butlast kept else kept))"

fun parse_user_keys :: "'db env \<Rightarrow> string list \<Rightarrow> store_error + uuid list" where
  "parse_user_keys E [] = Inr []"
| "parse_user_keys E (key # keys) = (case strip_prefix ''auth:user:'' key of
     None \<Rightarrow> Inl (Bail ''user scan returned an invalid key'')
   | Some s \<Rightarrow> (case uuid_parse E s of
       None \<Rightarrow> Inl (Bail ''stored user key has an invalid id'')
     | Some uid \<Rightarrow> map_sum id (\<lambda>ids. uid # ids) (parse_user_keys E keys)))"

text \<open>One batch of the scan: the ids kept so far and the number of keys seen.\<close>

definition candidate_batch :: "'db env \<Rightarrow> uuid option \<Rightarrow> nat \<Rightarrow> string list \<Rightarrow> uuid list \<times> nat \<Rightarrow> store_error + uuid list \<times> nat" where
  "candidate_batch E after limit batch = (\<lambda>(ids, scanned).
     (let scanned = scanned + length batch in
      case parse_user_keys E batch of
        Inl e \<Rightarrow> Inl e
      | Inr parsed \<Rightarrow>
          let ids = accumulate_candidates after limit (ids @ parsed) [] in
          if scanned > MAX_SNAPSHOT_KEYS then Inl (Bail ''RustyAuth user namespace exceeds the one-million-key safety limit'')
          else Inr (ids, scanned)))"

definition candidate_ids :: "'db env \<Rightarrow> uuid option \<Rightarrow> nat \<Rightarrow> ('db, uuid list) sm" where
  "candidate_ids E after limit =
     sbind (scan_all E ''auth:user:'' 500 (candidate_batch E after limit) ([], 0)) (\<lambda>(ids, _). ret ids)"

section \<open>Listing and search\<close>

fun read_users :: "'db env \<Rightarrow> uuid list \<Rightarrow> User list \<Rightarrow> ('db, User list) sm" where
  "read_users E [] users = ret users"
| "read_users E (uid # ids) users =
     sbind (attempt (user E uid)) (\<lambda>r.
     read_users E ids (case r of Inr (Some u) \<Rightarrow> users @ [u] | _ \<Rightarrow> users))"

definition list_users :: "'db env \<Rightarrow> uuid option \<Rightarrow> nat \<Rightarrow> ('db, UserSearchPage) sm" where
  "list_users E after page_size =
     (if page_size = 0 \<or> page_size > 100 then fail (Bail ''user list page size must be between 1 and 100'') else
      sbind (candidate_ids E after (page_size + 1)) (\<lambda>ids.
      sbind (read_users E ids []) (\<lambda>users.
      let next_after = (if length users > page_size then Some (user_id (users ! (page_size - 1))) else None) in
      ret \<lparr>page_users = take page_size users, page_next_after = next_after\<rparr>)))"

fun examine_candidates :: "'db env \<Rightarrow> UserSearch \<Rightarrow> nat \<Rightarrow> uuid list \<Rightarrow> User list \<Rightarrow> nat \<Rightarrow> uuid option \<Rightarrow>
    ('db, User list \<times> nat \<times> uuid option) sm" where
  "examine_candidates E s page_size [] users examined last_examined = ret (users, examined, last_examined)"
| "examine_candidates E s page_size (uid # ids) users examined last_examined =
     (if examined = MAX_SEARCH_CANDIDATES then ret (users, examined, last_examined) else
      sbind (attempt (user E uid)) (\<lambda>r. case r of
        Inr (Some u) \<Rightarrow>
          if search_matches s u then
            (let users = users @ [u] in
             if length users > page_size then ret (users, examined + 1, Some uid)
             else examine_candidates E s page_size ids users (examined + 1) (Some uid))
          else examine_candidates E s page_size ids users (examined + 1) (Some uid)
      | _ \<Rightarrow> examine_candidates E s page_size ids users (examined + 1) (Some uid)))"

definition search_page_cursor :: "User list \<Rightarrow> nat \<Rightarrow> bool \<Rightarrow> uuid option \<Rightarrow> uuid option" where
  "search_page_cursor matched page_size budget_spent last_examined =
     (if length matched > page_size then (if page_size - 1 < length matched then Some (user_id (matched ! (page_size - 1))) else None)
      else if budget_spent then last_examined else None)"

definition search_users :: "'db env \<Rightarrow> UserSearch \<Rightarrow> uuid option \<Rightarrow> nat \<Rightarrow> ('db, UserSearchPage) sm" where
  "search_users E s after page_size =
     (if search_is_empty s then fail (Bail ''at least one user search criterion is required'')
      else if page_size = 0 \<or> page_size > 100 then fail (Bail ''user search page size must be between 1 and 100'')
      else
        let direct_lookup = search_user_id s \<noteq> None \<or> search_identifier s \<noteq> None \<or> search_passkey_credential_id s \<noteq> None in
        sbind (case search_user_id s of
            Some uid \<Rightarrow> user E uid
          | None \<Rightarrow> (case search_identifier s of
              Some identifier \<Rightarrow> user_by_identifier E identifier
            | None \<Rightarrow> (case search_passkey_credential_id s of
                Some credential_id \<Rightarrow> user_by_credential_id E credential_id
              | None \<Rightarrow> ret None))) (\<lambda>direct.
        if direct_lookup then
          ret \<lparr>page_users = filter (search_matches s) (filter (\<lambda>u. is_none_or after (\<lambda>cursor. user_id u > cursor))
                 (case direct of None \<Rightarrow> [] | Some u \<Rightarrow> [u])), page_next_after = None\<rparr>
        else
          sbind (candidate_ids E after MAX_SEARCH_CANDIDATES) (\<lambda>ids.
          sbind (examine_candidates E s page_size ids [] 0 None) (\<lambda>(users, examined, last_examined).
          let next_after = search_page_cursor users page_size (examined = MAX_SEARCH_CANDIDATES) last_examined in
          ret \<lparr>page_users = take page_size users, page_next_after = next_after\<rparr>))))"

section \<open>The candidates are the smallest ids after the cursor\<close>

definition after_cursor :: "uuid option \<Rightarrow> uuid \<Rightarrow> bool" where
  "after_cursor after uid \<longleftrightarrow> is_none_or after (\<lambda>cursor. uid > cursor)"

definition smallest_after :: "uuid option \<Rightarrow> nat \<Rightarrow> uuid set \<Rightarrow> uuid list" where
  "smallest_after after limit S = take limit (sorted_list_of_set {uid \<in> S. after_cursor after uid})"

lemma take_insort: "take n (insort x (take n xs)) = take n (insort x xs)"
proof (induction xs arbitrary: n)
  case (Cons y ys)
  show ?case
  proof (cases n)
    case (Suc m)
    have "take m (y # take m ys) = take m (y # ys)" by (cases m) (simp_all add: take_take min_def)
    then show ?thesis using Suc Cons.IH [of m] by simp
  qed simp
qed simp

lemma insort_last: "\<forall>y \<in> set ys. y < x \<Longrightarrow> insort x ys = ys @ [x]" for x :: "'a :: linorder"
  by (induction ys) auto

lemma take_insort_insert:
  fixes S :: "'a :: linorder set"
  assumes "finite S"
  defines "L \<equiv> sorted_list_of_set S"
  shows "take n (insort_insert x (take n L)) = take n (sorted_list_of_set (insert x S))"
proof (cases "x \<in> S")
  case False
  then have "x \<notin> set (take n L)" using assms(1) set_take_subset [of n L] unfolding L_def by auto
  then show ?thesis using False assms(1) by (simp add: insort_insert_key_def L_def take_insort)
next
  case True
  then have eq: "sorted_list_of_set (insert x S) = L" by (simp add: L_def insert_absorb)
  show ?thesis
  proof (cases "x \<in> set (take n L)")
    case in_take: True
    then show ?thesis by (simp add: eq insort_insert_key_def)
  next
    case out: False
    have mem: "x \<in> set L" using True assms(1) by (simp add: L_def)
    then have drop: "x \<in> set (drop n L)" using out by (metis append_take_drop_id set_append Un_iff)
    then have len: "length (take n L) = n" by (cases "n \<le> length L") auto
    have "sorted (take n L @ drop n L)" by (simp add: L_def)
    then have "\<forall>y \<in> set (take n L). y \<le> x" using drop unfolding sorted_append by blast
    then have "\<forall>y \<in> set (take n L). y < x" using out by (metis order_le_less)
    then show ?thesis using out len by (simp add: insort_insert_key_def insort_last eq)
  qed
qed

lemma butlast_insert:
  fixes x :: "'a :: linorder"
  assumes "length xs \<le> n"
  shows "(if length (insort_insert x xs) > n then butlast (insort_insert x xs) else insort_insert x xs) = take n (insort_insert x xs)"
proof (cases "x \<in> set xs")
  case True
  then show ?thesis using assms by (simp add: insort_insert_key_def)
next
  case False
  then have "n = length xs" if "n < length (insort_insert x xs)" using that assms by (simp add: insort_insert_key_def)
  then show ?thesis using False by (auto simp: insort_insert_key_def butlast_conv_take)
qed

lemma accumulate_candidates_ref:
  "accumulate_candidates after limit ids (smallest_after after limit S) = smallest_after after limit (S \<union> set ids)"
proof (induction ids arbitrary: S)
  case (Cons uid ids)
  show ?case
  proof (cases "after_cursor after uid")
    case False
    then have "smallest_after after limit (S \<union> set (uid # ids)) = smallest_after after limit (S \<union> set ids)"
      by (auto simp: smallest_after_def intro!: arg_cong [where f = "\<lambda>S. take limit (sorted_list_of_set S)"])
    moreover have "case after of Some cursor \<Rightarrow> uid \<le> cursor | None \<Rightarrow> False"
      using False by (auto simp: after_cursor_def is_none_or_def split: option.splits)
    ultimately show ?thesis using Cons.IH by simp
  next
    case True
    let ?k = "smallest_after after limit S"
    have n: "\<not> (case after of Some cursor \<Rightarrow> uid \<le> cursor | None \<Rightarrow> False)"
      using True by (auto simp: after_cursor_def is_none_or_def split: option.splits)
    have "take limit (insort_insert uid ?k) = take limit (sorted_list_of_set (insert uid {uid \<in> S. after_cursor after uid}))"
      unfolding smallest_after_def by (rule take_insort_insert) simp
    also have "insert uid {uid \<in> S. after_cursor after uid} = {u \<in> insert uid S. after_cursor after u}" using True by auto
    finally have "take limit (insort_insert uid ?k) = smallest_after after limit (insert uid S)" by (simp add: smallest_after_def)
    moreover have "length ?k \<le> limit" by (simp add: smallest_after_def)
    ultimately show ?thesis using n Cons.IH [of "insert uid S"] butlast_insert [of ?k limit uid] by simp
  qed
qed simp

lemma accumulate_append: "accumulate_candidates after limit (xs @ ys) kept = accumulate_candidates after limit ys (accumulate_candidates after limit xs kept)"
  by (induction xs arbitrary: kept) (auto simp: Let_def)

lemma smallest_after_empty [simp]: "smallest_after after limit {} = []"
  by (simp add: smallest_after_def)

lemma smallest_after_props:
  "sorted (smallest_after after limit S)" "distinct (smallest_after after limit S)" "length (smallest_after after limit S) \<le> limit"
  "uid \<in> set (smallest_after after limit S) \<Longrightarrow> uid \<in> S \<and> after_cursor after uid"
  by (auto simp: smallest_after_def sorted_wrt_take dest!: in_set_takeD)

lemma smallest_after_self: "smallest_after after limit (set (smallest_after after limit S)) = smallest_after after limit S"
proof -
  let ?k = "smallest_after after limit S"
  have "{uid \<in> set ?k. after_cursor after uid} = set ?k" using smallest_after_props(4) by blast
  then have "smallest_after after limit (set ?k) = take limit (sorted_list_of_set (set ?k))" by (simp add: smallest_after_def)
  also have "sorted_list_of_set (set ?k) = ?k" using smallest_after_props(1,2) by (simp add: sorted_list_of_set.idem_if_sorted_distinct)
  finally show ?thesis using smallest_after_props(3) by simp
qed

lemma accumulate_again: "accumulate_candidates after limit (smallest_after after limit S @ ids) [] = smallest_after after limit (S \<union> set ids)"
  using accumulate_candidates_ref [of after limit "smallest_after after limit S" "{}"] accumulate_candidates_ref [of after limit ids S]
  by (simp add: accumulate_append smallest_after_self)

lemma ids_of_simps:
  "ids_of E pre {} = {}" "ids_of E pre (A \<union> B) = ids_of E pre A \<union> ids_of E pre B"
  "uuid_parse E s = Some uid \<Longrightarrow> ids_of E pre (insert (pre @ s) A) = insert uid (ids_of E pre A)"
  by (auto simp: ids_of_def)

lemma parse_user_keys_set: "parse_user_keys E ks = Inr ids \<Longrightarrow> set ids = ids_of E ''auth:user:'' (set ks)"
proof (induction ks arbitrary: ids)
  case Nil
  then show ?case by (simp add: ids_of_simps)
next
  case (Cons k ks)
  obtain s where s: "strip_prefix ''auth:user:'' k = Some s" using Cons.prems by (cases "strip_prefix ''auth:user:'' k") simp_all
  obtain uid where uid: "uuid_parse E s = Some uid" using Cons.prems s by (cases "uuid_parse E s") simp_all
  obtain ids' where ids': "parse_user_keys E ks = Inr ids'" "ids = uid # ids'" using Cons.prems s uid by (cases "parse_user_keys E ks") simp_all
  have k: "k = ''auth:user:'' @ s" using s unfolding strip_prefix_Some .
  have "set ids = insert uid (ids_of E ''auth:user:'' (set ks))" using Cons.IH [OF ids'(1)] ids'(2) by simp
  also have "\<dots> = ids_of E ''auth:user:'' (set (k # ks))" unfolding k list.set(2) by (rule ids_of_simps(3) [OF uid, symmetric])
  finally show ?case .
qed

context scanning
begin

lemma ids_of_keys_of: "ids_of E pre (keys_of v pre) = all_ids E pre v"
  by (auto simp: ids_of_def keys_of_def all_ids_def)

lemma candidate_ids_spec:
  "spec (candidate_ids E after limit)
     (\<lambda>ids w'. keeps w w' \<and> content w' = content w \<and> ids = smallest_after after limit (all_ids E ''auth:user:'' (content w)))
     (\<lambda>_ w'. keeps w w' \<and> content w' = content w) w"
proof -
  note all = ids_of_keys_of [of "''auth:user:''" "content w"]
  have step: "fst p' = smallest_after after limit (ids_of E ''auth:user:'' (S \<union> set ks))"
    if p: "fst p = smallest_after after limit (ids_of E ''auth:user:'' S)" "candidate_batch E after limit ks p = Inr p'" for S p p' ks
  proof -
    obtain parsed where ps: "parse_user_keys E ks = Inr parsed" "fst p' = accumulate_candidates after limit (fst p @ parsed) []"
      using p(2) by (cases p) (auto simp: candidate_batch_def Let_def split: sum.splits if_splits)
    show ?thesis unfolding ps(2) p(1) accumulate_again ids_of_simps(2) parse_user_keys_set [OF ps(1)] ..
  qed
  have "wp (scan_all E ''auth:user:'' 500 (candidate_batch E after limit) ([], 0)) (on_ok
     (\<lambda>p w'. keeps w w' \<and> content w' = content w \<and> fst p = smallest_after after limit (all_ids E ''auth:user:'' (content w)))
     (\<lambda>_ w'. keeps w w' \<and> content w' = content w) (\<lambda>_. False)) w"
    by (rule wp_scan [where I = "\<lambda>S p. fst p = smallest_after after limit (ids_of E ''auth:user:'' S)"])
      (auto simp: keeps_def all ids_of_simps(1) intro: step)
  then have "spec (scan_all E ''auth:user:'' 500 (candidate_batch E after limit) ([], 0))
     (\<lambda>p w'. keeps w w' \<and> content w' = content w \<and> fst p = smallest_after after limit (all_ids E ''auth:user:'' (content w)))
     (\<lambda>_ w'. keeps w w' \<and> content w' = content w) w" by (simp add: spec_def)
  then show ?thesis unfolding candidate_ids_def spec_def [of "sbind _ _"]
    by (auto simp: wp_simps intro!: wp_use split: prod.splits)
qed

end

text \<open>The accounts read for some of the candidates, in their order.\<close>

definition read_for :: "'db env \<Rightarrow> db_view \<Rightarrow> uuid list \<Rightarrow> User list \<Rightarrow> bool" where
  "read_for E v ids us \<longleftrightarrow> (\<exists>ids'. subseq ids' ids \<and> list_all2 (stored E v) ids' us)"

definition last_of :: "'a list \<Rightarrow> 'a option" where
  "last_of xs = (if xs = [] then None else Some (last xs))"

lemma read_for_Nil [simp]: "read_for E v ids []"
  by (auto simp: read_for_def intro: exI [of _ "[]"])

lemma read_for_skip: "read_for E v ids us \<Longrightarrow> read_for E v (ids @ [uid]) us"
  unfolding read_for_def by (meson list_emb_prefix)

lemma read_for_snoc: "read_for E v ids us \<Longrightarrow> stored E v uid u \<Longrightarrow> read_for E v (ids @ [uid]) (us @ [u])"
  unfolding read_for_def by (metis list_all2_Cons list_all2_Nil list_all2_appendI list_emb_append_mono subseq_order.order_refl)

text \<open>The matches found in an examined part of the candidates, and its last id.\<close>

definition examined_of :: "'db env \<Rightarrow> UserSearch \<Rightarrow> db_view \<Rightarrow> uuid list \<Rightarrow> User list \<Rightarrow> uuid option \<Rightarrow> bool" where
  "examined_of E s v ids us l \<longleftrightarrow> list_all (search_matches s) us \<and>
     (\<exists>pre post. ids = pre @ post \<and> read_for E v pre us \<and> l = last_of pre)"

lemma examined_ofI: "list_all (search_matches s) us \<Longrightarrow> ids = pre @ post \<Longrightarrow> read_for E v pre us \<Longrightarrow> examined_of E s v ids us (last_of pre)"
  unfolding examined_of_def by blast

context sabledb
begin

lemma read_users_spec:
  assumes "read_for E (content w) seen users"
  shows "spec (read_users E ids users)
     (\<lambda>us w'. keeps w w' \<and> content w' = content w \<and> read_for E (content w) (seen @ ids) us)
     (\<lambda>_ _. False) w"
  using assms
proof (induction ids arbitrary: users seen w)
  case Nil
  then show ?case by (simp add: spec_def wp_simps)
next
  case (Cons uid ids)
  have step: "spec (read_users E ids us)
     (\<lambda>us w''. keeps w w'' \<and> content w'' = content w \<and> read_for E (content w) (seen @ uid # ids) us) (\<lambda>_ _. False) w'"
    if "keeps w w'" "content w' = content w" "read_for E (content w) (seen @ [uid]) us" for us w'
    by (rule spec_conseq [OF Cons.IH [of w' "seen @ [uid]"]]) (use that in \<open>auto intro: keeps_trans\<close>)
  show ?case unfolding spec_def read_users.simps
    using Cons.prems read_for_skip [OF Cons.prems] read_for_snoc [OF Cons.prems]
    by (auto simp: wp_simps intro!: wp_use [OF user_spec] step [unfolded spec_def] split: option.splits)
qed

lemma attempt_user_spec:
  "spec (attempt (user E uid)) (\<lambda>r w'. keeps w w' \<and> content w' = content w \<and> (case r of Inr (Some u) \<Rightarrow> stored E (content w) uid u | _ \<Rightarrow> True))
     (\<lambda>_ _. False) w"
  unfolding spec_def by (auto simp: wp_simps intro!: wp_use [OF user_spec] split: option.splits)

lemma examine_candidates_spec:
  assumes "read_for E (content w) seen users" "list_all (search_matches s) users" "l = last_of seen"
  shows "spec (examine_candidates E s page_size ids users n l)
     (\<lambda>r w'. keeps w w' \<and> content w' = content w \<and> examined_of E s (content w) (seen @ ids) (fst r) (snd (snd r)))
     (\<lambda>_ _. False) w"
  using assms
proof (induction ids arbitrary: users seen n l w)
  case Nil
  then show ?case by (auto simp: spec_def wp_simps intro: examined_ofI [where post = "[]"])
next
  case (Cons uid ids)
  define P where "P = (\<lambda>(r :: User list \<times> nat \<times> uuid option) w'. keeps w w' \<and> content w' = content w \<and>
    examined_of E s (content w) (seen @ uid # ids) (fst r) (snd (snd r)))"
  have stop: "P (us, n', last_of pre) w'" if "keeps w w'" "content w' = content w" "list_all (search_matches s) us" "seen @ uid # ids = pre @ post"
    "read_for E (content w) pre us" for us n' w' pre post
    using that examined_ofI [OF that(3,4,5)] unfolding P_def by simp
  have step: "spec (examine_candidates E s page_size ids us n' (Some uid)) P (\<lambda>_ _. False) w'"
    if "keeps w w'" "content w' = content w" "read_for E (content w) (seen @ [uid]) us" "list_all (search_matches s) us" for us n' w'
    by (rule spec_conseq [OF Cons.IH [of w' "seen @ [uid]"]]) (use that in \<open>auto simp: P_def last_of_def intro: keeps_trans\<close>)
  have "spec (examine_candidates E s page_size (uid # ids) users n l) P (\<lambda>_ _. False) w"
  proof (cases "n = MAX_SEARCH_CANDIDATES")
    case True
    then show ?thesis using stop [of w users seen "uid # ids"] Cons.prems by (simp add: spec_def wp_simps)
  next
    case False
    let ?k = "\<lambda>r. case r of
        Inr (Some u) \<Rightarrow> if search_matches s u then
            (if length (users @ [u]) > page_size then ret (users @ [u], n + 1, Some uid)
             else examine_candidates E s page_size ids (users @ [u]) (n + 1) (Some uid))
          else examine_candidates E s page_size ids users (n + 1) (Some uid)
      | _ \<Rightarrow> examine_candidates E s page_size ids users (n + 1) (Some uid)"
    have k: "spec (?k r) P (\<lambda>_ _. False) w1" if r: "keeps w w1" "content w1 = content w" "case r of Inr (Some u) \<Rightarrow> stored E (content w) uid u | _ \<Rightarrow> True" for r w1
    proof -
      note skip = step [OF r(1,2) read_for_skip [OF Cons.prems(1)] Cons.prems(2)]
      show ?thesis
      proof (cases "\<exists>u. r = Inr (Some u) \<and> search_matches s u")
        case True
        then obtain u where u: "r = Inr (Some u)" "search_matches s u" by blast
        have rf: "read_for E (content w) (seen @ [uid]) (users @ [u])" using read_for_snoc [OF Cons.prems(1)] r(3) u(1) by simp
        have la: "list_all (search_matches s) (users @ [u])" using Cons.prems(2) u(2) by simp
        show ?thesis using u step [OF r(1,2) rf la] stop [OF r(1,2) la _ rf, of ids "n + 1"]
          by (simp add: spec_def wp_simps last_of_def)
      next
        case False
        then show ?thesis using skip by (auto split: sum.splits option.splits)
      qed
    qed
    have eq: "examine_candidates E s page_size (uid # ids) users n l = sbind (attempt (user E uid)) ?k"
      unfolding examine_candidates.simps Let_def if_not_P [OF False] ..
    show ?thesis unfolding eq by (rule spec_bind [OF attempt_user_spec]) (use k in blast)+
  qed
  then show ?case unfolding P_def .
qed

end

section \<open>Pages\<close>

text \<open>What a page promises: at most the requested number of stored accounts after the cursor in ascending order,
  and a next cursor not before any of them which leaves strictly fewer ids to visit than the old one did.\<close>

definition page_sound :: "'db env \<Rightarrow> db_view \<Rightarrow> uuid option \<Rightarrow> nat \<Rightarrow> UserSearchPage \<Rightarrow> bool" where
  "page_sound E v after page_size page \<longleftrightarrow>
     length (page_users page) \<le> page_size \<and> sorted_wrt (<) (map user_id (page_users page)) \<and>
     (\<forall>u \<in> set (page_users page). stored E v (user_id u) u \<and> after_cursor after (user_id u)) \<and>
     (\<forall>x. page_next_after page = Some x \<longrightarrow> (\<forall>u \<in> set (page_users page). user_id u \<le> x) \<and>
        card {y. after_cursor (Some x) y} < card {y. after_cursor after y})"

lemma after_cursor_Some [simp]: "after_cursor (Some x) y \<longleftrightarrow> x < y" "after_cursor None y"
  by (simp_all add: after_cursor_def is_none_or_def)

lemma cursor_advances: "after_cursor after x \<Longrightarrow> card {y. after_cursor (Some x) y} < card {y. after_cursor after y}" for x :: uuid
  by (rule psubset_card_mono) (cases after; auto)+

lemma subseq_sorted_wrt: "subseq xs ys \<Longrightarrow> sorted_wrt P ys \<Longrightarrow> sorted_wrt P xs"
  by (induction rule: list_emb.induct) (auto dest: list_emb_set)

lemma sorted_le_last: "sorted xs \<Longrightarrow> x \<in> set xs \<Longrightarrow> x \<le> last xs"
  by (induction xs) auto

context sabledb
begin

lemma read_for_ordered:
  assumes "read_for E v ids us" "accounts_ok E v" "sorted ids" "distinct ids"
  shows "sorted_wrt (<) (map user_id us)" "set (map user_id us) \<subseteq> set ids" "\<And>u. u \<in> set us \<Longrightarrow> stored E v (user_id u) u"
proof -
  obtain ids' where ids': "subseq ids' ids" "list_all2 (stored E v) ids' us" using assms(1) by (auto simp: read_for_def)
  have st: "user_id u = uid" if "stored E v uid u" for uid u using stored_ok [OF assms(2) that] by blast
  have eq: "map user_id us = ids'" using ids'(2) by (induction rule: list_all2_induct) (auto simp: st)
  have "sorted_wrt (<) ids" using assms(3,4) by (simp add: strict_sorted_iff)
  then show "sorted_wrt (<) (map user_id us)" unfolding eq using ids'(1) by (rule subseq_sorted_wrt [rotated])
  show "set (map user_id us) \<subseteq> set ids" unfolding eq using ids'(1) by (auto dest: list_emb_set)
  show "stored E v (user_id u) u" if u: "u \<in> set us" for u
  proof -
    obtain uid where "stored E v uid u" using ids'(2) u by (auto simp: list_all2_conv_all_nth in_set_conv_nth)
    then show ?thesis using st by metis
  qed
qed

lemma page_soundI:
  assumes "accounts_ok E v" "ids = smallest_after after limit S" "pre @ post = ids" "read_for E v pre us" "n > 0"
    and "x = (if length us > n then Some (user_id (us ! (n - 1))) else l)" "l = None \<or> l = last_of pre"
  shows "page_sound E v after n \<lparr>page_users = take n us, page_next_after = x\<rparr>"
proof -
  have ids: "sorted ids" "distinct ids" "\<And>y. y \<in> set ids \<Longrightarrow> after_cursor after y" using smallest_after_props assms(2) by blast+
  then have pre: "sorted pre" "distinct pre" "\<And>y. y \<in> set pre \<Longrightarrow> after_cursor after y"
    unfolding assms(3) [symmetric] by (simp_all add: sorted_append)
  note us = read_for_ordered [OF assms(4,1) pre(1,2)]
  have af: "after_cursor after (user_id u)" if "u \<in> set us" for u using us(2) pre(3) that by auto
  have le: "user_id u \<le> user_id (us ! (n - 1))" if m: "u \<in> set (take n us)" "length us > n" for u
  proof -
    obtain i where "i < n" "u = us ! i" using m(1) unfolding in_set_conv_nth by auto
    then show ?thesis using us(1) that(2) assms(5) sorted_wrt_iff_nth_less [of "(<)" "map user_id us"]
      by (cases "i = n - 1") (auto intro!: less_imp_le)
  qed
  have last: "user_id u \<le> y \<and> after_cursor after y" if "last_of pre = Some y" "u \<in> set us" for u y
  proof -
    have y: "pre \<noteq> []" "y = last pre" using that(1) by (auto simp: last_of_def split: if_splits)
    have "user_id u \<in> set pre" using us(2) that(2) by auto
    then show ?thesis using y pre sorted_le_last by auto
  qed
  have last': "after_cursor after y" if "last_of pre = Some y" for y
    using that pre(3) by (auto simp: last_of_def split: if_splits)
  have x: "(\<forall>u \<in> set (take n us). user_id u \<le> y) \<and> after_cursor after y" if "x = Some y" for y
  proof (cases "length us > n")
    case True
    then have "y = user_id (us ! (n - 1))" using that assms(6) by simp
    moreover have "us ! (n - 1) \<in> set us" using True assms(5) by simp
    ultimately show ?thesis using le True af by blast
  next
    case False
    then have "last_of pre = Some y" using that assms(6,7) by auto
    then show ?thesis using last last' in_set_takeD by fast
  qed
  have "sorted_wrt (<) (map user_id (take n us))" using us(1) by (simp add: take_map [symmetric] sorted_wrt_take)
  then show ?thesis unfolding page_sound_def using x cursor_advances us(3) af in_set_takeD by (auto simp del: after_cursor_Some) fast+
qed

end

context sabledb
begin

lemma user_by_credential_id_spec:
  "spec (user_by_credential_id E c)
     (\<lambda>r w'. keeps w w' \<and> content w' = content w \<and> (\<forall>u. r = Some u \<longrightarrow> (\<exists>uid. stored E (content w) uid u)))
     (\<lambda>_ w'. keeps w w' \<and> content w' = content w) w"
  unfolding user_by_credential_id_def spec_def
  by (auto simp: wp_simps keeps_def parse_uuid_def intro!: wp_get_json wp_use [OF user_spec] split: option.splits sum.splits) blast

lemma direct_spec:
  "spec (case search_user_id s of Some uid \<Rightarrow> user E uid
     | None \<Rightarrow> (case search_identifier s of Some identifier \<Rightarrow> user_by_identifier E identifier
       | None \<Rightarrow> (case search_passkey_credential_id s of Some credential_id \<Rightarrow> user_by_credential_id E credential_id
         | None \<Rightarrow> ret None)))
     (\<lambda>r w'. keeps w w' \<and> content w' = content w \<and> (\<forall>u. r = Some u \<longrightarrow> (\<exists>uid. stored E (content w) uid u)))
     (\<lambda>_ w'. keeps w w' \<and> content w' = content w) w"
proof -
  have "spec (user E uid) (\<lambda>r w'. keeps w w' \<and> content w' = content w \<and> (\<forall>u. r = Some u \<longrightarrow> (\<exists>uid. stored E (content w) uid u)))
     (\<lambda>_ w'. keeps w w' \<and> content w' = content w) w" for uid
    by (rule spec_conseq [OF user_spec]) auto
  moreover have "spec (user_by_identifier E i) (\<lambda>r w'. keeps w w' \<and> content w' = content w \<and> (\<forall>u. r = Some u \<longrightarrow> (\<exists>uid. stored E (content w) uid u)))
     (\<lambda>_ w'. keeps w w' \<and> content w' = content w) w" for i
    by (rule spec_conseq [OF user_by_identifier_spec]) auto
  ultimately show ?thesis using user_by_credential_id_spec
    by (auto split: option.splits) (simp add: spec_def wp_simps keeps_def)
qed

lemma direct_page_sound:
  assumes "accounts_ok E v" "\<forall>u. r = Some u \<longrightarrow> (\<exists>uid. stored E v uid u)" "n > 0"
  shows "page_sound E v after n \<lparr>page_users = filter (search_matches s) (filter (\<lambda>u. is_none_or after (\<lambda>cursor. user_id u > cursor))
    (case r of None \<Rightarrow> [] | Some u \<Rightarrow> [u])), page_next_after = None\<rparr>"
proof (cases r)
  case (Some u)
  then have "stored E v (user_id u) u" using assms(1,2) stored_ok [OF assms(1)] by metis
  then show ?thesis using Some assms(3) by (auto simp: page_sound_def after_cursor_def)
qed (simp add: page_sound_def)

end

context scanning
begin

lemma list_users_spec:
  assumes "accounts_ok E (content w)"
  shows "spec (list_users E after n) (\<lambda>page w'. keeps w w' \<and> content w' = content w \<and> page_sound E (content w) after n page)
     (\<lambda>_ w'. keeps w w' \<and> content w' = content w) w"
proof (cases "n = 0 \<or> n > 100")
  case True
  then show ?thesis by (simp add: list_users_def spec_def wp_simps keeps_def)
next
  case False
  show ?thesis unfolding list_users_def if_not_P [OF False]
  proof (rule spec_bind [OF candidate_ids_spec], goal_cases)
    case (1 ids w1)
    show ?case
    proof (rule spec_bind [OF read_users_spec [where seen = "[]"]], goal_cases)
      case (2 us w2)
      have "page_sound E (content w) after n \<lparr>page_users = take n us, page_next_after = if length us > n then Some (user_id (us ! (n - 1))) else None\<rparr>"
        by (rule page_soundI [OF assms, where pre = ids and post = "[]" and l = None]) (use False 1 2 in auto)
      then show ?case using 1 2 by (auto simp: spec_def wp_simps Let_def intro: keeps_trans)
    qed simp_all
  qed simp
qed

lemma search_users_spec:
  assumes "accounts_ok E (content w)"
  shows "spec (search_users E s after n)
     (\<lambda>page w'. keeps w w' \<and> content w' = content w \<and> page_sound E (content w) after n page \<and> list_all (search_matches s) (page_users page))
     (\<lambda>_ w'. keeps w w' \<and> content w' = content w) w"
proof (cases "search_is_empty s \<or> n = 0 \<or> n > 100")
  case True
  then show ?thesis by (auto simp: search_users_def spec_def wp_simps keeps_def)
next
  case False
  then have g: "\<not> search_is_empty s" "\<not> (n = 0 \<or> n > 100)" by simp_all
  show ?thesis unfolding search_users_def if_not_P [OF g(1)] if_not_P [OF g(2)] Let_def
  proof (rule spec_bind [OF direct_spec], goal_cases)
    case (1 r w0)
    show ?case
    proof (cases "search_user_id s \<noteq> None \<or> search_identifier s \<noteq> None \<or> search_passkey_credential_id s \<noteq> None")
      case True
      have "page_sound E (content w) after n \<lparr>page_users = filter (search_matches s) (filter (\<lambda>u. is_none_or after (\<lambda>cursor. user_id u > cursor))
        (case r of None \<Rightarrow> [] | Some u \<Rightarrow> [u])), page_next_after = None\<rparr>"
        by (rule direct_page_sound) (use assms 1 g in auto)
      then show ?thesis unfolding if_P [OF True] using 1 by (simp add: spec_def wp_simps list_all_iff)
    next
      case scan: False
      show ?thesis unfolding if_not_P [OF scan]
      proof (rule spec_bind [OF candidate_ids_spec], goal_cases)
        case (1 ids w1)
        note w1 = 1 \<open>keeps w w0 \<and> content w0 = content w \<and> _\<close>
        show ?case
        proof (rule spec_bind [OF examine_candidates_spec [where seen = "[]"]], goal_cases)
          case (4 p w2)
          obtain us k l where p: "p = (us, k, l)" by (cases p) auto
          obtain pre post where pre: "ids = pre @ post" "read_for E (content w) pre us" "l = last_of pre" "list_all (search_matches s) us"
            using 4 w1 unfolding p examined_of_def by auto
          have "page_sound E (content w) after n \<lparr>page_users = take n us, page_next_after = search_page_cursor us n (k = MAX_SEARCH_CANDIDATES) l\<rparr>"
            by (rule page_soundI [OF assms, where pre = pre and post = post and l = "if k = MAX_SEARCH_CANDIDATES then l else None"])
              (use g(2) w1 pre in \<open>auto simp: search_page_cursor_def\<close>)
          then show ?case using 4 w1 pre(4) unfolding p by (auto simp: spec_def wp_simps list_all_iff dest: in_set_takeD intro: keeps_trans)
        qed (simp_all add: last_of_def)
      qed (use 1 in \<open>auto intro: keeps_trans\<close>)
    qed
  qed simp
qed

end

section \<open>Properties\<close>

text \<open>C29: accumulating candidates in a tree that never holds more than \<open>limit\<close> ids gives what collecting every
  id, sorting, dropping those up to the cursor and cutting off at \<open>limit\<close> gives, in whatever order and with whatever
  repetitions the ids arrive; and accumulating in two rounds, the second over the first's result, changes nothing.\<close>

theorem accumulate_candidates_exact:
  "accumulate_candidates after limit ids [] = take limit (sorted_list_of_set {uid \<in> set ids. case after of None \<Rightarrow> True | Some cursor \<Rightarrow> cursor < uid}) \<and>
   accumulate_candidates after limit (accumulate_candidates after limit ids [] @ later) [] = accumulate_candidates after limit (ids @ later) []"
proof -
  have r: "accumulate_candidates after limit xs [] = smallest_after after limit (set xs)" for xs
    using accumulate_candidates_ref [of after limit xs "{}"] by simp
  have "{uid \<in> set ids. after_cursor after uid} = {uid \<in> set ids. case after of None \<Rightarrow> True | Some cursor \<Rightarrow> cursor < uid}"
    by (cases after) auto
  then show ?thesis using accumulate_again [of after limit "set ids" later] r [of "ids @ later"] r [of ids] by (simp add: smallest_after_def)
qed

text \<open>C30: paging through the accounts ends. Every page of a listing or of a search holds at most the requested number
  of stored accounts after the cursor, in strictly ascending order; a next cursor lies at or beyond all of them and leaves
  strictly fewer ids to visit than the cursor before, so that no client can be sent round in a circle, whatever the
  accounts look like that were skipped. The accounts of a search page all match.\<close>

theorem user_paging_terminates:
  assumes "scanning E view remaining rounds" "accounts_ok E (view (w_db w))"
  shows "(\<forall>page w1. list_users E after n w = (Ok page, w1) \<longrightarrow> page_sound E (view (w_db w)) after n page) \<and>
    (\<forall>page w1. search_users E s after n w = (Ok page, w1) \<longrightarrow>
       page_sound E (view (w_db w)) after n page \<and> list_all (search_matches s) (page_users page))"
  using spec_OkD [OF scanning.list_users_spec [OF assms]] spec_OkD [OF scanning.search_users_spec [OF assms]] by blast

theorem user_paging_terminates_witness:
  "let E = mem_env (\<lambda>_. 9); w = alice_world (\<lambda>_. 9) [] in
   \<exists>page. fst (list_users E (Some 3) 1 w) = Ok page \<and> page_sound E (mem_view (w_db w)) (Some 3) 1 page"
proof -
  let ?E = "mem_env (\<lambda>_. 9)" and ?w = "alice_world (\<lambda>_. 9) []"
  have ok: "accounts_ok ?E (mem_view (w_db ?w))" using alice_ok by (simp add: mem_world_def mem_view_def)
  have "\<exists>page. fst (list_users ?E (Some 3) 1 ?w) = Ok page"
    by (simp add: run_simps list_users_def candidate_ids_def candidate_batch_def strip_prefix_def starts_with_def alice_db_def insort_insert_key_def user_def)
  then obtain page where r: "fst (list_users ?E (Some 3) 1 ?w) = Ok page" by blast
  from user_paging_terminates [OF memory_scan.scanning_axioms ok, THEN conjunct1, rule_format, OF run_result [OF r]] r
  show ?thesis unfolding Let_def by blast
qed

definition unreadable_db :: "(string \<times> value) list" where
  "unreadable_db = (let E = mem_env (\<lambda>_. 9) in
     [(user_key E 5, VNum 1), (user_key E 7, VUser alice), (user_key E 9, VUser (alice\<lparr>user_id := 9\<rparr>))])"

lemma second_account_norm: "normalize_and_validate (alice\<lparr>user_id := 9\<rparr>) = Inr (alice\<lparr>user_id := 9\<rparr>)"
  by (simp add: alice_def normalize_and_validate_def hydrate_def check_phone_def canonical_def canonical_phone_value_def
      forbidden_display_character_def is_control_def seen_key_def string_run validate_account_profile_def
      validate_profile_value_def sync_legacy_email_def primary_rank_def)


end
