(* ===== verification/WriterLease.thy ===== *)
theory WriterLease
  imports Memory
begin

text \<open>
  The lease that enforces a single writer per database (\<open>src/src/store/writer_lease.rs\<close>): a volatile key
  holding the owner's random token, taken with \<open>SET NX EX\<close>, refreshed and checked with \<open>GETEX\<close>, and released
  by a compare-and-delete. \<open>rival_step\<close> are the steps of all the other processes; the lease is exclusive
  under every interleaving of them. Expiry of the key is an owner that failed to renew it for a minute.
\<close>

definition WRITER_LEASE_KEY :: string where
  "WRITER_LEASE_KEY = ''auth:writer-lease''"

abbreviation WRITER_LEASE_SECONDS :: u64 where
  "WRITER_LEASE_SECONDS \<equiv> 60"

record WriterLease =
  wl_token :: string

definition lease_taken :: store_error where
  "lease_taken = Bail ''another RustyAuth writer owns this SableDB namespace; keep exactly one writer replica''"

definition acquire_writer_lease :: "'db env \<Rightarrow> ('db, WriterLease) sm" where
  "acquire_writer_lease E =
     sbind (new_v4 E) (\<lambda>token.
     let token = uuid_text E token in
     sbind (db_cmd (sb_setnx E WRITER_LEASE_KEY (VStr token) (Some WRITER_LEASE_SECONDS))) (\<lambda>acquired.
     sbind (fail_if (\<not> acquired) lease_taken) (\<lambda>_.
     ret \<lparr>wl_token = token\<rparr>)))"

definition renew :: "'db env \<Rightarrow> WriterLease \<Rightarrow> ('db, bool) sm" where
  "renew E lease =
     sbind (db_cmd (sb_getex E WRITER_LEASE_KEY WRITER_LEASE_SECONDS)) (\<lambda>owner.
     ret (owner = Some (VStr (wl_token lease))))"

definition unknown_command :: "string \<Rightarrow> bool" where
  "unknown_command text =
     (let text = to_ascii_lowercase text in contains_sub ''unknown command'' text \<or> contains_sub ''unsupported command'' text)"

definition release :: "'db env \<Rightarrow> WriterLease \<Rightarrow> ('db, bool) sm" where
  "release E lease =
     sbind (attempt (db_cmd (sb_delifeq E WRITER_LEASE_KEY (VStr (wl_token lease))))) (\<lambda>response.
     sbind (case response of
         Inr n \<Rightarrow> ret n
       | Inl (Redis e) \<Rightarrow>
           if unknown_command e then db_cmd (sb_eval_cad E WRITER_LEASE_KEY (VStr (wl_token lease))) else fail (Redis e)
       | Inl e \<Rightarrow> fail e) (\<lambda>removed.
     ret (removed = 1)))"

section \<open>Specifications\<close>

definition lease_of :: "db_view \<Rightarrow> value option" where
  "lease_of v = v WRITER_LEASE_KEY"

context sabledb
begin

lemma acquire_spec:
  "spec (acquire_writer_lease E)
     (\<lambda>l w'. lease_of (content w) = None \<and> content w' = (content w)(WRITER_LEASE_KEY \<mapsto> VStr (wl_token l)))
     (\<lambda>e w'. content w' = content w \<or> lease_of (content w) = None) w"
  unfolding spec_def acquire_writer_lease_def
  by (auto simp: wp_simps Let_def lease_of_def intro!: wp_setnx)

lemma renew_spec:
  "spec (renew E l) (\<lambda>b w'. content w' = content w \<and> (b \<longleftrightarrow> lease_of (content w) = Some (VStr (wl_token l)))) (\<lambda>_ w'. content w' = content w) w"
  unfolding spec_def renew_def by (auto simp: wp_simps lease_of_def intro!: wp_getex)

lemma wp_cad:
  assumes "c = sb_delifeq E \<or> c = sb_eval_cad E"
    and "\<And>d e. view d = content w \<Longrightarrow> Q (Err (Redis e)) (w\<lparr>w_db := d\<rparr>)"
    and "\<And>d e. content w k = Some v \<Longrightarrow> view d = (content w)(k := None) \<Longrightarrow> Q (Err (Redis e)) (w\<lparr>w_db := d\<rparr>)"
    and "\<And>d. content w k = Some v \<Longrightarrow> view d = (content w)(k := None) \<Longrightarrow> Q (Ok 1) (w\<lparr>w_db := d\<rparr>)"
    and "\<And>d. content w k \<noteq> Some v \<Longrightarrow> view d = content w \<Longrightarrow> Q (Ok 0) (w\<lparr>w_db := d\<rparr>)"
  shows "wp (db_cmd (c k v)) Q w"
proof -
  obtain r d where r: "c k v (w_db w) = (r, d)" by fastforce
  have "content w k = Some v \<and> view d = (content w)(k := None) \<and> (\<forall>n. r = Inr n \<longrightarrow> n = 1) \<or>
      content w k \<noteq> Some v \<and> view d = content w \<and> (\<forall>n. r = Inr n \<longrightarrow> n = 0) \<or> (\<exists>e. r = Inl e) \<and> view d = content w"
    using assms(1) delifeq_law [of k v "w_db w" r d] eval_cad_law [of k v "w_db w" r d] r by auto
  then show ?thesis using assms(2-) by (cases r) (auto simp: wp_db_cmd r)
qed

lemma release_spec:
  "spec (release E l)
     (\<lambda>b w'. b \<and> lease_of (content w) = Some (VStr (wl_token l)) \<and> content w' = (content w)(WRITER_LEASE_KEY := None) \<or>
        \<not> b \<and> lease_of (content w') \<noteq> Some (VStr (wl_token l)) \<and>
          (content w' = content w \<or> lease_of (content w) = Some (VStr (wl_token l)) \<and> content w' = (content w)(WRITER_LEASE_KEY := None)))
     (\<lambda>_ w'. content w' = content w \<or> lease_of (content w) = Some (VStr (wl_token l)) \<and> content w' = (content w)(WRITER_LEASE_KEY := None)) w"
  unfolding spec_def release_def
  by (auto simp: wp_simps lease_of_def intro!: wp_cad [where c = "sb_delifeq E"] wp_cad [where c = "sb_eval_cad E"])

end

section \<open>Exclusive ownership\<close>

text \<open>A step of another process: an attempt to take the lease, or a renewal or release with its own token.\<close>

inductive rival_step :: "'db env \<Rightarrow> WriterLease \<Rightarrow> 'db world \<Rightarrow> 'db world \<Rightarrow> bool" for E lease where
  rival_acquires: "acquire_writer_lease E w = (r, w') \<Longrightarrow> rival_step E lease w w'"
| rival_renews: "wl_token rival \<noteq> wl_token lease \<Longrightarrow> renew E rival w = (r, w') \<Longrightarrow> rival_step E lease w w'"
| rival_releases: "wl_token rival \<noteq> wl_token lease \<Longrightarrow> release E rival w = (r, w') \<Longrightarrow> rival_step E lease w w'"

context sabledb
begin

lemma rival_keeps_lease:
  assumes "rival_step E lease w w'" "lease_of (content w) = Some (VStr (wl_token lease))"
  shows "content w' = content w"
  using assms
proof (cases rule: rival_step.cases)
  case (rival_acquires r)
  then show ?thesis using specD [OF acquire_spec, of w r w'] assms(2) by (cases r) auto
next
  case (rival_renews rival r)
  then show ?thesis using specD [OF renew_spec, of rival w r w'] by (cases r) auto
next
  case (rival_releases rival r)
  then show ?thesis using specD [OF release_spec, of rival w r w'] assms(2) by (cases r) auto
qed

lemma rivals_keep_lease:
  "(rival_step E lease)\<^sup>*\<^sup>* w w' \<Longrightarrow> lease_of (content w) = Some (VStr (wl_token lease)) \<Longrightarrow> content w' = content w"
  by (induction rule: rtranclp_induct) (auto dest: rival_keeps_lease)

end



end
