(* ===== verification/RemoteMutations.thy ===== *)
theory RemoteMutations
  imports Memory
begin

text \<open>
  Replay fencing of Fleet-initiated mutations (\<open>src/src/store/remote_mutations.rs\<close>): a receipt per request id,
  claimed before the side effect and completed after it. \<open>receipt_state\<close> is the abstract state of a request;
  \<open>receipt_step\<close> are the operations of all the deliveries, in any order. A request is claimed at most once
  and its outcome never changes, for as long as the receipt is retained.
\<close>

abbreviation REMOTE_MUTATION_RETENTION_SECONDS :: u64 where
  "REMOTE_MUTATION_RETENTION_SECONDS \<equiv> 24 * 60 * 60"

datatype RemoteMutationClaim = Claimed | Completed u64 bool string

definition remote_mutation_key :: "'db env \<Rightarrow> uuid \<Rightarrow> string" where
  "remote_mutation_key E request_id = ''auth:remote-mutation:'' @ uuid_text E request_id"

text \<open>\<open>connection.get::<String>\<close>: a missing key is an error of the typed read.\<close>

definition read_receipt :: "'db env \<Rightarrow> string \<Rightarrow> ('db, RemoteMutationReceipt) sm" where
  "read_receipt E key = sbind (get_json E as_receipt key) (ok_or (Redis ''response is nil''))"

definition claim_remote_mutation :: "'db env \<Rightarrow> uuid \<Rightarrow> string \<Rightarrow> ('db, RemoteMutationClaim) sm" where
  "claim_remote_mutation E request_id digest =
     (let key = remote_mutation_key E request_id in
      sbind (now E) (\<lambda>claimed_at.
      let receipt = \<lparr>rmr_digest = digest, rmr_state = RM_Pending, rmr_claimed_at = claimed_at, rmr_completed_at = None,
        rmr_succeeded = None, rmr_summary = []\<rparr> in
      sbind (db_cmd (sb_setnx E key (VReceipt receipt) (Some REMOTE_MUTATION_RETENTION_SECONDS))) (\<lambda>inserted.
      if inserted then ret Claimed else
      sbind (read_receipt E key) (\<lambda>existing.
      if rmr_digest existing \<noteq> digest then fail (Policy RemoteMutationIdempotencyConflict) else
      case (rmr_state existing, rmr_completed_at existing) of
        (RM_Completed, Some completed_at) \<Rightarrow>
          ret (Completed completed_at (case rmr_succeeded existing of Some b \<Rightarrow> b | None \<Rightarrow> False) (rmr_summary existing))
      | _ \<Rightarrow> fail (Policy RemoteMutationPending)))))"

definition complete_remote_mutation :: "'db env \<Rightarrow> uuid \<Rightarrow> string \<Rightarrow> bool \<Rightarrow> string \<Rightarrow> ('db, u64) sm" where
  "complete_remote_mutation E request_id digest succeeded summary =
     (let key = remote_mutation_key E request_id in
      sbind (read_receipt E key) (\<lambda>receipt.
      if rmr_digest receipt \<noteq> digest then fail (Policy RemoteMutationIdempotencyConflict) else
      if rmr_state receipt = RM_Completed then ok_or (Policy RemoteMutationPending) (rmr_completed_at receipt) else
      sbind (now E) (\<lambda>completed_at.
      let receipt = receipt\<lparr>rmr_state := RM_Completed, rmr_completed_at := Some completed_at, rmr_succeeded := Some succeeded,
        rmr_summary := summary\<rparr> in
      sbind (db_cmd (sb_setxx E key (VReceipt receipt) (Some REMOTE_MUTATION_RETENTION_SECONDS))) (\<lambda>response.
      if response then ret completed_at else fail (Policy RemoteMutationPending)))))"

section \<open>The abstract request\<close>

text \<open>What a request is to its deliveries: open to be claimed, claimed for one digest, or done with an outcome.\<close>

datatype request_state = Unclaimed | Pending_for string | Done string u64 bool string | Corrupt

definition receipt_state :: "'db env \<Rightarrow> db_view \<Rightarrow> uuid \<Rightarrow> request_state" where
  "receipt_state E v rid = (case v (remote_mutation_key E rid) of
     None \<Rightarrow> Unclaimed
   | Some (VReceipt r) \<Rightarrow> (case (rmr_state r, rmr_completed_at r, rmr_succeeded r) of
       (RM_Pending, _, _) \<Rightarrow> Pending_for (rmr_digest r)
     | (RM_Completed, Some t, Some b) \<Rightarrow> Done (rmr_digest r) t b (rmr_summary r)
     | _ \<Rightarrow> Corrupt)
   | _ \<Rightarrow> Corrupt)"

text \<open>The moves of a request: nothing, the claim, or the completion of a claim.\<close>

inductive request_move :: "request_state \<Rightarrow> request_state \<Rightarrow> bool" where
  move_none: "request_move s s"
| move_claim: "request_move Unclaimed (Pending_for d)"
| move_done: "request_move (Pending_for d) (Done d t b m)"

inductive_simps request_move_from:
  "request_move Unclaimed s" "request_move (Pending_for d) s" "request_move (Done d t b m) s" "request_move Corrupt s"

context sabledb
begin

lemma remote_mutation_key_inject [simp]: "remote_mutation_key E i = remote_mutation_key E j \<longleftrightarrow> i = j"
  by (simp add: remote_mutation_key_def)

lemma receipt_state_upd [simp]:
  "receipt_state E (v(remote_mutation_key E i \<mapsto> x)) j = (if i = j then receipt_state E [remote_mutation_key E i \<mapsto> x] i else receipt_state E v j)"
  by (auto simp: receipt_state_def)

lemma wp_read_receipt:
  assumes "\<And>d e. view d = content w \<Longrightarrow> Q (Err e) (w\<lparr>w_db := d\<rparr>)"
    and "\<And>d r. view d = content w \<Longrightarrow> content w k = Some (VReceipt r) \<Longrightarrow> Q (Ok r) (w\<lparr>w_db := d\<rparr>)"
  shows "wp (read_receipt E k) Q w"
  unfolding read_receipt_def by (auto simp: wp_simps assms intro!: wp_get_json)

lemma claim_spec:
  "spec (claim_remote_mutation E rid d)
     (\<lambda>c w'. (\<forall>i. i \<noteq> rid \<longrightarrow> receipt_state E (content w') i = receipt_state E (content w) i) \<and>
        (case c of
           Claimed \<Rightarrow> receipt_state E (content w) rid = Unclaimed \<and> receipt_state E (content w') rid = Pending_for d
         | Completed t b m \<Rightarrow> content w' = content w \<and> receipt_state E (content w) rid \<in> {Done d t b m, Corrupt}))
     (\<lambda>e w'. content w' = content w \<and> (content w (remote_mutation_key E rid) = None \<longrightarrow> (\<exists>t. e = Redis t)) \<or>
        (\<forall>i. i \<noteq> rid \<longrightarrow> receipt_state E (content w') i = receipt_state E (content w) i) \<and>
        receipt_state E (content w) rid = Unclaimed \<and> receipt_state E (content w') rid = Pending_for d) w"
  unfolding spec_def claim_remote_mutation_def
  by (auto simp: wp_simps Let_def receipt_state_def intro!: wp_setnx wp_read_receipt split: RemoteMutationState.splits option.splits)

lemma complete_spec:
  "spec (complete_remote_mutation E rid d b m)
     (\<lambda>t w'. (\<forall>i. i \<noteq> rid \<longrightarrow> receipt_state E (content w') i = receipt_state E (content w) i) \<and>
        (receipt_state E (content w) rid = Pending_for d \<and> receipt_state E (content w') rid = Done d t b m \<or>
         content w' = content w \<and> (\<exists>b m. receipt_state E (content w) rid \<in> {Done d t b m, Corrupt})))
     (\<lambda>e w'. content w' = content w \<or>
        (\<forall>i. i \<noteq> rid \<longrightarrow> receipt_state E (content w') i = receipt_state E (content w) i) \<and>
        receipt_state E (content w) rid = Pending_for d \<and> (\<exists>t. receipt_state E (content w') rid = Done d t b m)) w"
  unfolding spec_def complete_remote_mutation_def
  by (auto simp: wp_simps Let_def receipt_state_def intro!: wp_setxx wp_read_receipt split: RemoteMutationState.splits option.splits) blast+

end

section \<open>Deliveries in any order\<close>

inductive receipt_step :: "'db env \<Rightarrow> 'db world \<Rightarrow> 'db world \<Rightarrow> bool" for E where
  step_claim: "claim_remote_mutation E rid d w = (r, w') \<Longrightarrow> receipt_step E w w'"
| step_complete: "complete_remote_mutation E rid d b m w = (r, w') \<Longrightarrow> receipt_step E w w'"

context sabledb
begin

lemma receipt_step_moves:
  assumes "receipt_step E w w'"
  shows "request_move (receipt_state E (content w) i) (receipt_state E (content w') i)"
  using assms
proof cases
  case (step_claim rid d r)
  then show ?thesis using specD [OF claim_spec, of rid d w r w']
    by (cases r; cases "i = rid") (auto intro: request_move.intros split: RemoteMutationClaim.splits)
next
  case (step_complete rid d b m r)
  then show ?thesis using specD [OF complete_spec, of rid d b m w r w']
    by (cases r; cases "i = rid") (auto intro: request_move.intros)
qed

lemma receipt_steps_move:
  "(receipt_step E)\<^sup>*\<^sup>* w w' \<Longrightarrow> request_move\<^sup>*\<^sup>* (receipt_state E (content w) i) (receipt_state E (content w') i)"
  by (induction rule: rtranclp_induct) (auto dest: receipt_step_moves [where i = i] intro: rtranclp.rtrancl_into_rtrancl)

end

lemma moves_from_done: "request_move\<^sup>*\<^sup>* s s' \<Longrightarrow> s = Done d t b m \<Longrightarrow> s' = Done d t b m"
  by (induction rule: rtranclp_induct) (auto simp: request_move_from)

lemma moves_from_pending: "request_move\<^sup>*\<^sup>* s s' \<Longrightarrow> s = Pending_for d \<Longrightarrow> s' = Pending_for d \<or> (\<exists>t b m. s' = Done d t b m)"
  by (induction rule: rtranclp_induct) (auto simp: request_move_from)



end
