(* ===== verification/FleetGrants.thy ===== *)
theory FleetGrants
  imports ServiceAccounts
begin

text \<open>
  The realm's side of Fleet pairing (\<open>src/src/store/management.rs\<close>): one-time pairing codes, the grants they are
  exchanged for, the credential locators, revocation and rotation, and the summary counts. Codes and
  credentials are found by their digests; \<open>authorizes\<close> says which grant a credential stands for.
\<close>

abbreviation PAIRING_SECONDS :: u64 where
  "PAIRING_SECONDS \<equiv> 600"

abbreviation GRANT_SECONDS :: u64 where
  "GRANT_SECONDS \<equiv> 31536000"

definition credential_digest :: "'db env \<Rightarrow> string \<Rightarrow> string" where
  "credential_digest E s = sha256_b64 E s"

definition pairing_key :: "'db env \<Rightarrow> string \<Rightarrow> string" where
  "pairing_key E code = ''auth:fleet-pairing:'' @ credential_digest E code"

definition grant_key :: "'db env \<Rightarrow> uuid \<Rightarrow> string" where
  "grant_key E uid = ''auth:fleet-grant:'' @ uuid_text E uid"

definition grant_secret_key :: "string \<Rightarrow> string" where
  "grant_secret_key digest = ''auth:fleet-grant-secret:'' @ digest"

definition grant_rotation_key :: "'db env \<Rightarrow> uuid \<Rightarrow> string" where
  "grant_rotation_key E request_id = ''auth:fleet-grant-rotation:'' @ uuid_text E request_id"

definition create_realm_pairing :: "'db env \<Rightarrow> string \<Rightarrow> string \<Rightarrow> string list \<Rightarrow> uuid \<Rightarrow> ('db, RealmPairingRecord \<times> string) sm" where
  "create_realm_pairing E realm_id control_plane_origin requested_scopes created_by =
     with_snapshot_read (
       sbind (now E) (\<lambda>timestamp.
       sbind (new_v4 E) (\<lambda>uid.
       let pairing = \<lparr>pairing_id = uid, pairing_realm_id = realm_id, pairing_control_plane_origin = control_plane_origin,
             pairing_requested_scopes = requested_scopes, pairing_created_by = created_by, pairing_created_at = timestamp,
             pairing_expires_at = saturating_add timestamp PAIRING_SECONDS\<rparr> in
       sbind (random_bytes E 32) (\<lambda>random.
       let code = ''rpair_'' @ b64url E random in
       sbind (set_json_ex E (pairing_key E code) (VPairing pairing) PAIRING_SECONDS) (\<lambda>_.
       ret (pairing, code))))))"

text \<open>\<open>chars().rev().take(6)\<close>, collected and reversed again.\<close>

definition credential_suffix :: "string \<Rightarrow> string" where
  "credential_suffix s = concat (map utf8_encode_char (rev (take 6 (rev (utf8_chars s)))))"

text \<open>The record both exchanges build, and the commands that store it with its locator.\<close>

definition new_grant :: "'db env \<Rightarrow> RealmPairingRecord \<Rightarrow> uuid \<Rightarrow> string \<Rightarrow> u64 \<Rightarrow> string \<Rightarrow> string list \<Rightarrow> u64 \<Rightarrow> RealmFleetGrantRecord" where
  "new_grant E pairing connection_id instance_id assignment_epoch credential scopes timestamp =
     \<lparr>fg_connection_id = connection_id, fg_realm_id = pairing_realm_id pairing,
      fg_control_plane_origin = pairing_control_plane_origin pairing, fg_control_plane_instance_id = instance_id,
      fg_assignment_epoch = assignment_epoch, fg_credential_digest = credential_digest E credential,
      fg_credential_hint = credential_suffix credential, fg_granted_scopes = scopes, fg_created_at = timestamp,
      fg_expires_at = saturating_add timestamp GRANT_SECONDS, fg_revoked_at = None\<rparr>"

definition grant_cmds :: "'db env \<Rightarrow> RealmFleetGrantRecord \<Rightarrow> cmd list" where
  "grant_cmds E grant =
     [SET (grant_key E (fg_connection_id grant)) (VGrant grant),
      SET (grant_secret_key (fg_credential_digest grant)) (VStr (uuid_text E (fg_connection_id grant)))]"

definition take_pairing :: "'db env \<Rightarrow> string \<Rightarrow> (u64 \<Rightarrow> RealmPairingRecord \<Rightarrow> bool) \<Rightarrow> ('db, RealmPairingRecord) sm" where
  "take_pairing E code valid =
     sbind (take_json E as_pairing (pairing_key E code)) (\<lambda>found. case found of
       None \<Rightarrow> fail (Policy RealmPairingInvalid)
     | Some pairing \<Rightarrow>
         sbind (now E) (\<lambda>current.
         if valid current pairing then ret pairing else fail (Policy RealmPairingInvalid)))"

definition exchange_realm_pairing :: "'db env \<Rightarrow> string \<Rightarrow> string \<Rightarrow> string \<Rightarrow> u64 \<Rightarrow> ('db, RealmFleetGrantRecord \<times> string) sm" where
  "exchange_realm_pairing E code control_plane_origin instance_id assignment_epoch =
     (if assignment_epoch = 0 then fail (Bail ''Fleet assignment epoch must be positive'') else
      with_snapshot_read (with_mutation (
        sbind (take_pairing E code (\<lambda>current p. pairing_expires_at p > current \<and> pairing_control_plane_origin p = control_plane_origin)) (\<lambda>pairing.
        sbind (random_bytes E 32) (\<lambda>random.
        let credential = ''rfg_'' @ b64url E random in
        sbind (now E) (\<lambda>timestamp.
        sbind (new_v4 E) (\<lambda>connection_id.
        let grant = new_grant E pairing connection_id instance_id assignment_epoch credential (pairing_requested_scopes pairing) timestamp in
        sbind (db_cmd (sb_exec E (grant_cmds E grant))) (\<lambda>_.
        ret (grant, credential)))))))))"

definition consume_outbound_realm_pairing :: "'db env \<Rightarrow> string \<Rightarrow> string \<Rightarrow> string \<Rightarrow> u64 \<Rightarrow> uuid \<Rightarrow> string \<Rightarrow> string list \<Rightarrow>
    ('db, RealmFleetGrantRecord) sm" where
  "consume_outbound_realm_pairing E code control_plane_origin instance_id assignment_epoch connection_id credential granted_scopes =
     (if assignment_epoch = 0 \<or> \<not> starts_with ''rfg_'' credential \<or> \<not> (32 \<le> length credential \<and> length credential \<le> 128)
      then fail (Bail ''outbound Fleet grant is invalid'') else
      with_snapshot_read (with_mutation (
        sbind (take_pairing E code (\<lambda>current p. pairing_expires_at p > current \<and>
            pairing_control_plane_origin p = control_plane_origin \<and> pairing_requested_scopes p = granted_scopes)) (\<lambda>pairing.
        sbind (now E) (\<lambda>timestamp.
        let grant = new_grant E pairing connection_id instance_id assignment_epoch credential granted_scopes timestamp in
        sbind (db_cmd (sb_exec E (grant_cmds E grant))) (\<lambda>_.
        ret grant))))))"

definition realm_fleet_grant_by_credential :: "'db env \<Rightarrow> string \<Rightarrow> ('db, RealmFleetGrantRecord option) sm" where
  "realm_fleet_grant_by_credential E credential =
     (let digest = credential_digest E credential in
      sbind (get_json E as_str (grant_secret_key digest)) (\<lambda>found. case found of
        None \<Rightarrow> ret None
      | Some uid \<Rightarrow>
          sbind (lift_result (parse_uuid E uid)) (\<lambda>uid.
          sbind (get_json E as_grant (grant_key E uid)) (\<lambda>found. case found of
            None \<Rightarrow> ret None
          | Some grant \<Rightarrow>
              if fg_revoked_at grant \<noteq> None then ret None else
              sbind (now E) (\<lambda>current.
              ret (if fg_expires_at grant > current \<and> fg_credential_digest grant = digest then Some grant else None))))))"

definition exportable_grant :: "'db env \<Rightarrow> uuid \<Rightarrow> ('db, RealmFleetGrantRecord option) sm" where
  "exportable_grant E uid =
     sbind (get_json E as_grant (grant_key E uid)) (\<lambda>found. case found of
       None \<Rightarrow> ret None
     | Some grant \<Rightarrow>
         if fg_revoked_at grant \<noteq> None then ret None else
         sbind (now E) (\<lambda>current.
         ret (if fg_expires_at grant > current \<and> ''telemetry.export'' \<in> set (fg_granted_scopes grant) then Some grant else None)))"

text \<open>The order of grants of equal age is one that the unstable sort may choose.\<close>

definition realm_telemetry_export_grants :: "'db env \<Rightarrow> ('db, RealmFleetGrantRecord list) sm" where
  "realm_telemetry_export_grants E =
     sbind (record_ids E ''auth:fleet-grant:'') (\<lambda>ids.
     sbind (smap (exportable_grant E) ids) (\<lambda>found.
     ret (sort_key (\<lambda>grant. - uint (fg_created_at grant)) (List.map_filter id found))))"

definition revoke_realm_fleet_grant :: "'db env \<Rightarrow> uuid \<Rightarrow> ('db, RealmFleetGrantRecord) sm" where
  "revoke_realm_fleet_grant E connection_id =
     with_snapshot_read (with_mutation (
       sbind (get_json E as_grant (grant_key E connection_id)) (\<lambda>found.
       sbind (ok_or (Policy RealmFleetGrantInvalid) found) (\<lambda>grant.
       sbind (if fg_revoked_at grant = None then sbind (now E) (\<lambda>current. ret (grant\<lparr>fg_revoked_at := Some current\<rparr>)) else ret grant) (\<lambda>grant.
       sbind (db_cmd (sb_exec E [SET (grant_key E connection_id) (VGrant grant), DEL [grant_secret_key (fg_credential_digest grant)]])) (\<lambda>_.
       ret grant))))))"

definition rotated_grant :: "'db env \<Rightarrow> string \<Rightarrow> string \<Rightarrow> u64 \<Rightarrow> RealmFleetGrantRecord \<Rightarrow> RealmFleetGrantRecord" where
  "rotated_grant E credential hint timestamp grant = grant\<lparr>fg_credential_digest := credential_digest E credential,
     fg_credential_hint := hint, fg_created_at := timestamp, fg_expires_at := saturating_add timestamp GRANT_SECONDS\<rparr>"

definition rotation_cmds :: "'db env \<Rightarrow> uuid \<Rightarrow> uuid \<Rightarrow> string \<Rightarrow> RealmFleetGrantRecord \<Rightarrow> cmd list" where
  "rotation_cmds E connection_id request_id old_digest grant =
     [SET (grant_key E (fg_connection_id grant)) (VGrant grant),
      DEL [grant_secret_key old_digest],
      SET (grant_secret_key (fg_credential_digest grant)) (VStr (uuid_text E (fg_connection_id grant))),
      SETEX (grant_rotation_key E request_id) (VGrantRotation \<lparr>fgr_connection_id = connection_id,
        fgr_credential_digest = fg_credential_digest grant, fgr_completed_at = fg_created_at grant\<rparr>) 86400]"

definition replayed_rotation :: "'db env \<Rightarrow> uuid \<Rightarrow> string \<Rightarrow> RealmFleetGrantRotationRecord \<Rightarrow> ('db, RealmFleetGrantRecord) sm" where
  "replayed_rotation E connection_id digest completed =
     (if fgr_connection_id completed \<noteq> connection_id \<or> fgr_credential_digest completed \<noteq> digest
      then fail (Bail ''Fleet credential rotation request was replayed with different data'') else
      sbind (get_json E as_grant (grant_key E connection_id)) (\<lambda>found. case found of
        Some grant \<Rightarrow> if fg_revoked_at grant = None \<and> fg_credential_digest grant = digest then ret grant
          else fail (Policy RealmFleetGrantInvalid)
      | None \<Rightarrow> fail (Policy RealmFleetGrantInvalid)))"

definition rotate_realm_fleet_grant :: "'db env \<Rightarrow> uuid \<Rightarrow> uuid \<Rightarrow> string \<Rightarrow> string \<Rightarrow> ('db, RealmFleetGrantRecord) sm" where
  "rotate_realm_fleet_grant E connection_id request_id credential credential_hint =
     (if \<not> starts_with ''rfg_'' credential \<or> \<not> (32 \<le> length credential \<and> length credential \<le> 128) \<or> length credential_hint > 32
      then fail (Bail ''new Fleet grant credential is invalid'') else
      with_snapshot_read (with_mutation (
        sbind (get_json E as_grant_rotation (grant_rotation_key E request_id)) (\<lambda>found. case found of
          Some completed \<Rightarrow> replayed_rotation E connection_id (credential_digest E credential) completed
        | None \<Rightarrow>
            sbind (get_json E as_grant (grant_key E connection_id)) (\<lambda>found. case found of
              None \<Rightarrow> fail (Policy RealmFleetGrantInvalid)
            | Some grant \<Rightarrow>
                if fg_revoked_at grant \<noteq> None then fail (Policy RealmFleetGrantInvalid) else
                sbind (now E) (\<lambda>current.
                if fg_expires_at grant \<le> current then fail (Policy RealmFleetGrantInvalid) else
                sbind (now E) (\<lambda>timestamp.
                let old_digest = fg_credential_digest grant; grant = rotated_grant E credential credential_hint timestamp grant in
                sbind (db_cmd (sb_exec E (rotation_cmds E connection_id request_id old_digest grant))) (\<lambda>_.
                ret grant)))))))) "

section \<open>Summary counts\<close>

record RealmSummaryCounts =
  count_users :: u64
  count_passkeys :: u64
  count_active_sessions :: u64
  count_service_accounts :: u64

definition count_keys :: "'db env \<Rightarrow> string \<Rightarrow> ('db, u64) sm" where
  "count_keys E pre = scan_all E pre 500 (\<lambda>keys count. Inr (saturating_add count (of_nat (length keys)))) 0"

fun count_user_passkeys :: "'db env \<Rightarrow> uuid list \<Rightarrow> u64 \<Rightarrow> ('db, u64) sm" where
  "count_user_passkeys E [] passkeys = ret passkeys"
| "count_user_passkeys E (uid # ids) passkeys =
     sbind (get_json E as_user (''auth:user:'' @ uuid_text E uid)) (\<lambda>found.
     count_user_passkeys E ids (case found of
       Some u \<Rightarrow> saturating_add passkeys (of_nat (length (user_passkeys u))) | None \<Rightarrow> passkeys))"

definition realm_summary_counts :: "'db env \<Rightarrow> ('db, RealmSummaryCounts) sm" where
  "realm_summary_counts E =
     sbind (record_ids E ''auth:user:'') (\<lambda>user_ids.
     sbind (count_user_passkeys E user_ids 0) (\<lambda>passkeys.
     sbind (count_keys E ''auth:session:'') (\<lambda>active_sessions.
     sbind (service_accounts E) (\<lambda>accounts.
     ret \<lparr>count_users = of_nat (length user_ids), count_passkeys = passkeys, count_active_sessions = active_sessions,
       count_service_accounts = of_nat (length accounts)\<rparr>))))"

section \<open>What a credential stands for\<close>

definition authorizes :: "'db env \<Rightarrow> db_view \<Rightarrow> u64 \<Rightarrow> string \<Rightarrow> RealmFleetGrantRecord \<Rightarrow> bool" where
  "authorizes E v t credential g \<longleftrightarrow> (\<exists>x s uid. v (grant_secret_key (credential_digest E credential)) = Some x \<and> as_str x = Some s \<and> uuid_parse E s = Some uid \<and>
     v (grant_key E uid) = Some (VGrant g) \<and> fg_revoked_at g = None \<and> t < fg_expires_at g \<and>
     fg_credential_digest g = credential_digest E credential)"

text \<open>Every grant is stored under its own connection id.\<close>

definition grants_ok :: "'db env \<Rightarrow> db_view \<Rightarrow> bool" where
  "grants_ok E v \<longleftrightarrow> (\<forall>uid x. v (grant_key E uid) = Some x \<longrightarrow> (\<exists>g. x = VGrant g \<and> fg_connection_id g = uid))"

lemma grants_okD: "grants_ok E v \<Longrightarrow> v (grant_key E uid) = Some (VGrant g) \<Longrightarrow> fg_connection_id g = uid"
  by (auto simp: grants_ok_def)

lemma fleet_key_distinct [simp]:
  "pairing_key E c \<noteq> grant_key E i" "grant_key E i \<noteq> pairing_key E c" "pairing_key E c \<noteq> grant_secret_key s" "grant_secret_key s \<noteq> pairing_key E c"
  "grant_key E i \<noteq> grant_secret_key s" "grant_secret_key s \<noteq> grant_key E i" "grant_rotation_key E j \<noteq> grant_key E i" "grant_key E i \<noteq> grant_rotation_key E j"
  "grant_rotation_key E j \<noteq> grant_secret_key s" "grant_secret_key s \<noteq> grant_rotation_key E j"
  "grant_secret_key s = grant_secret_key s' \<longleftrightarrow> s = s'"
  by (simp_all add: pairing_key_def grant_key_def grant_secret_key_def grant_rotation_key_def)

text \<open>The outcome of a successful exchange of a pairing code.\<close>

definition issued :: "'db env \<Rightarrow> db_view \<Rightarrow> string \<Rightarrow> string \<Rightarrow> u64 \<Rightarrow> string \<Rightarrow> RealmFleetGrantRecord \<Rightarrow> db_view \<Rightarrow> bool" where
  "issued E v code origin t credential g v' \<longleftrightarrow> (\<exists>p uid inst epoch ts. v (pairing_key E code) = Some (VPairing p) \<and>
     t < pairing_expires_at p \<and> pairing_control_plane_origin p = origin \<and>
     g = new_grant E p uid inst epoch credential (pairing_requested_scopes p) ts \<and>
     v' = apply_cmds (grant_cmds E g) (v(pairing_key E code := None)))"

text \<open>A rotation that returns a grant wrote it, or found it already written by the same request.\<close>

definition rotation_done :: "'db env \<Rightarrow> db_view \<Rightarrow> uuid \<Rightarrow> uuid \<Rightarrow> string \<Rightarrow> RealmFleetGrantRecord \<Rightarrow> db_view \<Rightarrow> bool" where
  "rotation_done E v uid rid c g v' \<longleftrightarrow> fg_revoked_at g = None \<and> fg_credential_digest g = credential_digest E c \<and>
     (v (grant_rotation_key E rid) \<noteq> None \<and> v (grant_key E uid) = Some (VGrant g) \<and> v' = v \<or>
      (\<exists>g0 hint t. v (grant_key E uid) = Some (VGrant g0) \<and> fg_revoked_at g0 = None \<and> g = rotated_grant E c hint t g0 \<and>
         v' = apply_cmds (rotation_cmds E uid rid (fg_credential_digest g0) g) v))"

context sabledb
begin

lemma grant_key_inject [simp]: "grant_key E i = grant_key E j \<longleftrightarrow> i = j"
  by (simp add: grant_key_def)

lemma lookup_grant_spec:
  "spec (realm_fleet_grant_by_credential E c)
     (\<lambda>r w'. content w' = content w \<and> (\<forall>g. r = Some g \<longleftrightarrow> authorizes E (content w) (env_clock E (w_ticks w)) c g))
     (\<lambda>_ w'. content w' = content w) w"
  unfolding spec_def realm_fleet_grant_by_credential_def Let_def
  by (auto simp: wp_simps parse_uuid_def authorizes_def intro!: wp_get_json split: option.splits sum.splits)

lemma take_pairing_spec:
  "spec (take_pairing E code valid)
     (\<lambda>p w'. keeps w w' \<and> content w (pairing_key E code) = Some (VPairing p) \<and> valid (env_clock E (w_ticks w)) p \<and>
        content w' = (content w)(pairing_key E code := None))
     (\<lambda>_ w'. keeps w w' \<and> content w' \<in> {content w, (content w)(pairing_key E code := None)}) w"
  unfolding spec_def take_pairing_def
  by (auto simp: wp_simps keeps_def intro!: wp_take_json split: option.splits)

lemma exchange_pairing_spec:
  assumes "w_mutation w = Free" "w_writer w = Free"
  shows "spec (exchange_realm_pairing E code origin inst epoch)
     (\<lambda>(g, c) w'. keeps w w' \<and> issued E (content w) code origin (env_clock E (w_ticks w)) c g (content w'))
     (\<lambda>_ w'. keeps w w') w"
  using assms unfolding spec_def exchange_realm_pairing_def Let_def
  by (auto simp: wp_simps issued_def keeps_def intro!: wp_use [OF take_pairing_spec] wp_exec) blast

lemma outbound_pairing_spec:
  assumes "w_mutation w = Free" "w_writer w = Free"
  shows "spec (consume_outbound_realm_pairing E code origin inst epoch uid c scopes)
     (\<lambda>g w'. keeps w w' \<and> fg_granted_scopes g = scopes \<and> issued E (content w) code origin (env_clock E (w_ticks w)) c g (content w'))
     (\<lambda>_ w'. keeps w w') w"
  using assms unfolding spec_def consume_outbound_realm_pairing_def Let_def
  by (auto simp: wp_simps issued_def keeps_def new_grant_def intro!: wp_use [OF take_pairing_spec] wp_exec)

lemma issued_ok:
  assumes "issued E v code origin t c g v'"
  shows "grants_ok E v \<Longrightarrow> grants_ok E v'" "t' < fg_expires_at g \<Longrightarrow> authorizes E v' t' c g" "v' (pairing_key E code) = None"
    "fg_control_plane_origin g = origin" "\<exists>p. v (pairing_key E code) = Some (VPairing p) \<and> fg_granted_scopes g = pairing_requested_scopes p"
  using assms by (auto simp: issued_def grants_ok_def authorizes_def grant_cmds_def new_grant_def uuid_law split: if_splits)

lemma revoke_grant_spec:
  assumes "w_mutation w = Free" "w_writer w = Free"
  shows "spec (revoke_realm_fleet_grant E uid)
     (\<lambda>g w'. keeps w w' \<and> fg_revoked_at g \<noteq> None \<and> (\<exists>g0. content w (grant_key E uid) = Some (VGrant g0) \<and> fg_connection_id g = fg_connection_id g0) \<and>
        content w' = apply_cmds [SET (grant_key E uid) (VGrant g), DEL [grant_secret_key (fg_credential_digest g)]] (content w))
     (\<lambda>_ w'. keeps w w') w"
  using assms unfolding spec_def revoke_realm_fleet_grant_def
  by (auto simp: wp_simps keeps_def intro!: wp_get_json wp_exec)

lemma rotate_grant_spec:
  assumes "w_mutation w = Free" "w_writer w = Free"
  shows "spec (rotate_realm_fleet_grant E uid rid c hint)
     (\<lambda>g w'. keeps w w' \<and> rotation_done E (content w) uid rid c g (content w')) (\<lambda>_ w'. keeps w w') w"
proof -
  have r: "rotation_done E v uid rid c (rotated_grant E c hint t g) (apply_cmds (rotation_cmds E uid rid (fg_credential_digest g) (rotated_grant E c hint t g)) v)"
    if "v (grant_key E uid) = Some (VGrant g)" "fg_revoked_at g = None" for v t g
    using that unfolding rotation_done_def by (auto simp: rotated_grant_def)
  show ?thesis using assms unfolding spec_def rotate_realm_fleet_grant_def replayed_rotation_def Let_def
    by (auto simp: wp_simps keeps_def intro!: wp_get_json wp_exec r split: option.splits) (auto simp: rotation_done_def)
qed

lemma rotation_ok:
  assumes "rotation_done E v uid rid c g v'" "grants_ok E v"
  shows "grants_ok E v'" "v' (grant_key E uid) = Some (VGrant g)" "fg_connection_id g = uid"
    "fg_credential_digest g = credential_digest E c" "fg_revoked_at g = None"
    "v (grant_rotation_key E rid) = None \<Longrightarrow> t < fg_expires_at g \<Longrightarrow> authorizes E v' t c g"
proof -
  show "fg_credential_digest g = credential_digest E c" "fg_revoked_at g = None" using assms(1) by (simp_all add: rotation_done_def)
  show g: "fg_connection_id g = uid" using assms unfolding rotation_done_def by (auto simp: rotated_grant_def dest: grants_okD)
  have "v' (grant_key E i) = (if i = uid then Some (VGrant g) else v (grant_key E i))" for i
    using assms(1) g unfolding rotation_done_def by (auto simp: rotation_cmds_def)
  then show "grants_ok E v'" "v' (grant_key E uid) = Some (VGrant g)" using assms(2) g by (auto simp: grants_ok_def)
  show "authorizes E v' t c g" if new: "v (grant_rotation_key E rid) = None" "t < fg_expires_at g"
  proof -
    obtain g0 :: RealmFleetGrantRecord where "fg_revoked_at g = None" "fg_credential_digest g = credential_digest E c"
      "v' = apply_cmds (rotation_cmds E uid rid (fg_credential_digest g0) g) v"
      using assms(1) new(1) unfolding rotation_done_def by metis
    then show ?thesis using new(2) unfolding authorizes_def
      by (intro exI [of _ "VStr (uuid_text E (fg_connection_id g))"] exI [of _ "fg_connection_id g"]) (simp add: rotation_cmds_def uuid_law)
  qed
qed

text \<open>A state in which the record of a connection is revoked or has another digest honours no credential for it.\<close>

lemma not_authorized:
  assumes "grants_ok E v" "v (grant_key E uid) = Some (VGrant g)" "fg_revoked_at g \<noteq> None \<or> fg_credential_digest g \<noteq> credential_digest E c"
    "authorizes E v t c g'"
  shows "fg_connection_id g' \<noteq> uid"
  using assms by (auto simp: authorizes_def dest: grants_okD)

end

text \<open>C34: a pairing code is good for one grant. An exchange, inbound or outbound, only succeeds on an unexpired code of the
  same control plane and grants the scopes the operator asked for; the credential then stands for the new grant until
  that expires; and afterwards neither kind of exchange accepts the code again.\<close>

theorem fleet_pairing_single_use:
  assumes "sabledb E view" "idle w" "grants_ok E (view (w_db w))"
    and "exchange_realm_pairing E code origin inst epoch w = (Ok (g, credential), w1) \<or>
      consume_outbound_realm_pairing E code origin inst epoch uid credential scopes w = (Ok g, w1)"
  shows "grants_ok E (view (w_db w1)) \<and> fg_control_plane_origin g = origin \<and>
    (\<exists>p. view (w_db w) (pairing_key E code) = Some (VPairing p) \<and> env_clock E (w_ticks w) < pairing_expires_at p \<and>
       fg_granted_scopes g = pairing_requested_scopes p) \<and>
    (\<forall>t. t < fg_expires_at g \<longrightarrow> authorizes E (view (w_db w1)) t credential g) \<and>
    (\<forall>origin inst epoch uid credential scopes x y w2. exchange_realm_pairing E code origin inst epoch w1 \<noteq> (Ok x, w2) \<and>
       consume_outbound_realm_pairing E code origin inst epoch uid credential scopes w1 \<noteq> (Ok y, w2))"
proof -
  have free: "w_mutation w = Free" "w_writer w = Free" using assms(2) by (simp_all add: idle_def)
  have i: "keeps w w1 \<and> issued E (view (w_db w)) code origin (env_clock E (w_ticks w)) credential g (view (w_db w1))"
    using assms(4) spec_OkD [OF sabledb.exchange_pairing_spec [OF assms(1) free]] spec_OkD [OF sabledb.outbound_pairing_spec [OF assms(1) free]] by blast
  note ok = sabledb.issued_ok [OF assms(1) i [THEN conjunct2]]
  have free1: "w_mutation w1 = Free" "w_writer w1 = Free" using i free by (simp_all add: keeps_def)
  have no: "\<not> issued E (view (w_db w1)) code origin' t' c' g' v'" for origin' t' c' g' v' using ok(3) by (simp add: issued_def)
  have 1: "exchange_realm_pairing E code origin inst epoch w1 \<noteq> (Ok x, w2)" for origin inst epoch x w2
    using spec_OkD [OF sabledb.exchange_pairing_spec [OF assms(1) free1], of code origin inst epoch x w2] no by (auto split: prod.splits)
  have 2: "consume_outbound_realm_pairing E code origin inst epoch uid credential scopes w1 \<noteq> (Ok y, w2)" for origin inst epoch uid credential scopes y w2
    using spec_OkD [OF sabledb.outbound_pairing_spec [OF assms(1) free1], of code origin inst epoch uid credential scopes y w2] no by blast
  have "\<exists>p. view (w_db w) (pairing_key E code) = Some (VPairing p) \<and> env_clock E (w_ticks w) < pairing_expires_at p \<and>
       fg_granted_scopes g = pairing_requested_scopes p" using i by (auto simp: issued_def new_grant_def)
  then show ?thesis using ok(1) [OF assms(3)] ok(2,4) 1 2 by blast
qed

text \<open>C35: a withdrawn Fleet credential is refused. The lookup of a credential answers exactly with the live grant it
  stands for. After a revocation no credential stands for the connection; after a rotation only credentials of the
  new digest do, and unless the request was a replay the new credential does until the grant expires.\<close>

theorem fleet_credential_withdrawn:
  assumes "sabledb E view" "idle w" "grants_ok E (view (w_db w))"
  shows "(\<forall>c r w1. realm_fleet_grant_by_credential E c w = (Ok r, w1) \<longrightarrow>
      (\<forall>g. r = Some g \<longleftrightarrow> authorizes E (view (w_db w)) (env_clock E (w_ticks w)) c g)) \<and>
    (\<forall>uid g w1. revoke_realm_fleet_grant E uid w = (Ok g, w1) \<longrightarrow> grants_ok E (view (w_db w1)) \<and>
      (\<forall>c t g'. authorizes E (view (w_db w1)) t c g' \<longrightarrow> fg_connection_id g' \<noteq> uid)) \<and>
    (\<forall>uid rid c hint g w1. rotate_realm_fleet_grant E uid rid c hint w = (Ok g, w1) \<longrightarrow> grants_ok E (view (w_db w1)) \<and>
      (\<forall>c' t g'. authorizes E (view (w_db w1)) t c' g' \<and> fg_connection_id g' = uid \<longrightarrow>
         credential_digest E c' = credential_digest E c \<and> g' = g) \<and>
      (view (w_db w) (grant_rotation_key E rid) = None \<longrightarrow> (\<forall>t. t < fg_expires_at g \<longrightarrow> authorizes E (view (w_db w1)) t c g)))"
proof -
  have free: "w_mutation w = Free" "w_writer w = Free" using assms(2) by (simp_all add: idle_def)
  have 1: "r = Some g \<longleftrightarrow> authorizes E (view (w_db w)) (env_clock E (w_ticks w)) c g"
    if "realm_fleet_grant_by_credential E c w = (Ok r, w1)" for c r w1 g
    using spec_OkD [OF sabledb.lookup_grant_spec [OF assms(1)] that] by blast
  have 2: "grants_ok E (view (w_db w1)) \<and> (\<forall>c t g'. authorizes E (view (w_db w1)) t c g' \<longrightarrow> fg_connection_id g' \<noteq> uid)"
    if "revoke_realm_fleet_grant E uid w = (Ok g, w1)" for uid g w1
  proof -
    note r = spec_OkD [OF sabledb.revoke_grant_spec [OF assms(1) free] that]
    have c: "fg_connection_id g = uid" using r assms(3) by (auto dest: grants_okD)
    have v: "view (w_db w1) (grant_key E i) = (if i = uid then Some (VGrant g) else view (w_db w) (grant_key E i))" for i
      using r sabledb.grant_key_inject [OF assms(1)] by auto
    then have ok: "grants_ok E (view (w_db w1))" using assms(3) c by (auto simp: grants_ok_def)
    have "view (w_db w1) (grant_key E uid) = Some (VGrant g)" using v by simp
    from sabledb.not_authorized [OF assms(1) ok this] r ok show ?thesis by blast
  qed
  have 3: "grants_ok E (view (w_db w1)) \<and> (\<forall>c' t g'. authorizes E (view (w_db w1)) t c' g' \<and> fg_connection_id g' = uid \<longrightarrow>
         credential_digest E c' = credential_digest E c \<and> g' = g) \<and>
      (view (w_db w) (grant_rotation_key E rid) = None \<longrightarrow> (\<forall>t. t < fg_expires_at g \<longrightarrow> authorizes E (view (w_db w1)) t c g))"
    if "rotate_realm_fleet_grant E uid rid c hint w = (Ok g, w1)" for uid rid c hint g w1
  proof -
    have r: "rotation_done E (view (w_db w)) uid rid c g (view (w_db w1))"
      using spec_OkD [OF sabledb.rotate_grant_spec [OF assms(1) free] that] by blast
    note ok = sabledb.rotation_ok [OF assms(1) r assms(3)]
    have "g' = g" if a: "authorizes E (view (w_db w1)) t c' g'" "fg_connection_id g' = uid" for c' t g'
    proof -
      obtain i where "view (w_db w1) (grant_key E i) = Some (VGrant g')" using a(1) unfolding authorizes_def by blast
      then show ?thesis using grants_okD [OF ok(1)] a(2) ok(2) by force
    qed
    then show ?thesis using sabledb.not_authorized [OF assms(1) ok(1,2)] ok(1,4,6) by metis
  qed
  show ?thesis using 1 2 3 by blast
qed

definition pairing_example :: RealmPairingRecord where
  "pairing_example = \<lparr>pairing_id = 2, pairing_realm_id = ''r'', pairing_control_plane_origin = ''o'', pairing_requested_scopes = [''read''],
     pairing_created_by = 7, pairing_created_at = 1, pairing_expires_at = 601\<rparr>"

definition pairing_world :: "mem world" where
  "pairing_world = mem_world [(pairing_key (mem_env (\<lambda>_. 9)) ''rpair_x'', VPairing pairing_example)] []"

lemma pairing_world_ok: "idle pairing_world" "grants_ok (mem_env (\<lambda>_. 9)) (mem_view (w_db pairing_world))"
  by (simp_all add: pairing_world_def mem_world_def mem_view_def idle_def grants_ok_def)

lemma pairing_exchange_run: "\<exists>x. fst (exchange_realm_pairing (mem_env (\<lambda>_. 9)) ''rpair_x'' ''o'' ''i'' 1 pairing_world) = Ok x"
  by (simp add: run_simps exchange_realm_pairing_def take_pairing_def pairing_world_def pairing_example_def)

theorem fleet_pairing_single_use_witness:
  "let E = mem_env (\<lambda>_. 9); w1 = snd (exchange_realm_pairing E ''rpair_x'' ''o'' ''i'' 1 pairing_world) in
   \<exists>g c. fst (exchange_realm_pairing E ''rpair_x'' ''o'' ''i'' 1 pairing_world) = Ok (g, c) \<and> fg_granted_scopes g = [''read''] \<and>
     (\<forall>x. fst (exchange_realm_pairing E ''rpair_x'' ''o'' ''i'' 1 w1) \<noteq> Ok x)"
proof -
  let ?E = "mem_env (\<lambda>_. 9)"
  obtain g c where r: "fst (exchange_realm_pairing ?E ''rpair_x'' ''o'' ''i'' 1 pairing_world) = Ok (g, c)" using pairing_exchange_run by fastforce
  note p = fleet_pairing_single_use [OF memory.sabledb_axioms pairing_world_ok disjI1 [OF run_result [OF r]]]
  have "mem_view (w_db pairing_world) (pairing_key ?E ''rpair_x'') = Some (VPairing pairing_example)"
    by (simp add: pairing_world_def mem_world_def mem_view_def)
  then have s: "fg_granted_scopes g = [''read'']" using p by (auto simp: pairing_example_def)
  have "fst (exchange_realm_pairing ?E ''rpair_x'' ''o'' ''i'' 1 (snd (exchange_realm_pairing ?E ''rpair_x'' ''o'' ''i'' 1 pairing_world))) \<noteq> Ok x" for x
    using p [THEN conjunct2, THEN conjunct2, THEN conjunct2, THEN conjunct2] run_result [of _ "Ok x"] by blast
  then show ?thesis unfolding Let_def using r s by blast
qed

definition fleet_grant_example :: RealmFleetGrantRecord where
  "fleet_grant_example = \<lparr>fg_connection_id = 4, fg_realm_id = ''r'', fg_control_plane_origin = ''o'', fg_control_plane_instance_id = ''i'',
     fg_assignment_epoch = 1, fg_credential_digest = credential_digest (mem_env (\<lambda>_. 9)) ''rfg_x'', fg_credential_hint = ''x'',
     fg_granted_scopes = [''read''], fg_created_at = 1, fg_expires_at = 60, fg_revoked_at = None\<rparr>"

definition fleet_grant_world :: "mem world" where
  "fleet_grant_world = (let E = mem_env (\<lambda>_. 9) in mem_world [(grant_key E 4, VGrant fleet_grant_example),
     (grant_secret_key (credential_digest E ''rfg_x''), VStr (uuid_text E 4))] [])"

lemma fleet_grant_world_ok: "idle fleet_grant_world" "grants_ok (mem_env (\<lambda>_. 9)) (mem_view (w_db fleet_grant_world))"
  by (auto simp: fleet_grant_world_def Let_def mem_world_def mem_view_def idle_def grants_ok_def memory.grant_key_inject fleet_grant_example_def)

theorem fleet_credential_withdrawn_witness:
  "let E = mem_env (\<lambda>_. 9); w1 = snd (revoke_realm_fleet_grant E 4 fleet_grant_world) in
   fst (realm_fleet_grant_by_credential E ''rfg_x'' fleet_grant_world) = Ok (Some fleet_grant_example) \<and>
   (\<exists>g. fst (revoke_realm_fleet_grant E 4 fleet_grant_world) = Ok g) \<and>
   (\<forall>c t g. authorizes E (mem_view (w_db w1)) t c g \<longrightarrow> fg_connection_id g \<noteq> 4)"
proof -
  let ?E = "mem_env (\<lambda>_. 9)"
  have l: "fst (realm_fleet_grant_by_credential ?E ''rfg_x'' fleet_grant_world) = Ok (Some fleet_grant_example)"
    by (simp add: run_simps realm_fleet_grant_by_credential_def fleet_grant_world_def fleet_grant_example_def)
  have "\<exists>g. fst (revoke_realm_fleet_grant ?E 4 fleet_grant_world) = Ok g"
    by (simp add: run_simps revoke_realm_fleet_grant_def fleet_grant_world_def fleet_grant_example_def)
  then obtain g where r: "fst (revoke_realm_fleet_grant ?E 4 fleet_grant_world) = Ok g" by blast
  from fleet_credential_withdrawn [OF memory.sabledb_axioms fleet_grant_world_ok, THEN conjunct2, THEN conjunct1, rule_format, OF run_result [OF r]] l r
  show ?thesis unfolding Let_def by blast
qed

end
