(* ===== verification/Snapshot.thy ===== *)
theory Snapshot
  imports Sessions Webhooks Operators FleetGrants WriterLease
begin

text \<open>
  Logical snapshots (\<open>src/src/store/snapshot.rs\<close>): the scan of the managed keys, the explicit policy per key
  family, the export in batches, the restore into an empty database in chunks with its in-progress mark, and
  the backup lease. An exported snapshot is exactly the durable part of the database; restoring it
  reproduces that part. The policy does not know two families that the program writes.
\<close>

abbreviation SNAPSHOT_READ_BATCH_SIZE :: nat where
  "SNAPSHOT_READ_BATCH_SIZE \<equiv> 250"

abbreviation MAX_SNAPSHOT_VALUE_BYTES :: nat where
  "MAX_SNAPSHOT_VALUE_BYTES \<equiv> 8 * 1024 * 1024"

definition RESTORE_SENTINEL :: string where
  "RESTORE_SENTINEL = ''auth:restore:in-progress''"

definition BACKUP_LEASE_KEY :: string where
  "BACKUP_LEASE_KEY = ''auth:backup:lease''"

record StoreRecord =
  rec_key :: string
  rec_value :: "value"
  rec_expires_at :: "u64 option"

datatype SnapshotKeyPolicy = Include | Exclude

section \<open>Key families\<close>

definition analytics_prefixes :: "string list" where
  "analytics_prefixes = [''analytics:bucket:'', ''analytics:outbox:'']"

definition fleet_prefixes :: "string list" where
  "fleet_prefixes = [''fleet:organization:'', ''fleet:organization-slug:'', ''fleet:project:'', ''fleet:project-slug:'',
     ''fleet:environment:'', ''fleet:environment-slug:'', ''fleet:connection:'', ''fleet:role-binding:'',
     ''fleet:role-binding-subject:'', ''fleet:idempotency:'', ''fleet:assignment-epoch:'', ''fleet:audit:'',
     ''fleet:analytics-bucket:'', ''fleet:analytics-policy:'', ''fleet:analytics-policy-idempotency:'',
     ''fleet:analytics-quarantine:'', ''fleet:analytics-ingestion-audit:'', ''fleet:analytics-operator-audit:'',
     ''fleet:analytics-maintenance-audit:'', ''fleet:analytics-manifest:'']"

definition auth_prefixes :: "string list" where
  "auth_prefixes = [''auth:user:'', ''auth:email:'', ''auth:identifier:'', ''auth:credential:'', ''auth:session:'', ''auth:event:'',
     ''auth:invitation:'', ''auth:invitation-code:'', ''auth:webhook:'', ''auth:webhook-cursor:'', ''auth:webhook-delivery:'',
     ''auth:webhook-delivery-event:'', OPERATOR_PREFIX, SERVICE_ACCOUNT_PREFIX, SERVICE_CREDENTIAL_PREFIX,
     ''auth:fleet-grant:'', ''auth:fleet-grant-secret:'', ''auth:remote-mutation:'']"

definition transient_prefixes :: "string list" where
  "transient_prefixes = [''auth:registration:'', ''auth:authentication:'', ''auth:identifier-verification:'', ''auth:agent-handoff:'',
     ''auth:rate-limit:'', ''auth:session-activity:'', ''auth:fleet-pairing:'', ''auth:backup:'', OPERATOR_SEEN_PREFIX,
     ''fleet:connection-attempt:'', ''fleet:operations-cache:'', ''fleet:analytics-quota:'', ''fleet:analytics-quota-batch:'']"

text \<open>The keys that are policies of their own.\<close>

definition analytics_keys :: "string list" where
  "analytics_keys = [''analytics:projector-cursor'', ''analytics:closure-cursor'']"

definition auth_keys :: "string list" where
  "auth_keys = [''auth:event-sequence'', ''auth:event-min-sequence'', ''auth:jwt:keyset:v1'', ORGANIZATION_KEY]"

definition transient_keys :: "string list" where
  "transient_keys = [''auth:jwt:active'', ''auth:jwt:maintenance-lock'', ''auth:writer-lease'', RESTORE_SENTINEL]"

definition snapshot_key_policy :: "string \<Rightarrow> store_error + SnapshotKeyPolicy" where
  "snapshot_key_policy key =
     (if key \<in> set analytics_keys \<or>
         list_ex (\<lambda>pre. starts_with pre key \<and> length key > length pre) analytics_prefixes then Inr Include
      else if list_ex (\<lambda>pre. starts_with pre key \<and> length key > length pre) fleet_prefixes then Inr Include
      else if key \<in> set auth_keys \<or>
         list_ex (\<lambda>pre. starts_with pre key) auth_prefixes then Inr Include
      else if key \<in> set transient_keys \<or>
         list_ex (\<lambda>pre. starts_with pre key) transient_prefixes then Inr Exclude
      else Inl (Bail (''unknown RustyAuth key family in snapshot: '' @ key)))"

definition managed_batch :: "string list \<Rightarrow> string list \<Rightarrow> store_error + string list" where
  "managed_batch batch keys =
     (let keys = fold insort_insert batch keys in
      if length keys > MAX_SNAPSHOT_KEYS then Inl (Bail ''RustyAuth namespace exceeds the one-million-key safety limit'') else Inr keys)"

fun managed_scans :: "'db env \<Rightarrow> string list \<Rightarrow> string list \<Rightarrow> ('db, string list) sm" where
  "managed_scans E [] keys = ret keys"
| "managed_scans E (pre # pres) keys = sbind (scan_all E pre 500 managed_batch keys) (managed_scans E pres)"

definition managed_keys :: "'db env \<Rightarrow> ('db, string list) sm" where
  "managed_keys E = managed_scans E [''auth:'', ''fleet:'', ''analytics:''] []"

section \<open>Export\<close>

fun included_keys :: "string list \<Rightarrow> store_error + string list" where
  "included_keys [] = Inr []"
| "included_keys (key # keys) = (case snapshot_key_policy key of
     Inl e \<Rightarrow> Inl e
   | Inr Exclude \<Rightarrow> included_keys keys
   | Inr Include \<Rightarrow> map_sum id (\<lambda>keys. key # keys) (included_keys keys))"

fun snapshot_batch :: "'db env \<Rightarrow> u64 \<Rightarrow> ((string \<times> value option) \<times> int) list \<Rightarrow> store_error + StoreRecord list" where
  "snapshot_batch E captured_at [] = Inr []"
| "snapshot_batch E captured_at (((key, found), ttl) # rest) = (case found of
     None \<Rightarrow> snapshot_batch E captured_at rest
   | Some doc \<Rightarrow>
       if doc_len E doc > MAX_SNAPSHOT_VALUE_BYTES then Inl (Bail (''snapshot record '' @ key @ '' exceeds the 8 MiB safety limit''))
       else if ttl = -1 then map_sum id (\<lambda>rs. \<lparr>rec_key = key, rec_value = doc, rec_expires_at = None\<rparr> # rs) (snapshot_batch E captured_at rest)
       else if ttl \<ge> 0 then
         map_sum id (\<lambda>rs. \<lparr>rec_key = key, rec_value = doc, rec_expires_at = Some (saturating_add captured_at (word_of_int ttl))\<rparr> # rs)
           (snapshot_batch E captured_at rest)
       else if ttl = -2 then snapshot_batch E captured_at rest
       else Inl (Bail (''SableDB returned invalid TTL -'' @ dec_string (nat (- ttl)) @ '' for '' @ key)))"

text \<open>A pipeline of reads is the sequence of its reads.\<close>

function export_batches :: "'db env \<Rightarrow> u64 \<Rightarrow> string list \<Rightarrow> StoreRecord list \<Rightarrow> ('db, StoreRecord list) sm" where
  "export_batches E captured_at remaining_keys records =
     (let keys = take SNAPSHOT_READ_BATCH_SIZE remaining_keys in
      if keys = [] then ret records else
      sbind (smap (\<lambda>key. db_cmd (sb_get E key)) keys) (\<lambda>found.
      sbind (smap (\<lambda>key. db_cmd (sb_ttl E key)) keys) (\<lambda>ttls.
      if length found \<noteq> length keys \<or> length ttls \<noteq> length keys then fail (Bail ''SableDB returned an incomplete snapshot batch'') else
      sbind (lift_result (snapshot_batch E captured_at (zip (zip keys found) ttls))) (\<lambda>rs.
      export_batches E captured_at (drop SNAPSHOT_READ_BATCH_SIZE remaining_keys) (records @ rs)))))"
  by pat_completeness auto
termination by (relation "measure (\<lambda>(_, _, keys, _). length keys)") auto

definition export_records :: "'db env \<Rightarrow> ('db, u64 \<times> StoreRecord list) sm" where
  "export_records E =
     with_snapshot_write (
       sbind (now E) (\<lambda>captured_at.
       sbind (managed_keys E) (\<lambda>keys.
       sbind (lift_result (included_keys keys)) (\<lambda>included.
       sbind (export_batches E captured_at included []) (\<lambda>records.
       ret (captured_at, sort_key rec_key records))))))"

section \<open>Restore\<close>

definition restored_value :: "bool \<Rightarrow> string \<Rightarrow> value \<Rightarrow> store_error + value" where
  "restored_value preserve_sessions key doc =
     (if starts_with ''auth:user:'' key then
        (case as_user doc of
           None \<Rightarrow> Inl Decode
         | Some u \<Rightarrow> map_sum id (\<lambda>u. VUser (if preserve_sessions then u
             else u\<lparr>user_session_version := saturating_add (user_session_version u) 1\<rparr>)) (normalize_and_validate u))
      else Inr doc)"

definition skipped :: "bool \<Rightarrow> u64 \<Rightarrow> StoreRecord \<Rightarrow> bool" where
  "skipped preserve_sessions current r \<longleftrightarrow> starts_with ''auth:session:'' (rec_key r) \<and> \<not> preserve_sessions \<or>
     (case rec_expires_at r of Some expires_at \<Rightarrow> expires_at \<le> current | None \<Rightarrow> False)"

fun restore_cmds :: "bool \<Rightarrow> u64 \<Rightarrow> StoreRecord list \<Rightarrow> store_error + cmd list" where
  "restore_cmds preserve_sessions current [] = Inr []"
| "restore_cmds preserve_sessions current (r # rs) =
     (if skipped preserve_sessions current r then restore_cmds preserve_sessions current rs else
      case restored_value preserve_sessions (rec_key r) (rec_value r) of
        Inl e \<Rightarrow> Inl e
      | Inr doc \<Rightarrow> map_sum id (\<lambda>cs. (case rec_expires_at r of
            None \<Rightarrow> SET (rec_key r) doc
          | Some expires_at \<Rightarrow> SETEX (rec_key r) doc (max (saturating_sub expires_at current) 1)) # cs)
          (restore_cmds preserve_sessions current rs))"

function restore_chunks :: "'db env \<Rightarrow> bool \<Rightarrow> u64 \<Rightarrow> StoreRecord list \<Rightarrow> nat \<Rightarrow> ('db, nat) sm" where
  "restore_chunks E preserve_sessions current records restored =
     (if records = [] then ret restored else
      sbind (lift_result (restore_cmds preserve_sessions current (take 250 records))) (\<lambda>queued.
      if queued = [] then restore_chunks E preserve_sessions current (drop 250 records) restored else
      sbind (db_cmd (sb_exec E queued)) (\<lambda>_.
      restore_chunks E preserve_sessions current (drop 250 records) (restored + length queued))))"
  by pat_completeness auto
termination by (relation "measure (\<lambda>(_, _, _, records, _). length records)") auto

fun check_records :: "'db env \<Rightarrow> StoreRecord list \<Rightarrow> store_error + unit" where
  "check_records E [] = Inr ()"
| "check_records E (r # rs) = (case snapshot_key_policy (rec_key r) of
     Inl e \<Rightarrow> Inl e
   | Inr Exclude \<Rightarrow> Inl (Bail (''restore contains an excluded transient key '' @ rec_key r))
   | Inr Include \<Rightarrow> if doc_len E (rec_value r) > MAX_SNAPSHOT_VALUE_BYTES
       then Inl (Bail (''restore record '' @ rec_key r @ '' exceeds the 8 MiB safety limit'')) else check_records E rs)"

definition restore_records :: "'db env \<Rightarrow> StoreRecord list \<Rightarrow> bool \<Rightarrow> ('db, nat) sm" where
  "restore_records E records preserve_sessions =
     with_snapshot_write (
       sbind (managed_keys E) (\<lambda>keys.
       if keys \<noteq> [] then fail (Bail ''restore destination is not empty; use a new SableDB volume'')
       else if length records > MAX_SNAPSHOT_KEYS \<or> list_ex (\<lambda>(a, b). rec_key a \<ge> rec_key b) (zip records (tl records))
       then fail (Bail ''restore records must be uniquely sorted within the key safety limit'') else
       sbind (lift_result (check_records E records)) (\<lambda>_.
       sbind (now E) (\<lambda>started.
       sbind (db_cmd (sb_exec E [SET RESTORE_SENTINEL (VNum started)])) (\<lambda>_.
       sbind (now E) (\<lambda>current.
       restore_chunks E preserve_sessions current records 0))))))"

definition complete_restore :: "'db env \<Rightarrow> ('db, unit) sm" where
  "complete_restore E = delete_key E RESTORE_SENTINEL"

definition ensure_restore_complete :: "'db env \<Rightarrow> ('db, unit) sm" where
  "ensure_restore_complete E =
     sbind (exists_key E RESTORE_SENTINEL) (\<lambda>found.
     fail_if found (Bail ''an incomplete restore marker is present; discard this SableDB volume and restore into a new one''))"

section \<open>The backup lease\<close>

definition acquire_backup_lease :: "'db env \<Rightarrow> ('db, string option) sm" where
  "acquire_backup_lease E =
     sbind (new_v4 E) (\<lambda>token.
     let token = uuid_text E token in
     sbind (db_cmd (sb_setnx E BACKUP_LEASE_KEY (VStr token) (Some 3600))) (\<lambda>response.
     ret (if response then Some token else None)))"

definition is_unknown_command :: "string \<Rightarrow> bool" where
  "is_unknown_command text =
     (let text = to_ascii_lowercase text in contains_sub ''unknown command'' text \<or> contains_sub ''unsupported command'' text)"

text \<open>The outcome of the release is only logged.\<close>

definition release_backup_lease :: "'db env \<Rightarrow> string \<Rightarrow> ('db, unit) sm" where
  "release_backup_lease E token =
     sbind (attempt (db_cmd (sb_delifeq E BACKUP_LEASE_KEY (VStr token)))) (\<lambda>response.
     sbind (case response of
         Inl (Redis e) \<Rightarrow> if is_unknown_command e then attempt (db_cmd (sb_eval_cad E BACKUP_LEASE_KEY (VStr token))) else ret response
       | _ \<Rightarrow> ret response) (\<lambda>released.
     ret ()))"

declare export_batches.simps [simp del] restore_chunks.simps [simp del]

section \<open>Export is exact\<close>

definition managed :: "string \<Rightarrow> bool" where
  "managed k \<longleftrightarrow> starts_with ''auth:'' k \<or> starts_with ''fleet:'' k \<or> starts_with ''analytics:'' k"

definition durable :: "string \<Rightarrow> bool" where
  "durable k \<longleftrightarrow> snapshot_key_policy k = Inr Include"

lemma starts_with_conv: "starts_with p k \<longleftrightarrow> (\<exists>t. k = p @ t)"
  by (auto simp: starts_with_def) (metis append_take_drop_id)

lemma map_sum_Inr: "map_sum id f x = Inr y \<longleftrightarrow> (\<exists>z. x = Inr z \<and> y = f z)"
  by (cases x) auto

lemma starts_with_trans: "starts_with p q \<Longrightarrow> starts_with q k \<Longrightarrow> starts_with p k"
  by (auto simp: starts_with_conv)

lemma prefixes_managed:
  "\<forall>q \<in> set analytics_prefixes. starts_with ''analytics:'' q" "\<forall>q \<in> set fleet_prefixes. starts_with ''fleet:'' q"
  "\<forall>q \<in> set auth_prefixes. starts_with ''auth:'' q"
  by (simp_all add: analytics_prefixes_def fleet_prefixes_def auth_prefixes_def starts_with_def)

lemma durable_managed: "durable k \<Longrightarrow> managed k"
proof -
  have lists: "managed k" if h: "list_ex (\<lambda>q. starts_with q k \<and> P q) qs" "\<forall>q \<in> set qs. starts_with p q" "p \<in> {''auth:'', ''fleet:'', ''analytics:''}" for p P qs
  proof -
    obtain q where "q \<in> set qs" "starts_with q k" using h(1) by (auto simp: list_ex_iff)
    then have "starts_with p k" using that(2) starts_with_trans by blast
    then show ?thesis using that(3) by (auto simp: managed_def)
  qed
  have named: "managed k" if "k \<in> set analytics_keys \<or> k \<in> set auth_keys"
    using that by (auto simp: managed_def starts_with_def analytics_keys_def auth_keys_def)
  assume "durable k"
  then consider "k \<in> set analytics_keys \<or> k \<in> set auth_keys" | "list_ex (\<lambda>q. starts_with q k \<and> length k > length q) analytics_prefixes"
    | "list_ex (\<lambda>q. starts_with q k \<and> length k > length q) fleet_prefixes" | "list_ex (\<lambda>q. starts_with q k \<and> True) auth_prefixes"
    unfolding durable_def snapshot_key_policy_def by (auto split: if_splits)
  then show ?thesis
    by cases (rule named, assumption | erule lists, rule prefixes_managed, simp)+
qed

lemma included_keys_Inr:
  "included_keys ks = Inr ks' \<Longrightarrow> ks' = filter durable ks \<and> (\<forall>k \<in> set ks. \<exists>p. snapshot_key_policy k = Inr p)"
  by (induction ks arbitrary: ks') (auto simp: durable_def map_sum_Inr split: sum.splits SnapshotKeyPolicy.splits)

lemma snapshot_batch_Inr:
  assumes "list_all2 (\<lambda>k y. y = v k) ks ys" "list_all2 (\<lambda>k t. - 2 \<le> t \<and> (t = - 2 \<longleftrightarrow> v k = None)) ks ts"
    "snapshot_batch E t0 (zip (zip ks ys) ts) = Inr rs"
  shows "map rec_key rs = filter (\<lambda>k. v k \<noteq> None) ks \<and> (\<forall>r \<in> set rs. v (rec_key r) = Some (rec_value r))"
  using assms
proof (induction ks arbitrary: ys ts rs)
  case (Cons k ks)
  obtain ys' where ys: "ys = v k # ys'" "list_all2 (\<lambda>k y. y = v k) ks ys'" using Cons.prems(1) by (auto simp: list_all2_Cons1)
  obtain t ts' where ts: "ts = t # ts'" "- 2 \<le> t" "t = - 2 \<longleftrightarrow> v k = None" "list_all2 (\<lambda>k t. - 2 \<le> t \<and> (t = - 2 \<longleftrightarrow> v k = None)) ks ts'"
    using Cons.prems(2) by (auto simp: list_all2_Cons1)
  note IH = Cons.IH [OF ys(2) ts(4)]
  show ?case
  proof (cases "v k")
    case None
    then show ?thesis using IH Cons.prems(3) ys(1) ts(1) by simp
  next
    case (Some x)
    have "snapshot_batch E t0 (zip (zip ks ys') ts') = Inr rs' \<Longrightarrow> rs = \<lparr>rec_key = k, rec_value = x, rec_expires_at = e\<rparr> # rs' \<Longrightarrow> ?thesis" for rs' e
      using IH [of rs'] Some by simp
    then show ?thesis using Cons.prems(3) ys(1) ts(1,2,3) Some
      by (cases "snapshot_batch E t0 (zip (zip ks ys') ts')") (auto split: if_splits)
  qed
qed simp

context sabledb
begin

lemma get_reads: "spec (db_cmd (sb_get E k)) (\<lambda>y w'. keeps w w' \<and> content w' = content w \<and> y = content w k) (\<lambda>_ w'. keeps w w' \<and> content w' = content w) w"
  unfolding spec_def by (auto simp: keeps_def intro!: wp_get)

lemma ttl_reads: "spec (db_cmd (sb_ttl E k)) (\<lambda>t w'. keeps w w' \<and> content w' = content w \<and> - 2 \<le> t \<and> (t = - 2 \<longleftrightarrow> content w k = None))
    (\<lambda>_ w'. keeps w w' \<and> content w' = content w) w"
  unfolding spec_def using ttl_law [of k "w_db w"] by (auto simp: wp_db_cmd keeps_def split: prod.splits sum.splits)

lemma export_batches_spec:
  "spec (export_batches E t0 ks rs)
     (\<lambda>rs' w'. keeps w w' \<and> content w' = content w \<and> (\<exists>new. rs' = rs @ new \<and> map rec_key new = filter (\<lambda>k. content w k \<noteq> None) ks \<and>
        (\<forall>r \<in> set new. content w (rec_key r) = Some (rec_value r))))
     (\<lambda>_ w'. keeps w w' \<and> content w' = content w) w"
proof (induction "length ks" arbitrary: ks rs w rule: less_induct)
  case less
  let ?b = "take SNAPSHOT_READ_BATCH_SIZE ks" and ?rest = "drop SNAPSHOT_READ_BATCH_SIZE ks"
  show ?case
  proof (cases "?b = []")
    case True
    then have "ks = []" by simp
    then show ?thesis by (subst export_batches.simps) (simp add: spec_def wp_simps)
  next
    case False
    then have "length ?rest < length ks" by simp
    note IH = less.hyps [OF this]
    have ks: "filter P ks = filter P ?b @ filter P ?rest" for P :: "string \<Rightarrow> bool" by (metis append_take_drop_id filter_append)
    show ?thesis unfolding export_batches.simps [of E t0 ks] Let_def if_not_P [OF False]
    proof (rule spec_bind [OF smap_reads [where P = "\<lambda>k v y. y = v k", OF get_reads]], goal_cases)
      case (1 ys w1)
      then show ?case
      proof (intro spec_bind [OF smap_reads [where P = "\<lambda>k v t. - 2 \<le> t \<and> (t = - 2 \<longleftrightarrow> v k = None)", OF ttl_reads]], goal_cases)
        case (1 ts w2)
        then have w2: "keeps w w2" "content w2 = content w" by (auto intro: keeps_trans)
        show ?case
        proof (cases "snapshot_batch E t0 (zip (zip ?b ys) ts)")
          case (Inl e)
          then show ?thesis using w2 by (simp add: spec_def wp_simps)
        next
          case (Inr new)
          have l: "length ys = length ?b" "length ts = length ?b" using 1 by (auto dest: list_all2_lengthD)
          have n: "map rec_key new = filter (\<lambda>k. content w k \<noteq> None) ?b \<and> (\<forall>r \<in> set new. content w (rec_key r) = Some (rec_value r))"
            by (rule snapshot_batch_Inr [OF _ _ Inr]) (use 1 in auto)
          have "spec (export_batches E t0 ?rest (rs @ new))
             (\<lambda>rs' w'. keeps w w' \<and> content w' = content w \<and> (\<exists>new. rs' = rs @ new \<and> map rec_key new = filter (\<lambda>k. content w k \<noteq> None) ks \<and>
                (\<forall>r \<in> set new. content w (rec_key r) = Some (rec_value r))))
             (\<lambda>_ w'. keeps w w' \<and> content w' = content w) w2"
          proof (rule spec_conseq [OF IH], goal_cases)
            case (1 rs' w')
            then obtain more where m: "rs' = (rs @ new) @ more" "map rec_key more = filter (\<lambda>k. content w k \<noteq> None) ?rest"
              "\<forall>r \<in> set more. content w (rec_key r) = Some (rec_value r)" "keeps w2 w'" "content w' = content w" using w2 by auto
            show ?case using m n w2 keeps_trans [OF w2(1) m(4)] unfolding ks by (intro conjI exI [of _ "new @ more"]) auto
          qed (use w2 in \<open>auto intro: keeps_trans\<close>)
          then show ?thesis using l Inr by (simp add: spec_def wp_simps)
        qed
      qed (auto intro: keeps_trans)
    qed simp
  qed
qed

end

lemma spec_with_snapshot_write:
  assumes "idle w" "spec m (\<lambda>x w'. keeps (w\<lparr>w_writer := Held\<rparr>) w' \<and> P x (w_db w')) (\<lambda>e w'. keeps (w\<lparr>w_writer := Held\<rparr>) w' \<and> R e (w_db w')) (w\<lparr>w_writer := Held\<rparr>)"
  shows "spec (with_snapshot_write m) (\<lambda>x w'. keeps w w' \<and> P x (w_db w')) (\<lambda>e w'. keeps w w' \<and> R e (w_db w')) w"
  unfolding spec_def using assms(1)
  by (auto simp: wp_simps idle_def keeps_def intro!: wp_use [OF assms(2)])

text \<open>The records of a snapshot of the content \<open>v\<close>: its durable part, in key order.\<close>

definition snapshot_of :: "db_view \<Rightarrow> StoreRecord list \<Rightarrow> bool" where
  "snapshot_of v rs \<longleftrightarrow> sorted_wrt (<) (map rec_key rs) \<and> set (map rec_key rs) = {k. durable k \<and> v k \<noteq> None} \<and>
     (\<forall>r \<in> set rs. v (rec_key r) = Some (rec_value r)) \<and> (\<forall>k. managed k \<and> v k \<noteq> None \<longrightarrow> (\<exists>p. snapshot_key_policy k = Inr p))"

lemma snapshot_ofI:
  assumes "included_keys ks = Inr inc" "distinct ks" "set ks = {k. managed k \<and> v k \<noteq> None}"
    and "map rec_key rs = filter (\<lambda>k. v k \<noteq> None) inc" "\<forall>r \<in> set rs. v (rec_key r) = Some (rec_value r)"
  shows "snapshot_of v (sort_key rec_key rs)"
proof -
  note inc = included_keys_Inr [OF assms(1)]
  have "set (map rec_key rs) = {k. durable k \<and> v k \<noteq> None}" unfolding assms(4) using inc assms(3) durable_managed by auto
  moreover have "distinct (map rec_key (sort_key rec_key rs))"
  proof -
    have "distinct (map rec_key rs)" unfolding assms(4) using inc assms(2) by simp
    then have "inj_on rec_key (set rs)" "distinct rs" by (simp_all add: distinct_map)
    then show ?thesis by (simp add: distinct_map)
  qed
  ultimately show ?thesis unfolding snapshot_of_def using assms(3,5) inc by (simp add: strict_sorted_iff)
qed

context scanning
begin

lemma managed_scans_spec:
  assumes "sorted ks" "distinct ks"
  shows "spec (managed_scans E pres ks)
     (\<lambda>ks' w'. keeps w w' \<and> content w' = content w \<and> sorted ks' \<and> distinct ks' \<and> set ks' = set ks \<union> (\<Union>pre \<in> set pres. keys_of (content w) pre))
     (\<lambda>_ w'. keeps w w' \<and> content w' = content w) w"
  using assms
proof (induction pres arbitrary: ks w)
  case (Cons pre pres)
  have "spec (scan_all E pre 500 managed_batch ks)
     (\<lambda>ks' w'. keeps w w' \<and> content w' = content w \<and> sorted ks' \<and> distinct ks' \<and> set ks' = set ks \<union> keys_of (content w) pre)
     (\<lambda>_ w'. keeps w w' \<and> content w' = content w) w"
    unfolding spec_def
    by (rule wp_scan [where I = "\<lambda>S ks'. sorted ks' \<and> distinct ks' \<and> set ks' = set ks \<union> S"])
      (auto simp: Cons.prems keeps_def managed_batch_def Let_def fold_insort_insert split: if_splits)
  then show ?case unfolding managed_scans.simps
  proof (rule spec_bind, goal_cases)
    case (1 ks' w1)
    show ?case by (rule spec_conseq [OF Cons.IH [of ks' w1]]) (use 1 in \<open>auto intro: keeps_trans\<close>)
  qed simp
qed (simp add: spec_def wp_simps)

lemma managed_keys_spec:
  "spec (managed_keys E)
     (\<lambda>ks w'. keeps w w' \<and> content w' = content w \<and> sorted ks \<and> distinct ks \<and> set ks = {k. managed k \<and> content w k \<noteq> None})
     (\<lambda>_ w'. keeps w w' \<and> content w' = content w) w"
  unfolding managed_keys_def by (rule spec_conseq [OF managed_scans_spec]) (auto simp: managed_def keys_of_def)

lemma export_spec:
  assumes "idle w"
  shows "spec (export_records E) (\<lambda>r w'. keeps w w' \<and> content w' = content w \<and> snapshot_of (content w) (snd r))
     (\<lambda>_ w'. keeps w w' \<and> content w' = content w) w"
proof -
  have "spec (sbind (now E) (\<lambda>t. sbind (managed_keys E) (\<lambda>ks. sbind (lift_result (included_keys ks)) (\<lambda>inc.
       sbind (export_batches E t inc []) (\<lambda>rs. ret (t, sort_key rec_key rs))))))
     (\<lambda>r w'. keeps w0 w' \<and> content w' = content w0 \<and> snapshot_of (content w0) (snd r))
     (\<lambda>_ w'. keeps w0 w' \<and> content w' = content w0) w0" for w0
  proof (rule spec_bind [where P = "\<lambda>_ w'. keeps w0 w' \<and> content w' = content w0" and R = "\<lambda>_ _. False"], goal_cases)
    case (2 t w1)
    show ?case
    proof (rule spec_bind [OF managed_keys_spec], goal_cases)
      case (1 ks w2)
      then have c: "keeps w0 w2" "content w2 = content w0" "distinct ks" "set ks = {k. managed k \<and> content w0 k \<noteq> None}"
        using 2 by (auto intro: keeps_trans)
      show ?case
      proof (cases "included_keys ks")
        case (Inl e)
        then show ?thesis using c by (auto simp: spec_def wp_simps)
      next
        case (Inr inc)
        have "spec (sbind (export_batches E t inc []) (\<lambda>rs. ret (t, sort_key rec_key rs)))
         (\<lambda>r w'. keeps w0 w' \<and> content w' = content w0 \<and> snapshot_of (content w0) (snd r))
         (\<lambda>_ w'. keeps w0 w' \<and> content w' = content w0) w2"
        proof (rule spec_bind [OF export_batches_spec], goal_cases)
          case (1 rs w3)
          then have "snapshot_of (content w0) (sort_key rec_key rs)" using c by (intro snapshot_ofI [OF Inr c(3,4)]) auto
          then show ?case using 1 c by (auto simp: spec_def wp_simps intro: keeps_trans)
        qed (use c in \<open>auto intro: keeps_trans\<close>)
        then show ?thesis using Inr by (simp add: spec_def wp_simps)
      qed
    qed (use 2 in \<open>auto intro: keeps_trans\<close>)
  qed (simp_all add: spec_def wp_simps keeps_def)
  from this [of "w\<lparr>w_writer := Held\<rparr>"] show ?thesis unfolding export_records_def
    using spec_with_snapshot_write [OF assms, where P = "\<lambda>r d. view d = content w \<and> snapshot_of (content w) (snd r)" and R = "\<lambda>_ d. view d = content w"]
    by simp
qed

end

section \<open>Restore reproduces the durable part\<close>

lemma adjacent_sorted: "\<not> list_ex (\<lambda>(a, b). rec_key a \<ge> rec_key b) (zip rs (tl rs)) \<Longrightarrow> sorted_wrt (<) (map rec_key rs)"
proof (induction rs)
  case (Cons r rs)
  then show ?case by (cases rs) (auto simp: sorted_wrt2 sorted_wrt1 simp del: sorted_wrt.simps(2))
qed simp

lemma check_records_Inr: "check_records E rs = Inr () \<Longrightarrow> \<forall>r \<in> set rs. durable (rec_key r)"
  by (induction rs) (auto simp: durable_def split: sum.splits SnapshotKeyPolicy.splits if_splits)

lemma restore_cmds_append:
  "restore_cmds p c (xs @ ys) = (case restore_cmds p c xs of Inl e \<Rightarrow> Inl e | Inr cs \<Rightarrow> map_sum id ((@) cs) (restore_cmds p c ys))"
  by (cases "restore_cmds p c ys"; induction xs) (auto split: sum.splits)

lemma restore_cmds_Cons:
  assumes "restore_cmds p c (r # rs) = Inr cs" "\<not> skipped p c r"
  obtains y cs' where "restored_value p (rec_key r) (rec_value r) = Inr y" "restore_cmds p c rs = Inr cs'"
    "\<And>v. apply_cmds cs v = apply_cmds cs' (v(rec_key r \<mapsto> y))"
proof -
  obtain y where y: "restored_value p (rec_key r) (rec_value r) = Inr y" using assms by (auto split: sum.splits)
  obtain cs' where cs': "restore_cmds p c rs = Inr cs'" using assms y by (auto simp: map_sum_Inr)
  show thesis by (rule that [OF y cs']) (use assms y cs' in \<open>auto split: option.splits\<close>)
qed

lemma restore_others: "restore_cmds p c rs = Inr cs \<Longrightarrow> k \<notin> rec_key ` {r \<in> set rs. \<not> skipped p c r} \<Longrightarrow> apply_cmds cs v k = v k"
proof (induction rs arbitrary: cs v)
  case (Cons r rs)
  show ?case
  proof (cases "skipped p c r")
    case True
    then show ?thesis using Cons by (auto simp: image_iff)
  next
    case False
    from restore_cmds_Cons [OF Cons.prems(1) False] obtain y cs' where y: "restore_cmds p c rs = Inr cs'" "apply_cmds cs v = apply_cmds cs' (v(rec_key r \<mapsto> y))" by metis
    have "apply_cmds cs' (v(rec_key r \<mapsto> y)) k = (v(rec_key r \<mapsto> y)) k" by (rule Cons.IH [OF y(1)]) (use Cons.prems(2) in auto)
    then show ?thesis using y(2) False Cons.prems(2) by auto
  qed
qed simp

lemma restore_own:
  assumes "restore_cmds p c rs = Inr cs" "distinct (map rec_key rs)" "r \<in> set rs" "\<not> skipped p c r"
  shows "\<exists>y. restored_value p (rec_key r) (rec_value r) = Inr y \<and> apply_cmds cs v (rec_key r) = Some y"
  using assms(1,2,3)
proof (induction rs arbitrary: cs v)
  case (Cons q rs)
  show ?case
  proof (cases "skipped p c q")
    case True
    then show ?thesis using Cons assms(4) by auto
  next
    case False
    from restore_cmds_Cons [OF Cons.prems(1) False] obtain y cs' where y: "restored_value p (rec_key q) (rec_value q) = Inr y"
      "restore_cmds p c rs = Inr cs'" "\<And>v. apply_cmds cs v = apply_cmds cs' (v(rec_key q \<mapsto> y))" by metis
    show ?thesis
    proof (cases "r = q")
      case True
      have "apply_cmds cs' (v(rec_key q \<mapsto> y)) (rec_key q) = (v(rec_key q \<mapsto> y)) (rec_key q)"
        by (rule restore_others [OF y(2)]) (use Cons.prems(2) in auto)
      then show ?thesis using True y(1,3) by simp
    next
      case False
      then show ?thesis unfolding y(3) by (intro Cons.IH [OF y(2)]) (use Cons.prems(2,3) in auto)
    qed
  qed
qed simp

context sabledb
begin

lemma now_spec: "spec (now E) (\<lambda>t w'. t = env_clock E (w_ticks w) \<and> w' = w\<lparr>w_ticks := Suc (w_ticks w)\<rparr>) (\<lambda>_ _. False) w"
  by (simp add: spec_def wp_simps)

lemma exec_writes: "spec (db_cmd (sb_exec E cs)) (\<lambda>_ w'. keeps w w' \<and> content w' = apply_cmds cs (content w)) (\<lambda>_ w'. keeps w w') w"
  unfolding spec_def by (auto simp: keeps_def intro!: wp_exec)

lemma restore_chunks_spec:
  "spec (restore_chunks E p c rs n)
     (\<lambda>n' w'. keeps w w' \<and> (\<exists>cs. restore_cmds p c rs = Inr cs \<and> content w' = apply_cmds cs (content w) \<and> n' = n + length cs)) (\<lambda>_ w'. keeps w w') w"
proof (induction "length rs" arbitrary: rs n w rule: less_induct)
  case less
  show ?case
  proof (cases "rs = []")
    case True
    then show ?thesis by (subst restore_chunks.simps) (simp add: spec_def wp_simps)
  next
    case False
    let ?a = "take 250 rs" and ?b = "drop 250 rs"
    note IH = less.hyps [of ?b]
    have rs: "restore_cmds p c rs = (case restore_cmds p c ?a of Inl e \<Rightarrow> Inl e | Inr cs \<Rightarrow> map_sum id ((@) cs) (restore_cmds p c ?b))"
      using restore_cmds_append [of p c ?a ?b] by simp
    show ?thesis
    proof (cases "restore_cmds p c ?a")
      case (Inl e)
      then show ?thesis using False by (subst restore_chunks.simps) (simp add: spec_def wp_simps)
    next
      case (Inr cs)
      have step: "spec (restore_chunks E p c ?b n') (\<lambda>n' w'. keeps w w' \<and>
          (\<exists>cs. restore_cmds p c rs = Inr cs \<and> content w' = apply_cmds cs (content w) \<and> n' = n + length cs)) (\<lambda>_ w'. keeps w w') w'"
        if h: "keeps w w'" "content w' = apply_cmds cs (content w)" "n' = n + length cs" for n' w'
      proof (rule spec_conseq [OF IH], goal_cases)
        case (2 m w'')
        then obtain cs' where "restore_cmds p c ?b = Inr cs'" "content w'' = apply_cmds cs' (content w')" "m = n' + length cs'" by blast
        then show ?case using 2 h rs Inr by (auto intro: keeps_trans)
      qed (use False h in \<open>auto intro: keeps_trans\<close>)
      show ?thesis
      proof (cases "cs = []")
        case True
        then show ?thesis using False Inr step [of w n] by (subst restore_chunks.simps) (simp add: spec_def wp_simps)
      next
        case nonempty: False
        have "spec (sbind (db_cmd (sb_exec E cs)) (\<lambda>_. restore_chunks E p c ?b (n + length cs)))
          (\<lambda>n' w'. keeps w w' \<and> (\<exists>cs. restore_cmds p c rs = Inr cs \<and> content w' = apply_cmds cs (content w) \<and> n' = n + length cs)) (\<lambda>_ w'. keeps w w') w"
          by (rule spec_bind [OF exec_writes]) (auto intro: step)
        then show ?thesis using False Inr nonempty by (subst restore_chunks.simps) (simp add: spec_def wp_simps)
      qed
    qed
  qed
qed

end

text \<open>The content after a restore of \<open>rs\<close> into \<open>v\<close> that read the time \<open>c\<close>.\<close>

definition restored_view :: "bool \<Rightarrow> u64 \<Rightarrow> StoreRecord list \<Rightarrow> db_view \<Rightarrow> db_view \<Rightarrow> bool" where
  "restored_view p c rs v v' \<longleftrightarrow> (\<forall>k. managed k \<longrightarrow> v k = None) \<and> sorted_wrt (<) (map rec_key rs) \<and> (\<forall>r \<in> set rs. durable (rec_key r)) \<and>
     (\<exists>cs t. restore_cmds p c rs = Inr cs \<and> v' = apply_cmds cs (v(RESTORE_SENTINEL \<mapsto> VNum t)))"

context scanning
begin

lemma restore_spec:
  assumes "idle w"
  shows "spec (restore_records E rs p)
     (\<lambda>n w'. keeps w w' \<and> (\<exists>m \<ge> w_ticks w. restored_view p (env_clock E m) rs (content w) (content w'))) (\<lambda>_ w'. keeps w w') w"
  unfolding restore_records_def
proof (rule spec_with_snapshot_write [OF assms, where P = "\<lambda>n d. \<exists>m \<ge> w_ticks w. restored_view p (env_clock E m) rs (content w) (view d)" and R = "\<lambda>_ _. True", simplified],
    rule spec_bind [OF managed_keys_spec], goal_cases)
  case (1 ks w1)
  show ?case
  proof (cases "ks \<noteq> [] \<or> length rs > MAX_SNAPSHOT_KEYS \<or> list_ex (\<lambda>(a, b). rec_key a \<ge> rec_key b) (zip rs (tl rs)) \<or> (\<exists>e. check_records E rs = Inl e)")
    case True
    then show ?thesis using 1 by (auto simp: spec_def wp_simps)
  next
    case False
    then have ok: "\<forall>k. managed k \<longrightarrow> content w k = None" "sorted_wrt (<) (map rec_key rs)" "\<forall>r \<in> set rs. durable (rec_key r)" "check_records E rs = Inr ()"
      using 1 adjacent_sorted [of rs] check_records_Inr [of E rs] by (auto, (cases "check_records E rs"; auto)+)
    have "spec (sbind (now E) (\<lambda>t. sbind (db_cmd (sb_exec E [SET RESTORE_SENTINEL (VNum t)])) (\<lambda>_. sbind (now E) (\<lambda>c. restore_chunks E p c rs 0))))
      (\<lambda>n w'. keeps (w\<lparr>w_writer := Held\<rparr>) w' \<and> (\<exists>m \<ge> w_ticks w. restored_view p (env_clock E m) rs (content w) (content w')))
      (\<lambda>_ w'. keeps (w\<lparr>w_writer := Held\<rparr>) w') w1"
    proof (intro spec_bind [OF now_spec] spec_bind [OF exec_writes], goal_cases)
      case (1 t w2 _ w3 c w4)
      have k: "keeps (w\<lparr>w_writer := Held\<rparr>) w1" "content w1 = content w" using \<open>keeps _ w1 \<and> _\<close> by simp_all
      have w3: "w_ticks w \<le> w_ticks w3" "keeps (w\<lparr>w_writer := Held\<rparr>) w3" "content w3 = (content w)(RESTORE_SENTINEL \<mapsto> VNum t)"
        "keeps (w\<lparr>w_writer := Held\<rparr>) w4" "content w4 = content w3" "c = env_clock E (w_ticks w3)"
        using 1 k by (auto simp: keeps_def)
      show ?case
      proof (rule spec_conseq [OF restore_chunks_spec], goal_cases)
        case (1 n w')
        then have "restored_view p (env_clock E (w_ticks w3)) rs (content w) (content w')"
          unfolding restored_view_def using ok w3(3,5,6) by auto
        then show ?case using 1 w3(1) keeps_trans [OF w3(4)] by blast
      qed (use keeps_trans [OF w3(4)] in blast)
    qed (use 1 in \<open>auto simp: keeps_def\<close>)
    then show ?thesis using False ok(4) by (simp add: spec_def wp_simps)
  qed
qed (auto simp: keeps_def)

end

section \<open>Properties\<close>

lemma sentinel_policy: "managed RESTORE_SENTINEL" "\<not> durable RESTORE_SENTINEL"
  by (simp_all add: managed_def durable_def snapshot_key_policy_def RESTORE_SENTINEL_def analytics_keys_def auth_keys_def transient_keys_def
      analytics_prefixes_def fleet_prefixes_def auth_prefixes_def starts_with_def)

lemma restored_viewD:
  assumes "restored_view p c rs v v'"
  shows "durable k \<Longrightarrow> k \<notin> rec_key ` set rs \<Longrightarrow> v' k = None" "v' RESTORE_SENTINEL \<noteq> None"
    "r \<in> set rs \<Longrightarrow> skipped p c r \<Longrightarrow> v' (rec_key r) = None"
    "r \<in> set rs \<Longrightarrow> \<not> skipped p c r \<Longrightarrow> \<exists>y. restored_value p (rec_key r) (rec_value r) = Inr y \<and> v' (rec_key r) = Some y"
proof -
  obtain cs t where cs: "restore_cmds p c rs = Inr cs" "v' = apply_cmds cs (v(RESTORE_SENTINEL \<mapsto> VNum t))"
    and v: "\<And>k. managed k \<Longrightarrow> v k = None" "sorted_wrt (<) (map rec_key rs)" "\<And>r. r \<in> set rs \<Longrightarrow> durable (rec_key r)"
    using assms by (auto simp: restored_view_def)
  have d: "distinct (map rec_key rs)" using v(2) by (simp add: strict_sorted_iff)
  have other: "v' k = None" if "durable k" "k \<notin> rec_key ` {r \<in> set rs. \<not> skipped p c r}" for k
    using restore_others [OF cs(1) that(2)] that(1) v(1) [OF durable_managed [OF that(1)]] sentinel_policy(2) unfolding cs(2) by auto
  show "v' k = None" if "durable k" "k \<notin> rec_key ` set rs" using other that by blast
  show "v' RESTORE_SENTINEL \<noteq> None"
    using restore_others [OF cs(1), of RESTORE_SENTINEL] v(3) sentinel_policy(2) unfolding cs(2) by fastforce
  show "v' (rec_key r) = None" if "r \<in> set rs" "skipped p c r"
  proof (rule other [OF v(3) [OF that(1)]])
    show "rec_key r \<notin> rec_key ` {r \<in> set rs. \<not> skipped p c r}" using that d by (auto simp: distinct_map inj_on_def)
  qed
  show "\<exists>y. restored_value p (rec_key r) (rec_value r) = Inr y \<and> v' (rec_key r) = Some y" if "r \<in> set rs" "\<not> skipped p c r"
    unfolding cs(2) by (rule restore_own [OF cs(1) d that])
qed

lemma session_policy: "starts_with ''auth:session:'' k \<Longrightarrow> durable k"
  unfolding durable_def snapshot_key_policy_def by (auto simp: auth_prefixes_def)


text \<open>C37: the export does not know every family the program writes. Once a webhook delivery has been stored, or
  a Fleet credential has been rotated, no export succeeds: the backlog counter never expires, so the first
  delivery ends all snapshots of the realm; a rotation does for the day its receipt is kept.\<close>

theorem export_fails_after_delivery:
  assumes "scanning E view remaining rounds" "idle w"
    and "put_webhook_delivery E delivery w = (Ok (), w1) \<or> grants_ok E (view (w_db w)) \<and> rotate_realm_fleet_grant E uid rid c hint w = (Ok g, w1)"
  shows "export_records E w1 \<noteq> (Ok x, w2)"
proof
  have db: "sabledb E view" using assms(1) by (simp add: scanning_def)
  have free: "w_mutation w = Free" "w_writer w = Free" using assms(2) by (simp_all add: idle_def)
  have p: "snapshot_key_policy DELIVERY_BACKLOG_KEY \<noteq> Inr p" "snapshot_key_policy (grant_rotation_key E rid) \<noteq> Inr p"
    "managed DELIVERY_BACKLOG_KEY" "managed (grant_rotation_key E rid)" for p
    by (simp_all add: managed_def snapshot_key_policy_def RESTORE_SENTINEL_def analytics_keys_def auth_keys_def transient_keys_def
      analytics_prefixes_def fleet_prefixes_def auth_prefixes_def transient_prefixes_def starts_with_def grant_rotation_key_def)
  have "keeps w w1 \<and> (view (w_db w1) DELIVERY_BACKLOG_KEY \<noteq> None \<or> view (w_db w1) (grant_rotation_key E rid) \<noteq> None)"
    using assms(3)
  proof
    assume "put_webhook_delivery E delivery w = (Ok (), w1)"
    from spec_OkD [OF sabledb.put_webhook_delivery_spec [OF db free] this] obtain m inputs
      where k: "keeps w w1" "delivery_put E (view (w_db w)) delivery m" "logged E (view (w_db w)) m inputs (view (w_db w1))"
      by (auto simp: did_def)
    have "view (w_db w1) DELIVERY_BACKLOG_KEY = m DELIVERY_BACKLOG_KEY" by (rule logged_other [OF k(3)]) simp
    then show ?thesis using k(1,2) by (auto simp: delivery_put_def)
  next
    assume "grants_ok E (view (w_db w)) \<and> rotate_realm_fleet_grant E uid rid c hint w = (Ok g, w1)"
    then have "keeps w w1 \<and> rotation_done E (view (w_db w)) uid rid c g (view (w_db w1))"
      using spec_OkD [OF sabledb.rotate_grant_spec [OF db free]] by blast
    then show ?thesis by (auto simp: rotation_done_def rotation_cmds_def)
  qed
  then have k: "keeps w w1" "\<exists>k. managed k \<and> view (w_db w1) k \<noteq> None \<and> (\<forall>p. snapshot_key_policy k \<noteq> Inr p)" using p by blast+
  have "idle w1" using k(1) assms(2) by (simp add: idle_def keeps_def)
  moreover assume "export_records E w1 = (Ok x, w2)"
  ultimately have "snapshot_of (view (w_db w1)) (snd x)" using spec_OkD [OF scanning.export_spec [OF assms(1)]] by blast
  then show False using k(2) by (auto simp: snapshot_of_def)
qed

definition snapshot_world :: "mem world" where
  "snapshot_world = mem_world [(''auth:event-sequence'', VNum 3), (''auth:registration:1'', VNum 4)] []"

definition empty_world :: "mem world" where
  "empty_world = mem_world [] []"

lemma snapshot_worlds_idle: "idle snapshot_world" "idle empty_world"
  by (simp_all add: snapshot_world_def empty_world_def mem_world_def idle_def)

lemmas policy_run = snapshot_key_policy_def RESTORE_SENTINEL_def analytics_keys_def auth_keys_def transient_keys_def
  analytics_prefixes_def fleet_prefixes_def auth_prefixes_def transient_prefixes_def starts_with_def

lemma snapshot_export_run:
  "fst (export_records (mem_env (\<lambda>_. 9)) snapshot_world) = Ok (9, [\<lparr>rec_key = ''auth:event-sequence'', rec_value = VNum 3, rec_expires_at = None\<rparr>])"
  by (simp add: run_simps export_records_def managed_keys_def managed_batch_def snapshot_world_def policy_run insort_insert_key_def export_batches.simps)

lemma snapshot_restore_run:
  "fst (restore_records (mem_env (\<lambda>_. 9)) [\<lparr>rec_key = ''auth:event-sequence'', rec_value = VNum 3, rec_expires_at = None\<rparr>] False empty_world) = Ok 1"
  by (simp add: run_simps restore_records_def managed_keys_def managed_batch_def empty_world_def policy_run restore_chunks.simps skipped_def restored_value_def)


theorem export_fails_after_delivery_witness:
  "let E = mem_env (\<lambda>_. 9); w1 = snd (put_webhook_delivery E pending_delivery empty_world) in
   fst (put_webhook_delivery E pending_delivery empty_world) = Ok () \<and> (\<forall>x. fst (export_records E w1) \<noteq> Ok x)"
proof -
  let ?E = "mem_env (\<lambda>_. 9)"
  have r: "fst (put_webhook_delivery ?E pending_delivery empty_world) = Ok ()"
    by (simp add: run_simps put_webhook_delivery_def webhook_delivery_def webhook_delivery_backlog_def next_backlog_def
        delivery_events_def delivery_transition_event_def is_open_delivery_def pending_delivery_def empty_world_def)
  have "fst (export_records ?E (snd (put_webhook_delivery ?E pending_delivery empty_world))) \<noteq> Ok x" for x
    using export_fails_after_delivery [OF memory_scan.scanning_axioms snapshot_worlds_idle(2) disjI1 [OF run_result [OF r]]] run_result [of _ "Ok x"] by blast
  then show ?thesis unfolding Let_def using r by blast
qed

end
