(* ===== verification/RateLimit.thy ===== *)
theory RateLimit
  imports Memory "HOL-Library.AList"
begin

text \<open>
  Request throttling (\<open>src/src/rate_limit.rs\<close>): the bounded process-local fixed windows and the shared counters in
  the datastore that reinforce them. An \<open>Instant\<close> is a number of nanoseconds on the monotonic clock; the 16
  bytes of a subject digest are written as their 32 hexadecimal digits. A check takes the limiter and returns it.
\<close>

datatype RateLimitClass = Ceremony | IdentifierProbe | CredentialExchange | PairingExchange | Recovery | Verification

fun budget :: "RateLimitClass \<Rightarrow> 32 word" where
  "budget Ceremony = 30"
| "budget IdentifierProbe = 10"
| "budget CredentialExchange = 60"
| "budget PairingExchange = 60"
| "budget Recovery = 10"
| "budget Verification = 10"

definition window_secs :: "RateLimitClass \<Rightarrow> u64" where
  "window_secs c = 60"

abbreviation NANOS :: nat where
  "NANOS \<equiv> 1000000000"

definition window :: "RateLimitClass \<Rightarrow> nat" where
  "window c = unat (window_secs c) * NANOS"

fun class_key :: "RateLimitClass \<Rightarrow> string" where
  "class_key Ceremony = ''ceremony''"
| "class_key IdentifierProbe = ''identifier''"
| "class_key CredentialExchange = ''credential''"
| "class_key PairingExchange = ''pairing''"
| "class_key Recovery = ''recovery''"
| "class_key Verification = ''verification''"

text \<open>\<open>format!("{class:?}")\<close>.\<close>

fun class_debug :: "RateLimitClass \<Rightarrow> string" where
  "class_debug Ceremony = ''Ceremony''"
| "class_debug IdentifierProbe = ''IdentifierProbe''"
| "class_debug CredentialExchange = ''CredentialExchange''"
| "class_debug PairingExchange = ''PairingExchange''"
| "class_debug Recovery = ''Recovery''"
| "class_debug Verification = ''Verification''"

record RateLimitDecision =
  allowed :: bool
  retry_after_seconds :: u64

record Window =
  win_count :: "32 word"
  win_started_at :: nat

type_synonym limit_key = "RateLimitClass \<times> string"

record RateLimiter =
  rl_windows :: "(limit_key \<times> Window) list"
  rl_poisoned :: bool
  rl_capacity :: nat
  rl_distributed :: "string option"

definition new_limiter :: "nat \<Rightarrow> RateLimiter" where
  "new_limiter capacity = \<lparr>rl_windows = [], rl_poisoned = False, rl_capacity = capacity, rl_distributed = None\<rparr>"

definition distributed :: "'db env \<Rightarrow> string \<Rightarrow> nat \<Rightarrow> RateLimiter" where
  "distributed E namespace capacity =
     \<lparr>rl_windows = [], rl_poisoned = False, rl_capacity = capacity, rl_distributed = Some (take 24 (sha256_hex E namespace))\<rparr>"

definition subject_key :: "'db env \<Rightarrow> RateLimitClass \<Rightarrow> string \<Rightarrow> string" where
  "subject_key E c subject = take 32 (sha256_hex E (class_debug c @ [CHR 0x00] @ subject))"

text \<open>The closed door: what every refusal without a window answers.\<close>

definition fail_closed :: "RateLimitClass \<Rightarrow> RateLimitDecision" where
  "fail_closed c = \<lparr>allowed = False, retry_after_seconds = window_secs c\<rparr>"

definition live_windows :: "RateLimitClass \<Rightarrow> nat \<Rightarrow> (limit_key \<times> Window) list \<Rightarrow> (limit_key \<times> Window) list" where
  "live_windows c instant = filter (\<lambda>(_, entry). instant - win_started_at entry < window c)"

definition count_request :: "RateLimitClass \<Rightarrow> nat \<Rightarrow> Window \<Rightarrow> Window" where
  "count_request c instant entry =
     (let entry = (if instant - win_started_at entry \<ge> window c then entry\<lparr>win_count := 0, win_started_at := instant\<rparr> else entry) in
      entry\<lparr>win_count := saturating_add (win_count entry) 1\<rparr>)"

definition check_at :: "'db env \<Rightarrow> RateLimiter \<Rightarrow> RateLimitClass \<Rightarrow> string \<Rightarrow> nat \<Rightarrow> RateLimitDecision \<times> RateLimiter" where
  "check_at E L c subject instant =
     (let key = (c, subject_key E c subject) in
      if rl_poisoned L then (fail_closed c, L) else
      let full = length (rl_windows L) \<ge> rl_capacity L \<and> map_of (rl_windows L) key = None;
          windows = (if full then live_windows c instant (rl_windows L) else rl_windows L) in
      if full \<and> length windows \<ge> rl_capacity L then (fail_closed c, L\<lparr>rl_windows := windows\<rparr>) else
      let entry = count_request c instant (case map_of windows key of Some entry \<Rightarrow> entry | None \<Rightarrow> \<lparr>win_count = 0, win_started_at = instant\<rparr>) in
      (\<lparr>allowed = win_count entry \<le> budget c,
        retry_after_seconds = of_nat ((window c - (instant - win_started_at entry)) div NANOS + 1)\<rparr>,
       L\<lparr>rl_windows := AList.update key entry windows\<rparr>))"

definition rate_limit_key :: "'db env \<Rightarrow> string \<Rightarrow> RateLimitClass \<Rightarrow> string \<Rightarrow> u64 \<Rightarrow> string" where
  "rate_limit_key E namespace c subject epoch =
     ''auth:rate-limit:'' @ namespace @ '':'' @ class_key c @ '':'' @ subject_key E c subject @ '':'' @ dec_string (unat epoch)"

definition distributed_check :: "'db env \<Rightarrow> string \<Rightarrow> RateLimitClass \<Rightarrow> string \<Rightarrow> ('db, RateLimitDecision) sm" where
  "distributed_check E namespace c subject =
     sbind (now E) (\<lambda>t.
     let win = window_secs c; epoch = t div win; retry_after = max (saturating_sub win (t mod win)) 1 in
     sbind (db_cmd (sb_incr E (rate_limit_key E namespace c subject epoch) (win * 2))) (\<lambda>count.
     ret \<lparr>allowed = count \<le> ucast (budget c), retry_after_seconds = retry_after\<rparr>))"

definition check :: "'db env \<Rightarrow> RateLimiter \<Rightarrow> RateLimitClass \<Rightarrow> string \<Rightarrow> nat \<Rightarrow> ('db, RateLimitDecision \<times> RateLimiter) sm" where
  "check E L c subject instant =
     (let (local, L) = check_at E L c subject instant in
      if \<not> allowed local then ret (local, L) else
      case rl_distributed L of
        None \<Rightarrow> ret (local, L)
      | Some namespace \<Rightarrow>
          sbind (attempt (distributed_check E namespace c subject)) (\<lambda>shared. case shared of
            Inr decision \<Rightarrow> ret (decision, L)
          | Inl _ \<Rightarrow> ret (fail_closed c, L)))"

section \<open>Metered runs\<close>

text \<open>How many requests of a run are admitted, for a step that says so of each.\<close>

fun admitted_by :: "('op \<Rightarrow> 's \<Rightarrow> bool \<times> 's) \<Rightarrow> 'op list \<Rightarrow> 's \<Rightarrow> nat" where
  "admitted_by step [] s = 0"
| "admitted_by step (op # ops) s = (let (b, s') = step op s in of_bool b + admitted_by step ops s')"

text \<open>An allowance is a potential that every admitted request uses up by one and that no request raises, on the
  states from which that many requests may still come.\<close>

locale metered =
  fixes step :: "'op \<Rightarrow> 's \<Rightarrow> bool \<times> 's" and ok :: "'op \<Rightarrow> bool" and inv :: "nat \<Rightarrow> 's \<Rightarrow> bool" and allowance :: "'s \<Rightarrow> nat"
  assumes pays: "\<And>n op s b s'. inv (Suc n) s \<Longrightarrow> ok op \<Longrightarrow> step op s = (b, s') \<Longrightarrow> inv n s' \<and> of_bool b + allowance s' \<le> allowance s"
begin

lemma within_allowance: "inv (length ops) s \<Longrightarrow> list_all ok ops \<Longrightarrow> admitted_by step ops s \<le> allowance s"
proof (induction ops arbitrary: s)
  case (Cons op ops)
  obtain b s' where s': "step op s = (b, s')" by fastforce
  then show ?case using pays [OF _ _ s', of "length ops"] Cons.IH [of s'] Cons.prems by simp
qed simp

end

section \<open>The local windows\<close>

definition local_step :: "'db env \<Rightarrow> limit_key \<Rightarrow> RateLimitClass \<times> string \<times> nat \<Rightarrow> RateLimiter \<Rightarrow> bool \<times> RateLimiter" where
  "local_step E k = (\<lambda>(c, subject, t) L. let (d, L') = check_at E L c subject t in (allowed d \<and> (c, subject_key E c subject) = k, L'))"

text \<open>The requests a key may still make in the interval that begins at \<open>a\<close> and is one window long: what is left of
  its window, and a whole budget more when that window began before the interval.\<close>

definition window_allowance :: "nat \<Rightarrow> limit_key \<Rightarrow> RateLimiter \<Rightarrow> nat" where
  "window_allowance a k L = (case map_of (rl_windows L) k of
     None \<Rightarrow> unat (budget (fst k))
   | Some entry \<Rightarrow> (unat (budget (fst k)) - unat (win_count entry)) + (if win_started_at entry < a then unat (budget (fst k)) else 0))"

lemma window_const: "window c = 60 * NANOS"
  by (simp add: window_def window_secs_def)

lemma map_of_filter_snd: "distinct (map fst xs) \<Longrightarrow>
    map_of (filter (\<lambda>(_, e). P e) xs) k = (case map_of xs k of Some e \<Rightarrow> if P e then Some e else None | None \<Rightarrow> None)"
  by (induction xs) (auto split: option.splits simp: map_of_eq_None_iff rev_image_eqI)

definition windows_ok :: "RateLimiter \<Rightarrow> bool" where
  "windows_ok L \<longleftrightarrow> distinct (map fst (rl_windows L))"

lemma count_request_count: "unat (win_count (count_request c t e)) = min (Suc (if t - win_started_at e \<ge> window c then 0 else unat (win_count e))) (2 ^ 32 - 1)"
  by (simp add: count_request_def Let_def unat_saturating_add)

lemma count_request_start: "win_started_at (count_request c t e) = (if t - win_started_at e \<ge> window c then t else win_started_at e)"
  by (simp add: count_request_def Let_def)

lemma budget_small: "unat (budget c) \<le> 60"
  by (cases c) simp_all

text \<open>The allowance of a key whose window counts one request more, at a time in the interval.\<close>

lemma count_pays:
  assumes "a \<le> t" "t < a + 60 * NANOS" "map_of (rl_windows L) k = Some e"
    and "map_of (rl_windows L') k = Some (count_request (fst k) t e)"
  shows "of_bool (win_count (count_request (fst k) t e) \<le> budget (fst k)) + window_allowance a k L' \<le> window_allowance a k L"
proof (cases "t - win_started_at e \<ge> window (fst k)")
  case True
  then have s: "win_started_at e < a" using assms(2) by (simp add: window_const)
  then show ?thesis using True assms budget_small [of "fst k"]
    by (auto simp: window_allowance_def count_request_start count_request_count word_le_nat_alt of_bool_def)
next
  case False
  then show ?thesis using assms budget_small [of "fst k"]
    by (auto simp: window_allowance_def count_request_start count_request_count word_le_nat_alt of_bool_def)
qed

lemma live_allowance:
  assumes "windows_ok L" "t < a + 60 * NANOS"
  shows "window_allowance a k (L\<lparr>rl_windows := live_windows c t (rl_windows L)\<rparr>) \<le> window_allowance a k L"
  using assms by (auto simp: window_allowance_def live_windows_def windows_ok_def map_of_filter_snd window_const split: option.splits)

lemma fresh_pays:
  assumes "a \<le> t" "map_of (rl_windows L) k = None" "map_of (rl_windows L') k = Some (count_request (fst k) t \<lparr>win_count = 0, win_started_at = t\<rparr>)"
  shows "of_bool (win_count (count_request (fst k) t \<lparr>win_count = 0, win_started_at = t\<rparr>) \<le> budget (fst k)) + window_allowance a k L' \<le> window_allowance a k L"
  using assms by (auto simp: window_allowance_def count_request_start count_request_count word_le_nat_alt of_bool_def)

lemma allowance_cong: "map_of (rl_windows L) k = map_of (rl_windows L') k \<Longrightarrow> window_allowance a k L = window_allowance a k L'"
  by (simp add: window_allowance_def)

lemma check_at_pays:
  assumes "windows_ok L" "a \<le> t" "t < a + 60 * NANOS" "local_step E k (c, subject, t) L = (b, L')"
  shows "windows_ok L' \<and> of_bool b + window_allowance a k L' \<le> window_allowance a k L"
proof -
  define key where "key = (c, subject_key E c subject)"
  define full where "full = (length (rl_windows L) \<ge> rl_capacity L \<and> map_of (rl_windows L) key = None)"
  define L1 where "L1 = L\<lparr>rl_windows := if full then live_windows c t (rl_windows L) else rl_windows L\<rparr>"
  define e where "e = (case map_of (rl_windows L1) key of Some e \<Rightarrow> e | None \<Rightarrow> \<lparr>win_count = 0, win_started_at = t\<rparr>)"
  have ok1: "windows_ok L1" using assms(1) by (auto simp: L1_def windows_ok_def live_windows_def distinct_map_filter)
  have le1: "window_allowance a k L1 \<le> window_allowance a k L"
    using live_allowance [OF assms(1,3)] by (simp add: L1_def)
  have L': "(b, L') = (if rl_poisoned L then (False, L) else if full \<and> length (rl_windows L1) \<ge> rl_capacity L then (False, L1)
     else (win_count (count_request c t e) \<le> budget c \<and> key = k, L1\<lparr>rl_windows := AList.update key (count_request c t e) (rl_windows L1)\<rparr>))"
    using assms(4) by (auto simp: local_step_def check_at_def Let_def key_def full_def L1_def e_def fail_closed_def split: if_splits)
  show ?thesis
  proof (cases "rl_poisoned L \<or> full \<and> length (rl_windows L1) \<ge> rl_capacity L")
    case True
    then show ?thesis using L' assms(1) ok1 le1 by (auto split: if_splits)
  next
    case False
    then have b: "b \<longleftrightarrow> win_count (count_request c t e) \<le> budget c \<and> key = k"
      and l: "L' = L1\<lparr>rl_windows := AList.update key (count_request c t e) (rl_windows L1)\<rparr>" using L' by auto
    have ok': "windows_ok L'" using ok1 unfolding l windows_ok_def by (simp add: distinct_update)
    have m: "map_of (rl_windows L') k = (if key = k then Some (count_request c t e) else map_of (rl_windows L1) k)"
      unfolding l by (simp add: update_conv')
    show ?thesis
    proof (cases "key = k")
      case True
      then have c: "c = fst k" by (auto simp: key_def)
      have "of_bool b + window_allowance a k L' \<le> window_allowance a k L1"
      proof (cases "map_of (rl_windows L1) k")
        case None
        then show ?thesis using fresh_pays [OF assms(2) None, of L'] m b True unfolding c e_def by simp
      next
        case (Some e0)
        then show ?thesis using count_pays [OF assms(2,3) Some, of L'] m b True unfolding c e_def by simp
      qed
      then show ?thesis using ok' le1 by simp
    next
      case False
      then show ?thesis using ok' le1 b m allowance_cong [of L' k L1 a] by simp
    qed
  qed
qed

interpretation local_window: metered "local_step E k" "\<lambda>(_, _, t). a \<le> t \<and> t < a + 60 * NANOS" "\<lambda>_. windows_ok" "window_allowance a k" for E k a
proof (unfold_locales, goal_cases)
  case (1 n op s b s')
  obtain c subject t where op: "op = (c, subject, t)" by (cases op)
  show ?case by (rule check_at_pays) (use 1 in \<open>simp_all add: op\<close>)
qed

section \<open>The shared counters\<close>

text \<open>The shared checks of one database, by whichever process. A failed check admits nothing.\<close>

definition shared_step :: "'db env \<Rightarrow> string \<times> RateLimitClass \<times> string \<Rightarrow> string \<times> RateLimitClass \<times> string \<Rightarrow> 'db world \<Rightarrow> bool \<times> 'db world" where
  "shared_step E r = (\<lambda>(namespace, c, subject) w. case distributed_check E namespace c subject w of
     (Ok d, w') \<Rightarrow> (allowed d \<and> (namespace, c, subject) = r, w') | (_, w') \<Rightarrow> (False, w'))"

definition counter_allowance :: "('db \<Rightarrow> db_view) \<Rightarrow> 'db env \<Rightarrow> string \<times> RateLimitClass \<times> string \<Rightarrow> u64 \<Rightarrow> 'db world \<Rightarrow> nat" where
  "counter_allowance view E = (\<lambda>(namespace, c, subject) epoch w. case view (w_db w) (rate_limit_key E namespace c subject epoch) of
     None \<Rightarrow> unat (budget c) | Some (VNum n) \<Rightarrow> unat (budget c) - unat n | _ \<Rightarrow> 0)"

definition in_epoch :: "'db env \<Rightarrow> u64 \<Rightarrow> nat \<Rightarrow> 'db world \<Rightarrow> bool" where
  "in_epoch E epoch n w \<longleftrightarrow> (\<forall>i. w_ticks w \<le> i \<and> i < w_ticks w + n \<longrightarrow> env_clock E i div 60 = epoch)"

context sabledb
begin

lemma shared_pays:
  assumes "in_epoch E epoch (Suc n) w" "shared_step E r op w = (b, w')"
  shows "in_epoch E epoch n w' \<and> of_bool b + counter_allowance view E r epoch w' \<le> counter_allowance view E r epoch w"
proof -
  obtain ns c sub where op: "op = (ns, c, sub)" by (cases op)
  obtain ns' c' sub' where r: "r = (ns', c', sub')" by (cases r)
  let ?k = "rate_limit_key E ns c sub epoch" and ?k' = "rate_limit_key E ns' c' sub' epoch"
  have ep: "env_clock E (w_ticks w) div window_secs c = epoch" using assms(1) by (simp add: in_epoch_def window_secs_def)
  obtain x d where x: "sb_incr E ?k (window_secs c * 2) (w_db w) = (x, d)" by fastforce
  note law = incr_law [OF x]
  have w': "w' = w\<lparr>w_ticks := Suc (w_ticks w), w_db := d\<rparr>" and b: "b \<longleftrightarrow> (\<exists>m. x = Inr m \<and> m \<le> ucast (budget c)) \<and> op = r"
    using assms(2) x ep by (auto simp: shared_step_def distributed_check_def op sbind_def now_def db_cmd_def ret_def Let_def split: sum.splits)
  have e: "in_epoch E epoch n w'" using assms(1) unfolding w' in_epoch_def by auto
  have u: "unat (ucast (budget c) :: u64) = unat (budget c)" by (cases c) simp_all
  have "of_bool b + counter_allowance view E r epoch w' \<le> counter_allowance view E r epoch w"
    using law
  proof
    assume "\<exists>n. (content w ?k = None \<and> n = 0 \<or> content w ?k = Some (VNum n)) \<and> view d = (content w)(?k \<mapsto> VNum (n + 1)) \<and> (\<forall>m. x = Inr m \<longrightarrow> m = n + 1) \<and> unat n < 2 ^ 63 - 1"
    then obtain n where n: "content w ?k = None \<and> n = 0 \<or> content w ?k = Some (VNum n)" "view d = (content w)(?k \<mapsto> VNum (n + 1))"
      "\<forall>m. x = Inr m \<longrightarrow> m = n + 1" "unat n < 2 ^ 63 - 1" by blast
    have s: "unat (n + 1) = Suc (unat n)" using n(4) by (simp add: unat_word_ariths)
    have bb: "b \<Longrightarrow> op = r \<and> Suc (unat n) \<le> unat (budget c)" using b n(3) s u by (auto simp: word_le_nat_alt)
    show ?thesis
    proof (cases "?k = ?k'")
      case True
      have "counter_allowance view E r epoch w' = unat (budget c') - Suc (unat n)" using True n(2) s by (simp add: counter_allowance_def r w')
      moreover have "counter_allowance view E r epoch w = unat (budget c') - unat n" using True n(1) by (auto simp: counter_allowance_def r)
      ultimately show ?thesis using bb by (auto simp: of_bool_def op r)
    next
      case False
      then have "\<not> b" using b by (auto simp: op r)
      then show ?thesis using False n(2) by (simp add: counter_allowance_def r w')
    qed
  next
    assume "(\<exists>e. x = Inl e) \<and> view d = content w"
    then show ?thesis using b by (auto simp: counter_allowance_def r w')
  qed
  then show ?thesis using e by simp
qed

end

sublocale sabledb \<subseteq> shared_counter: metered "shared_step E r" "\<lambda>_. True" "in_epoch E epoch" "counter_allowance view E r epoch" for r epoch
  by unfold_locales (use shared_pays in blast)

context sabledb
begin

lemma shared_within: "in_epoch E epoch (length reqs) w \<Longrightarrow> admitted_by (shared_step E r) reqs w \<le> counter_allowance view E r epoch w"
  by (rule shared_counter.within_allowance) (simp_all add: list_all_iff)

end

section \<open>Properties\<close>

lemma allowance_bound: "window_allowance a k L \<le> 2 * unat (budget (fst k))"
  by (auto simp: window_allowance_def split: option.splits)

lemma counter_allowance_bound: "counter_allowance view E (ns, c, sub) epoch w \<le> unat (budget c)"
proof (cases "view (w_db w) (rate_limit_key E ns c sub epoch)")
  case (Some x)
  then show ?thesis by (cases x) (simp_all add: counter_allowance_def)
qed (simp add: counter_allowance_def)

text \<open>C38: the rate limiter keeps its budgets. In any interval of one window's length, whatever requests of other subjects
  and classes come between and whatever the limiter evicts, the local windows admit at most twice the budget of a
  subject, and at most the budget when the subject had no window before. The shared counter admits at most the budget
  per epoch over all processes. A request passes only when both admit it: a full table, a poisoned lock and a
  failing datastore all refuse.\<close>

theorem rate_limit_bounds:
  assumes "sabledb E view" "windows_ok L" "list_all (\<lambda>(_, _, t). a \<le> t \<and> t < a + window c) local_reqs"
    and "in_epoch E epoch (length shared_reqs) w"
  shows "admitted_by (local_step E (c, key)) local_reqs L \<le> 2 * unat (budget c) \<and>
    (map_of (rl_windows L) (c, key) = None \<longrightarrow> admitted_by (local_step E (c, key)) local_reqs L \<le> unat (budget c)) \<and>
    admitted_by (shared_step E (namespace, c, subject)) shared_reqs w \<le> unat (budget c) \<and>
    (\<forall>subject t d L' w'. check E L c subject t w = (Ok (d, L'), w') \<and> allowed d \<longrightarrow>
       allowed (fst (check_at E L c subject t)) \<and> (\<forall>ns. rl_distributed L = Some ns \<longrightarrow> fst (distributed_check E ns c subject w) = Ok d))"
proof -
  have r: "list_all (\<lambda>(_, _, t). a \<le> t \<and> t < a + 60 * NANOS) local_reqs" using assms(3) by (simp add: window_const)
  have l: "admitted_by (local_step E (c, key)) local_reqs L \<le> window_allowance a (c, key) L"
    by (rule local_window.within_allowance [OF assms(2) r])
  have s: "admitted_by (shared_step E (namespace, c, subject)) shared_reqs w \<le> counter_allowance view E (namespace, c, subject) epoch w"
    by (rule sabledb.shared_within [OF assms(1,4)])
  have n: "window_allowance a (c, key) L = unat (budget c)" if "map_of (rl_windows L) (c, key) = None"
    using that by (simp add: window_allowance_def)
  have d: "rl_distributed (snd (check_at E L c subject t)) = rl_distributed L" for subject t by (simp add: check_at_def Let_def)
  have "allowed (fst (check_at E L c subject t)) \<and> (\<forall>ns. rl_distributed L = Some ns \<longrightarrow> fst (distributed_check E ns c subject w) = Ok d)"
    if h: "check E L c subject t w = (Ok (d, L'), w')" "allowed d" for subject t d L' w'
  proof -
    obtain d0 L0 where c: "check_at E L c subject t = (d0, L0)" by fastforce
    then have "rl_distributed L0 = rl_distributed L" using d [of subject t] by simp
    then show ?thesis using h c by (auto simp: check_def ret_def sbind_def attempt_def fail_closed_def split: if_splits option.splits prod.splits res.splits sum.splits)
  qed
  then show ?thesis using l s n allowance_bound [of a "(c, key)" L] counter_allowance_bound [of view E namespace c subject epoch w] by fastforce
qed

theorem rate_limit_bounds_witness:
  "let E = mem_env (\<lambda>_. 9); w = mem_world [] []; k = (Recovery, subject_key E Recovery ''a'') in
   admitted_by (local_step E k) (replicate 12 (Recovery, ''a'', 5)) (new_limiter 4) \<le> 10 \<and>
   admitted_by (shared_step E (''n'', Recovery, ''a'')) (replicate 12 (''n'', Recovery, ''a'')) w \<le> 10"
proof -
  let ?E = "mem_env (\<lambda>_. 9)" and ?w = "mem_world [] [] :: mem world"
  have "windows_ok (new_limiter 4)" "in_epoch ?E 0 (length (replicate 12 (''n'', Recovery, ''a''))) ?w"
    "list_all (\<lambda>(_, _, t). 5 \<le> t \<and> t < 5 + window Recovery) (replicate 12 (Recovery, ''a'', 5 :: nat))"
    by (simp_all add: windows_ok_def new_limiter_def in_epoch_def mem_env_sel window_const list_all_iff)
  from rate_limit_bounds [OF memory.sabledb_axioms this(1,3,2), of "subject_key ?E Recovery ''a''" "''n''" "''a''"]
  show ?thesis unfolding Let_def by (simp add: new_limiter_def)
qed

end
