(* ===== verification/SigningKeys.thy ===== *)
theory SigningKeys
  imports WriterLease Listing
begin

text \<open>
  Signing-key custody (\<open>src/src/jwt/key_material.rs\<close>, \<open>keyset.rs\<close>, \<open>rotation.rs\<close>, \<open>runtime.rs\<close> and the key ring of
  \<open>src/src/config.rs\<close>): generation and wrapping of the ES256 keys, the stored key set with its validation and legacy
  migration, the published JWKS, and the staged rotation under its cross-process lock. The P-256 and AES-GCM
  primitives and the base64 decoder are the parameter \<open>C\<close>. An issuer is passed through a
  maintenance run, which is exclusive by its mutex, and returned with its new runtime.
\<close>

record crypto =
  p256_generate :: "string \<Rightarrow> string"
  p256_point :: "string \<Rightarrow> (string \<times> string) option"
  p256_sec1 :: "string \<Rightarrow> bool"
  aes_seal :: "string \<Rightarrow> string \<Rightarrow> string \<Rightarrow> string \<Rightarrow> string option"
  aes_open :: "string \<Rightarrow> string \<Rightarrow> string \<Rightarrow> string \<Rightarrow> string option"
  b64_decode :: "string \<Rightarrow> string option"

section \<open>Master keys\<close>

record KeyEntry =
  entry_id :: string
  entry_key :: string

record KeyRing =
  ring_active :: KeyEntry
  ring_previous :: "KeyEntry list"

record SigningRotationConfig =
  rotation_seconds :: u64
  prepublish_seconds :: u64
  overlap_seconds :: u64
  maintenance_seconds :: u64

definition derived_key_id :: "'db env \<Rightarrow> string \<Rightarrow> string \<Rightarrow> string" where
  "derived_key_id E purpose key = purpose @ ''-'' @ take 24 (sha256_hex E key)"

fun ring_entries :: "'db env \<Rightarrow> string \<Rightarrow> string list \<Rightarrow> string set \<Rightarrow> store_error + KeyEntry list" where
  "ring_entries E purpose [] seen = Inr []"
| "ring_entries E purpose (key # keys) seen =
     (let uid = derived_key_id E purpose key in
      if uid \<in> seen then Inl (Bail (purpose @ '' keyring contains the same key more than once''))
      else map_sum id (\<lambda>es. \<lparr>entry_id = uid, entry_key = key\<rparr> # es) (ring_entries E purpose keys (insert uid seen)))"

definition key_ring_new :: "'db env \<Rightarrow> string \<Rightarrow> string \<Rightarrow> string list \<Rightarrow> store_error + KeyRing" where
  "key_ring_new E purpose active previous =
     (let uid = derived_key_id E purpose active in
      map_sum id (\<lambda>es. \<lparr>ring_active = \<lparr>entry_id = uid, entry_key = active\<rparr>, ring_previous = es\<rparr>) (ring_entries E purpose previous {uid}))"

definition ring_get :: "KeyRing \<Rightarrow> string \<Rightarrow> string option" where
  "ring_get ring uid =
     (if entry_id (ring_active ring) = uid then Some (entry_key (ring_active ring))
      else map_option entry_key (find (\<lambda>e. entry_id e = uid) (ring_previous ring)))"

definition ring_key_ids :: "KeyRing \<Rightarrow> string list" where
  "ring_key_ids ring = entry_id (ring_active ring) # map entry_id (ring_previous ring)"

section \<open>Key material\<close>

definition signing_key_aad :: "string \<Rightarrow> string \<Rightarrow> string" where
  "signing_key_aad kid wrapping_key_id = ''rustyauth-signing-key-v1'' @ [CHR 0x00] @ kid @ [CHR 0x00] @ wrapping_key_id"

definition seal_private_key :: "'db env \<Rightarrow> crypto \<Rightarrow> KeyRing \<Rightarrow> string \<Rightarrow> string \<Rightarrow> ('db, EncryptedPrivateKey) sm" where
  "seal_private_key E C ring kid private_der =
     sbind (random_bytes E 12) (\<lambda>nonce.
     let wrapping_key_id = entry_id (ring_active ring) in
     sbind (ok_or (Bail ''encrypt signing key'')
         (aes_seal C (entry_key (ring_active ring)) nonce (signing_key_aad kid wrapping_key_id) private_der)) (\<lambda>ciphertext.
     ret \<lparr>epk_wrapping_key_id = wrapping_key_id, epk_nonce = b64url E nonce, epk_ciphertext = b64url E ciphertext\<rparr>))"

definition open_private_key :: "crypto \<Rightarrow> KeyRing \<Rightarrow> StoredSigningKey \<Rightarrow> store_error + string" where
  "open_private_key C ring key =
     (let encrypted = key_encrypted key in
      case ring_get ring (epk_wrapping_key_id encrypted) of
        None \<Rightarrow> Inl (Bail (''master key '' @ epk_wrapping_key_id encrypted @ '' required by signing key '' @ key_kid key @ '' is unavailable''))
      | Some master \<Rightarrow> (case b64_decode C (epk_nonce encrypted) of
          None \<Rightarrow> Inl (Bail ''decode signing-key nonce'')
        | Some nonce \<Rightarrow>
            if length nonce \<noteq> 12 then Inl (Bail ''signing-key nonce must contain exactly 12 bytes'')
            else (case b64_decode C (epk_ciphertext encrypted) of
              None \<Rightarrow> Inl (Bail ''decode encrypted signing key'')
            | Some ciphertext \<Rightarrow> (case aes_open C master nonce (signing_key_aad (key_kid key) (epk_wrapping_key_id encrypted)) ciphertext of
                None \<Rightarrow> Inl (Bail (''decrypt signing key '' @ key_kid key))
              | Some der \<Rightarrow> Inr der))))"

text \<open>\<open>value.get(name).and_then(Value::as_str)\<close>.\<close>

definition jwk_str :: "json \<Rightarrow> string \<Rightarrow> string option" where
  "jwk_str jwk name = (case jwk of JObj ms \<Rightarrow> (case map_of ms name of Some (JStr s) \<Rightarrow> Some s | _ \<Rightarrow> None) | _ \<Rightarrow> None)"

definition validate_public_jwk :: "crypto \<Rightarrow> string \<Rightarrow> json \<Rightarrow> store_error + unit" where
  "validate_public_jwk C kid jwk =
     (if jwk_str jwk ''kid'' \<noteq> Some kid \<or> jwk_str jwk ''kty'' \<noteq> Some ''EC'' \<or> jwk_str jwk ''crv'' \<noteq> Some ''P-256'' \<or>
         jwk_str jwk ''alg'' \<noteq> Some ''ES256'' \<or> jwk_str jwk ''use'' \<noteq> Some ''sig'' \<or> jwk_str jwk ''x'' = None \<or> jwk_str jwk ''y'' = None
      then Inl (Bail (''public JWK for '' @ kid @ '' is invalid''))
      else case Option.bind (jwk_str jwk ''x'') (b64_decode C) of
        None \<Rightarrow> Inl (Bail (''public JWK x coordinate for '' @ kid @ '' is invalid''))
      | Some x \<Rightarrow> (case Option.bind (jwk_str jwk ''y'') (b64_decode C) of
          None \<Rightarrow> Inl (Bail (''public JWK y coordinate for '' @ kid @ '' is invalid''))
        | Some y \<Rightarrow>
            if length x \<noteq> 32 \<or> length y \<noteq> 32 then Inl (Bail (''public JWK coordinates for '' @ kid @ '' must contain 32 bytes''))
            else if \<not> p256_sec1 C (CHR 0x04 # x @ y) then Inl (Bail (''public JWK coordinates for '' @ kid @ '' are not on P-256''))
            else Inr ()))"

definition validate_signing_key :: "'db env \<Rightarrow> crypto \<Rightarrow> KeyRing \<Rightarrow> StoredSigningKey \<Rightarrow> store_error + unit" where
  "validate_signing_key E C ring key =
     (case validate_public_jwk C (key_kid key) (key_public_jwk key) of
        Inl e \<Rightarrow> Inl e
      | Inr _ \<Rightarrow> (case open_private_key C ring key of
          Inl e \<Rightarrow> Inl e
        | Inr der \<Rightarrow> (case p256_point C der of
            None \<Rightarrow> Inl (Bail ''stored signing key is not valid P-256 PKCS#8 material'')
          | Some (x, y) \<Rightarrow>
              if jwk_str (key_public_jwk key) ''x'' \<noteq> Some (b64url E x) \<or> jwk_str (key_public_jwk key) ''y'' \<noteq> Some (b64url E y)
              then Inl (Bail (''public JWK does not match private signing key '' @ key_kid key)) else Inr ())))"

definition public_jwk_of :: "'db env \<Rightarrow> string \<Rightarrow> string \<Rightarrow> string \<Rightarrow> json" where
  "public_jwk_of E kid x y = JObj [(''kty'', JStr ''EC''), (''crv'', JStr ''P-256''), (''x'', JStr (b64url E x)), (''y'', JStr (b64url E y)),
     (''alg'', JStr ''ES256''), (''use'', JStr ''sig''), (''kid'', JStr kid)]"

definition generate :: "'db env \<Rightarrow> crypto \<Rightarrow> KeyRing \<Rightarrow> u64 \<Rightarrow> ('db, StoredSigningKey) sm" where
  "generate E C ring created_at =
     sbind (random_bytes E 32) (\<lambda>seed.
     let der = p256_generate C seed in
     sbind (ok_or (Bail ''P-256 point has no x coordinate'') (p256_point C der)) (\<lambda>(x, y).
     sbind (new_v4 E) (\<lambda>uid.
     let kid = uuid_text E uid in
     sbind (seal_private_key E C ring kid der) (\<lambda>encrypted.
     ret \<lparr>key_kid = kid, key_public_jwk = public_jwk_of E kid x y, key_created_at = created_at, key_encrypted = encrypted\<rparr>))))"

section \<open>The key set\<close>

definition KEYSET_KEY :: string where
  "KEYSET_KEY = ''auth:jwt:keyset:v1''"

definition LEGACY_SIGNING_KEY :: string where
  "LEGACY_SIGNING_KEY = ''auth:jwt:active''"

fun check_retired :: "crypto \<Rightarrow> string set \<Rightarrow> RetiredPublicKey list \<Rightarrow> store_error + unit" where
  "check_retired C kids [] = Inr ()"
| "check_retired C kids (r # rs) = (case validate_public_jwk C (retired_kid r) (retired_public_jwk r) of
     Inl e \<Rightarrow> Inl e
   | Inr _ \<Rightarrow> if retired_kid r \<in> kids then Inl (Bail (''signing keyset contains duplicate kid '' @ retired_kid r))
       else check_retired C (insert (retired_kid r) kids) rs)"

definition validate_keyset :: "'db env \<Rightarrow> crypto \<Rightarrow> KeyRing \<Rightarrow> StoredKeySet \<Rightarrow> store_error + unit" where
  "validate_keyset E C ring ks =
     (if ks_version ks \<noteq> 1 then Inl (Bail (''unsupported signing keyset version '' @ dec_string (unat (ks_version ks)))) else
      case validate_signing_key E C ring (ks_active ks) of
        Inl e \<Rightarrow> Inl e
      | Inr _ \<Rightarrow>
          let kids = {key_kid (ks_active ks)} in
          (case ks_staged ks of
             None \<Rightarrow> check_retired C kids (ks_retired ks)
           | Some staged \<Rightarrow> (case validate_signing_key E C ring (staged_key staged) of
               Inl e \<Rightarrow> Inl e
             | Inr _ \<Rightarrow> if key_kid (staged_key staged) \<in> kids then Inl (Bail (''signing keyset contains duplicate kid '' @ key_kid (staged_key staged)))
                 else check_retired C (insert (key_kid (staged_key staged)) kids) (ks_retired ks))))"

definition validate_snapshot_keyset :: "'db env \<Rightarrow> crypto \<Rightarrow> KeyRing \<Rightarrow> value \<Rightarrow> store_error + unit" where
  "validate_snapshot_keyset E C ring doc = (case as_keyset doc of None \<Rightarrow> Inl Decode | Some ks \<Rightarrow> validate_keyset E C ring ks)"

definition read_keyset :: "'db env \<Rightarrow> ('db, StoredKeySet) sm" where
  "read_keyset E = sbind (get_json E as_keyset KEYSET_KEY) (ok_or (Redis ''response is nil''))"

text \<open>The ids are those of the ring, so each of them resolves.\<close>

fun legacy_open :: "crypto \<Rightarrow> KeyRing \<Rightarrow> string \<Rightarrow> string \<Rightarrow> string list \<Rightarrow> string option" where
  "legacy_open C ring nonce ciphertext [] = None"
| "legacy_open C ring nonce ciphertext (key_id # key_ids) = (case ring_get ring key_id of
     None \<Rightarrow> None
   | Some key \<Rightarrow> (case aes_open C key nonce [] ciphertext of
       Some der \<Rightarrow> Some der | None \<Rightarrow> legacy_open C ring nonce ciphertext key_ids))"

definition migrate_legacy :: "'db env \<Rightarrow> crypto \<Rightarrow> KeyRing \<Rightarrow> LegacyStoredKey \<Rightarrow> u64 \<Rightarrow> ('db, StoredSigningKey) sm" where
  "migrate_legacy E C ring legacy current =
     sbind (ok_or (Bail ''decode legacy signing-key nonce'') (b64_decode C (legacy_nonce legacy))) (\<lambda>nonce.
     sbind (ok_or (Bail ''decode legacy encrypted signing key'') (b64_decode C (legacy_encrypted_private_key legacy))) (\<lambda>ciphertext.
     sbind (fail_if (length nonce \<noteq> 12) (Bail ''legacy signing-key nonce must contain exactly 12 bytes'')) (\<lambda>_.
     sbind (ok_or (Bail ''legacy signing key cannot be decrypted by AUTH_MASTER_KEY_HEX or its previous keys'')
         (legacy_open C ring nonce ciphertext (ring_key_ids ring))) (\<lambda>der.
     sbind (seal_private_key E C ring (legacy_kid legacy) der) (\<lambda>encrypted.
     ret \<lparr>key_kid = legacy_kid legacy, key_public_jwk = legacy_public_jwk legacy, key_created_at = current, key_encrypted = encrypted\<rparr>)))))"

definition load_or_create_keyset :: "'db env \<Rightarrow> crypto \<Rightarrow> KeyRing \<Rightarrow> u64 \<Rightarrow> ('db, StoredKeySet) sm" where
  "load_or_create_keyset E C ring current =
     sbind (get_json E as_keyset KEYSET_KEY) (\<lambda>found. case found of
       Some ks \<Rightarrow> ret ks
     | None \<Rightarrow>
         sbind (get_json E as_legacy_key LEGACY_SIGNING_KEY) (\<lambda>legacy.
         sbind (case legacy of Some legacy \<Rightarrow> migrate_legacy E C ring legacy current | None \<Rightarrow> generate E C ring current) (\<lambda>active.
         let generated = \<lparr>ks_version = 1, ks_active = active, ks_staged = None, ks_retired = []\<rparr> in
         sbind (db_cmd (sb_setnx E KEYSET_KEY (VKeySet generated) None)) (\<lambda>inserted.
         if inserted then ret generated else read_keyset E))))"

section \<open>The published keys\<close>

record RuntimeKeySet =
  rt_active_kid :: string
  rt_encoding :: string
  rt_jwks :: "json list"

definition runtime_keyset :: "'db env \<Rightarrow> crypto \<Rightarrow> KeyRing \<Rightarrow> StoredKeySet \<Rightarrow> u64 \<Rightarrow> store_error + RuntimeKeySet" where
  "runtime_keyset E C ring ks current =
     (case validate_keyset E C ring ks of
        Inl e \<Rightarrow> Inl e
      | Inr _ \<Rightarrow> (case open_private_key C ring (ks_active ks) of
          Inl e \<Rightarrow> Inl e
        | Inr der \<Rightarrow> Inr \<lparr>rt_active_kid = key_kid (ks_active ks), rt_encoding = der,
            rt_jwks = key_public_jwk (ks_active ks) #
              (case ks_staged ks of None \<Rightarrow> [] | Some staged \<Rightarrow> [key_public_jwk (staged_key staged)]) @
              map retired_public_jwk (filter (\<lambda>key. retired_publish_until key > current) (ks_retired ks))\<rparr>))"

section \<open>Rotation\<close>

definition MAINTENANCE_LOCK_KEY :: string where
  "MAINTENANCE_LOCK_KEY = ''auth:jwt:maintenance-lock''"

record SigningKeyStatus =
  st_active_kid :: string
  st_staged_kid :: "string option"
  st_staged_activates_at :: "u64 option"
  st_retired_kids :: "string list"
  st_next_rotation_at :: u64

definition status_for :: "StoredKeySet \<Rightarrow> SigningRotationConfig \<Rightarrow> SigningKeyStatus" where
  "status_for ks rotation = \<lparr>st_active_kid = key_kid (ks_active ks),
     st_staged_kid = map_option (\<lambda>s. key_kid (staged_key s)) (ks_staged ks),
     st_staged_activates_at = map_option staged_activate_at (ks_staged ks),
     st_retired_kids = map retired_kid (ks_retired ks),
     st_next_rotation_at = saturating_add (key_created_at (ks_active ks)) (rotation_seconds rotation)\<rparr>"

definition rewrap_if_needed :: "'db env \<Rightarrow> crypto \<Rightarrow> KeyRing \<Rightarrow> StoredSigningKey \<Rightarrow> ('db, StoredSigningKey) sm" where
  "rewrap_if_needed E C ring key =
     (if epk_wrapping_key_id (key_encrypted key) = entry_id (ring_active ring) then ret key else
      sbind (lift_result (open_private_key C ring key)) (\<lambda>der.
      sbind (seal_private_key E C ring (key_kid key) der) (\<lambda>encrypted.
      ret (key\<lparr>key_encrypted := encrypted\<rparr>))))"

definition activate_staged :: "SigningRotationConfig \<Rightarrow> u64 \<Rightarrow> StoredKeySet \<Rightarrow> store_error + StoredKeySet" where
  "activate_staged rotation current ks = (case ks_staged ks of
     None \<Rightarrow> Inl (Bail ''staged key is missing'')
   | Some staged \<Rightarrow>
       let previous = ks_active ks in
       Inr (ks\<lparr>ks_staged := None, ks_active := staged_key staged,
         ks_retired := filter (\<lambda>key. retired_kid key \<noteq> key_kid previous) (ks_retired ks) @
           [\<lparr>retired_kid = key_kid previous, retired_public_jwk = key_public_jwk previous,
             retired_publish_until = saturating_add current (overlap_seconds rotation)\<rparr>]\<rparr>))"

definition staged_due :: "u64 \<Rightarrow> StoredKeySet \<Rightarrow> bool" where
  "staged_due current ks = (case ks_staged ks of Some staged \<Rightarrow> staged_activate_at staged \<le> current | None \<Rightarrow> False)"

definition maintain_keyset :: "'db env \<Rightarrow> crypto \<Rightarrow> KeyRing \<Rightarrow> SigningRotationConfig \<Rightarrow> u64 \<Rightarrow> bool \<Rightarrow> bool \<Rightarrow> StoredKeySet \<Rightarrow> ('db, StoredKeySet) sm" where
  "maintain_keyset E C ring rotation current force_stage activate_immediately ks =
     (let ks = ks\<lparr>ks_retired := filter (\<lambda>key. retired_publish_until key > current) (ks_retired ks)\<rparr> in
      sbind (rewrap_if_needed E C ring (ks_active ks)) (\<lambda>active.
      let ks = ks\<lparr>ks_active := active\<rparr> in
      sbind (case ks_staged ks of
          None \<Rightarrow> ret ks
        | Some staged \<Rightarrow> sbind (rewrap_if_needed E C ring (staged_key staged)) (\<lambda>key. ret (ks\<lparr>ks_staged := Some (staged\<lparr>staged_key := key\<rparr>)\<rparr>))) (\<lambda>ks.
      if activate_immediately then
        sbind (generate E C ring current) (\<lambda>key.
        lift_result (activate_staged rotation current (ks\<lparr>ks_staged := Some \<lparr>staged_key = key, staged_activate_at = current\<rparr>\<rparr>)))
      else
        sbind (if staged_due current ks then lift_result (activate_staged rotation current ks) else ret ks) (\<lambda>ks.
        if ks_staged ks = None \<and> (force_stage \<or> current \<ge> saturating_add (key_created_at (ks_active ks)) (rotation_seconds rotation)) then
          sbind (generate E C ring current) (\<lambda>key.
          ret (ks\<lparr>ks_staged := Some \<lparr>staged_key = key, staged_activate_at = saturating_add current (prepublish_seconds rotation)\<rparr>\<rparr>))
        else ret ks))))"

definition acquire_maintenance_lock :: "'db env \<Rightarrow> ('db, string option) sm" where
  "acquire_maintenance_lock E =
     sbind (new_v4 E) (\<lambda>token.
     let token = uuid_text E token in
     sbind (db_cmd (sb_setnx E MAINTENANCE_LOCK_KEY (VStr token) (Some 60))) (\<lambda>response.
     ret (if response then Some token else None)))"

text \<open>The outcome of the release is only logged.\<close>

definition release_maintenance_lock :: "'db env \<Rightarrow> string \<Rightarrow> ('db, unit) sm" where
  "release_maintenance_lock E token =
     sbind (attempt (db_cmd (sb_delifeq E MAINTENANCE_LOCK_KEY (VStr token)))) (\<lambda>response.
     sbind (case response of
         Inl (Redis e) \<Rightarrow> if unknown_command e then attempt (db_cmd (sb_eval_cad E MAINTENANCE_LOCK_KEY (VStr token))) else ret response
       | _ \<Rightarrow> ret response) (\<lambda>released.
     ret ()))"

record JwtIssuer =
  iss_master_keys :: KeyRing
  iss_rotation :: SigningRotationConfig
  iss_runtime :: RuntimeKeySet

definition maintain_while_locked :: "'db env \<Rightarrow> crypto \<Rightarrow> JwtIssuer \<Rightarrow> u64 \<Rightarrow> bool \<Rightarrow> bool \<Rightarrow> ('db, RuntimeKeySet) sm" where
  "maintain_while_locked E C I current force_stage activate_immediately =
     sbind (read_keyset E) (\<lambda>stored.
     sbind (maintain_keyset E C (iss_master_keys I) (iss_rotation I) current force_stage activate_immediately stored) (\<lambda>ks.
     sbind (lift_result (validate_keyset E C (iss_master_keys I) ks)) (\<lambda>_.
     sbind (if ks \<noteq> stored then db_cmd (sb_exec E [SET KEYSET_KEY (VKeySet ks)]) else ret ()) (\<lambda>_.
     lift_result (runtime_keyset E C (iss_master_keys I) ks current)))))"

definition maintain_at :: "'db env \<Rightarrow> crypto \<Rightarrow> JwtIssuer \<Rightarrow> u64 \<Rightarrow> bool \<Rightarrow> bool \<Rightarrow> ('db, (store_error + unit) \<times> JwtIssuer) sm" where
  "maintain_at E C I current force_stage activate_immediately =
     with_snapshot_read (
       sbind (attempt (acquire_maintenance_lock E)) (\<lambda>lock. case lock of
         Inl e \<Rightarrow> ret (Inl e, I)
       | Inr None \<Rightarrow>
           sbind (attempt (sbind (read_keyset E) (\<lambda>ks. lift_result (runtime_keyset E C (iss_master_keys I) ks current)))) (\<lambda>r. case r of
             Inl e \<Rightarrow> ret (Inl e, I)
           | Inr runtime \<Rightarrow> ret (if force_stage then Inl (Bail ''another process is rotating signing keys; retry in a few seconds'') else Inr (),
               I\<lparr>iss_runtime := runtime\<rparr>))
       | Inr (Some token) \<Rightarrow>
           sbind (attempt (maintain_while_locked E C I current force_stage activate_immediately)) (\<lambda>r.
           sbind (release_maintenance_lock E token) (\<lambda>_. case r of
             Inl e \<Rightarrow> ret (Inl e, I)
           | Inr runtime \<Rightarrow> ret (Inr (), I\<lparr>iss_runtime := runtime\<rparr>)))))"

definition stored_status :: "'db env \<Rightarrow> JwtIssuer \<Rightarrow> ('db, SigningKeyStatus) sm" where
  "stored_status E I = sbind (read_keyset E) (\<lambda>ks. ret (status_for ks (iss_rotation I)))"

definition force_rotate :: "'db env \<Rightarrow> crypto \<Rightarrow> JwtIssuer \<Rightarrow> bool \<Rightarrow> ('db, (store_error + SigningKeyStatus) \<times> JwtIssuer) sm" where
  "force_rotate E C I activate_immediately =
     sbind (now E) (\<lambda>current.
     sbind (maintain_at E C I current True activate_immediately) (\<lambda>(r, I). case r of
       Inl e \<Rightarrow> ret (Inl e, I)
     | Inr _ \<Rightarrow> sbind (attempt (stored_status E I)) (\<lambda>status. ret (status, I))))"

definition load_or_create :: "'db env \<Rightarrow> crypto \<Rightarrow> KeyRing \<Rightarrow> SigningRotationConfig \<Rightarrow> ('db, JwtIssuer) sm" where
  "load_or_create E C ring rotation =
     sbind (now E) (\<lambda>loaded_at.
     sbind (load_or_create_keyset E C ring loaded_at) (\<lambda>ks.
     sbind (lift_result (validate_keyset E C ring ks)) (\<lambda>_.
     sbind (now E) (\<lambda>current.
     sbind (lift_result (runtime_keyset E C ring ks current)) (\<lambda>runtime.
     sbind (now E) (\<lambda>current.
     sbind (maintain_at E C \<lparr>iss_master_keys = ring, iss_rotation = rotation, iss_runtime = runtime\<rparr> current False False) (\<lambda>(r, I).
     sbind (lift_result r) (\<lambda>_. ret I))))))))"

section \<open>One maintenance run\<close>

text \<open>What a run at time \<open>c\<close> may do to the key set: drop what is no longer published, wrap private keys anew, activate
  the staged key when it is due (or a fresh one at once), and stage a fresh key.\<close>

definition pruned :: "u64 \<Rightarrow> StoredKeySet \<Rightarrow> StoredKeySet \<Rightarrow> bool" where
  "pruned c ks ks1 \<longleftrightarrow> ks_retired ks1 = filter (\<lambda>key. retired_publish_until key > c) (ks_retired ks) \<and>
     key_kid (ks_active ks1) = key_kid (ks_active ks) \<and> key_public_jwk (ks_active ks1) = key_public_jwk (ks_active ks) \<and>
     map_option (\<lambda>s. (key_kid (staged_key s), staged_activate_at s)) (ks_staged ks1) =
       map_option (\<lambda>s. (key_kid (staged_key s), staged_activate_at s)) (ks_staged ks)"

definition maintained :: "SigningRotationConfig \<Rightarrow> u64 \<Rightarrow> bool \<Rightarrow> StoredKeySet \<Rightarrow> StoredKeySet \<Rightarrow> bool" where
  "maintained rot c now_active ks ks' \<longleftrightarrow> (\<exists>ks1. pruned c ks ks1 \<and>
     (if now_active then \<exists>g. activate_staged rot c (ks1\<lparr>ks_staged := Some \<lparr>staged_key = g, staged_activate_at = c\<rparr>\<rparr>) = Inr ks'
      else \<exists>ks2. (if staged_due c ks1 then activate_staged rot c ks1 = Inr ks2 else ks2 = ks1) \<and>
        (ks' = ks2 \<or> (\<exists>g. ks_staged ks2 = None \<and> ks' = ks2\<lparr>ks_staged := Some \<lparr>staged_key = g, staged_activate_at = saturating_add c (prepublish_seconds rot)\<rparr>\<rparr>))))"

lemma seal_spec: "spec (seal_private_key E C ring kid der) (\<lambda>_ w'. keeps w w' \<and> w_db w' = w_db w) (\<lambda>_ w'. keeps w w' \<and> w_db w' = w_db w) w"
  unfolding spec_def seal_private_key_def by (auto simp: wp_simps Let_def keeps_def split: option.splits)

lemma rewrap_spec:
  "spec (rewrap_if_needed E C ring key)
     (\<lambda>k w'. keeps w w' \<and> w_db w' = w_db w \<and> key_kid k = key_kid key \<and> key_public_jwk k = key_public_jwk key) (\<lambda>_ w'. keeps w w' \<and> w_db w' = w_db w) w"
  unfolding spec_def rewrap_if_needed_def by (auto simp: wp_simps intro!: wp_use [OF seal_spec] split: sum.splits)

lemma generate_spec: "spec (generate E C ring c) (\<lambda>_ w'. keeps w w' \<and> w_db w' = w_db w) (\<lambda>_ w'. keeps w w' \<and> w_db w' = w_db w) w"
  unfolding spec_def generate_def by (auto simp: wp_simps Let_def keeps_def intro!: wp_use [OF seal_spec] split: option.splits prod.splits)

lemma maintain_keyset_spec:
  "spec (maintain_keyset E C ring rot c f a ks) (\<lambda>ks' w'. keeps w w' \<and> w_db w' = w_db w \<and> maintained rot c a ks ks') (\<lambda>_ w'. keeps w w' \<and> w_db w' = w_db w) w"
proof -
  let ?ks = "ks\<lparr>ks_retired := filter (\<lambda>key. retired_publish_until key > c) (ks_retired ks)\<rparr>"
  have tail: "wp (if a then
        sbind (generate E C ring c) (\<lambda>key.
        lift_result (activate_staged rot c (ks1\<lparr>ks_staged := Some \<lparr>staged_key = key, staged_activate_at = c\<rparr>\<rparr>)))
      else
        sbind (if staged_due c ks1 then lift_result (activate_staged rot c ks1) else ret ks1) (\<lambda>ks.
        if ks_staged ks = None \<and> (f \<or> c \<ge> saturating_add (key_created_at (ks_active ks)) (rotation_seconds rot)) then
          sbind (generate E C ring c) (\<lambda>key.
          ret (ks\<lparr>ks_staged := Some \<lparr>staged_key = key, staged_activate_at = saturating_add c (prepublish_seconds rot)\<rparr>\<rparr>))
        else ret ks))
      (on_ok (\<lambda>ks' w'. keeps w w' \<and> w_db w' = w_db w \<and> maintained rot c a ks ks') (\<lambda>_ w'. keeps w w' \<and> w_db w' = w_db w) (\<lambda>_. False)) w1"
    if p: "pruned c ks ks1" "keeps w w1" "w_db w1 = w_db w" for ks1 w1
  proof (cases a)
    case True
    have "maintained rot c True ks ks'" if "activate_staged rot c (ks1\<lparr>ks_staged := Some \<lparr>staged_key = g, staged_activate_at = c\<rparr>\<rparr>) = Inr ks'" for g ks'
      unfolding maintained_def if_True by (intro exI [of _ ks1] conjI p(1) exI [of _ g] that)
    then show ?thesis using True p(2,3) by (auto simp: wp_simps intro!: wp_use [OF generate_spec] intro: keeps_trans [OF p(2)] split: sum.splits)
  next
    case False
    have m: "maintained rot c False ks ks'" if "if staged_due c ks1 then activate_staged rot c ks1 = Inr ks2 else ks2 = ks1"
      "ks' = ks2 \<or> (\<exists>g. ks_staged ks2 = None \<and> ks' = ks2\<lparr>ks_staged := Some \<lparr>staged_key = g, staged_activate_at = saturating_add c (prepublish_seconds rot)\<rparr>\<rparr>)" for ks2 ks'
      unfolding maintained_def if_False by (intro exI [of _ ks1] conjI p(1) exI [of _ ks2] that)
    have stage: "wp (if ks_staged ks2 = None \<and> (f \<or> c \<ge> saturating_add (key_created_at (ks_active ks2)) (rotation_seconds rot)) then
          sbind (generate E C ring c) (\<lambda>key.
          ret (ks2\<lparr>ks_staged := Some \<lparr>staged_key = key, staged_activate_at = saturating_add c (prepublish_seconds rot)\<rparr>\<rparr>))
        else ret ks2) (on_ok (\<lambda>ks' w'. keeps w w' \<and> w_db w' = w_db w \<and> maintained rot c False ks ks') (\<lambda>_ w'. keeps w w' \<and> w_db w' = w_db w) (\<lambda>_. False)) w1"
      if h: "if staged_due c ks1 then activate_staged rot c ks1 = Inr ks2 else ks2 = ks1" for ks2
    proof -
      have m1: "maintained rot c False ks ks2" by (rule m [OF h]) simp
      have m2: "maintained rot c False ks (ks2\<lparr>ks_staged := Some \<lparr>staged_key = g, staged_activate_at = saturating_add c (prepublish_seconds rot)\<rparr>\<rparr>)"
        if "ks_staged ks2 = None" for g by (rule m [OF h]) (use that in blast)
      show ?thesis using p(2,3) m1 m2 keeps_trans [OF p(2)] by (auto simp: wp_simps intro!: wp_use [OF generate_spec])
    qed
    show ?thesis
    proof (cases "staged_due c ks1")
      case True
      show ?thesis
      proof (cases "activate_staged rot c ks1")
        case (Inl e)
        then show ?thesis using False True p(2,3) by (simp add: wp_simps)
      next
        case (Inr ks2)
        then show ?thesis using stage [of ks2] False True by (simp add: wp_simps)
      qed
    next
      case nd: False
      then show ?thesis using stage [of ks1] False by (simp add: wp_simps)
    qed
  qed
  show ?thesis unfolding maintain_keyset_def Let_def
  proof (rule spec_bind [OF rewrap_spec], goal_cases)
    case (1 active w1)
    let ?ks1 = "?ks\<lparr>ks_active := active\<rparr>"
    have "spec (case ks_staged ?ks1 of None \<Rightarrow> ret ?ks1
        | Some staged \<Rightarrow> sbind (rewrap_if_needed E C ring (staged_key staged)) (\<lambda>key. ret (?ks1\<lparr>ks_staged := Some (staged\<lparr>staged_key := key\<rparr>)\<rparr>)))
      (\<lambda>ks1 w2. pruned c ks ks1 \<and> keeps w w2 \<and> w_db w2 = w_db w) (\<lambda>_ w2. keeps w w2 \<and> w_db w2 = w_db w) w1"
      unfolding spec_def using 1
      by (auto simp: wp_simps pruned_def intro!: wp_use [OF rewrap_spec] intro: keeps_trans split: option.splits)
    then show ?case
    proof (rule spec_bind, goal_cases)
      case (1 ks1 w2)
      then show ?case unfolding spec_def by (intro tail) simp_all
    qed simp
  qed simp
qed

text \<open>The key ids of a set with their public keys.\<close>

definition key_list :: "StoredKeySet \<Rightarrow> (string \<times> json) list" where
  "key_list ks = (key_kid (ks_active ks), key_public_jwk (ks_active ks)) #
     (case ks_staged ks of None \<Rightarrow> [] | Some s \<Rightarrow> [(key_kid (staged_key s), key_public_jwk (staged_key s))]) @
     map (\<lambda>r. (retired_kid r, retired_public_jwk r)) (ks_retired ks)"

text \<open>The key \<open>k\<close> with public part \<open>j\<close> signs, or is published at least until \<open>u\<close>.\<close>

definition key_covered :: "u64 \<Rightarrow> string \<Rightarrow> json \<Rightarrow> StoredKeySet \<Rightarrow> bool" where
  "key_covered u k j ks \<longleftrightarrow> (if key_kid (ks_active ks) = k then key_public_jwk (ks_active ks) = j
     else \<exists>r \<in> set (ks_retired ks). retired_kid r = k \<and> retired_public_jwk r = j \<and> u \<le> retired_publish_until r)"

lemma key_covered_staged [simp]: "key_covered u k j (ks\<lparr>ks_staged := s\<rparr>) = key_covered u k j ks"
  by (simp add: key_covered_def)

lemma pruned_covers:
  assumes "pruned c ks ks1" "c < u" "key_covered u k j ks"
  shows "key_covered u k j ks1"
proof -
  have "r \<in> set (ks_retired ks1)" if "r \<in> set (ks_retired ks)" "u \<le> retired_publish_until r" for r
    using assms(1) that less_le_trans [OF assms(2) that(2)] by (simp add: pruned_def)
  then show ?thesis using assms(1,3) by (auto simp: pruned_def key_covered_def split: if_splits)
qed

lemma activate_covers:
  assumes "activate_staged rot c ks = Inr ks'" "u \<le> saturating_add c (overlap_seconds rot)" "key_covered u k j ks"
    and "key_kid (ks_active ks') \<notin> retired_kid ` set (ks_retired ks')"
  shows "key_covered u k j ks'"
  using assms by (auto simp: activate_staged_def key_covered_def Let_def image_iff split: option.splits if_splits)

lemma key_list_active: "distinct (map fst (key_list ks)) \<Longrightarrow> key_kid (ks_active ks) \<notin> retired_kid ` set (ks_retired ks)"
  by (auto simp: key_list_def)

lemma maintained_covers:
  assumes "maintained rot c a ks ks'" "c < u" "u \<le> saturating_add c (overlap_seconds rot)" "key_covered u k j ks" "distinct (map fst (key_list ks'))"
  shows "key_covered u k j ks'"
proof -
  obtain ks1 where p: "pruned c ks ks1" and ks1: "if a then \<exists>g. activate_staged rot c (ks1\<lparr>ks_staged := Some \<lparr>staged_key = g, staged_activate_at = c\<rparr>\<rparr>) = Inr ks'
      else \<exists>ks2. (if staged_due c ks1 then activate_staged rot c ks1 = Inr ks2 else ks2 = ks1) \<and>
        (ks' = ks2 \<or> (\<exists>g. ks_staged ks2 = None \<and> ks' = ks2\<lparr>ks_staged := Some \<lparr>staged_key = g, staged_activate_at = saturating_add c (prepublish_seconds rot)\<rparr>\<rparr>))"
    using assms(1) unfolding maintained_def by blast
  have c1: "key_covered u k j ks1" by (rule pruned_covers [OF p assms(2,4)])
  have d: "key_kid (ks_active ks') \<notin> retired_kid ` set (ks_retired ks')" by (rule key_list_active [OF assms(5)])
  have c2: "key_covered u k j x" if "activate_staged rot c y = Inr x" "key_covered u k j y" "ks_active x = ks_active ks'" "ks_retired x = ks_retired ks'" for x y
    by (rule activate_covers [OF that(1) assms(3) that(2)]) (use d that in simp)
  show ?thesis using ks1 c1 c2 by (auto split: if_splits)
qed

text \<open>A validated set has distinct key ids, and each public key carries its own.\<close>

lemma public_jwk_kid: "validate_public_jwk C k j = Inr u \<Longrightarrow> jwk_str j ''kid'' = Some k"
  by (auto simp: validate_public_jwk_def split: if_splits)

lemma signing_key_kid: "validate_signing_key E C ring key = Inr u \<Longrightarrow> jwk_str (key_public_jwk key) ''kid'' = Some (key_kid key)"
  by (auto simp: validate_signing_key_def public_jwk_kid split: sum.splits)

lemma check_retired_kids:
  "check_retired C kids rs = Inr u \<Longrightarrow> distinct (map retired_kid rs) \<and> (\<forall>r \<in> set rs. retired_kid r \<notin> kids \<and> jwk_str (retired_public_jwk r) ''kid'' = Some (retired_kid r))"
proof (induction rs arbitrary: kids)
  case (Cons r rs)
  then have v: "jwk_str (retired_public_jwk r) ''kid'' = Some (retired_kid r)" "retired_kid r \<notin> kids" "check_retired C (insert (retired_kid r) kids) rs = Inr u"
    by (auto simp: public_jwk_kid split: sum.splits if_splits)
  show ?case using Cons.IH [OF v(3)] v(1,2) by auto
qed simp

lemma validate_keyset_kids:
  assumes "validate_keyset E C ring ks = Inr u"
  shows "distinct (map fst (key_list ks)) \<and> (\<forall>(k, j) \<in> set (key_list ks). jwk_str j ''kid'' = Some k)"
proof (cases "ks_staged ks")
  case None
  then show ?thesis using assms check_retired_kids [of C "{key_kid (ks_active ks)}" "ks_retired ks"] signing_key_kid [of E C ring "ks_active ks"]
    by (auto simp: validate_keyset_def key_list_def Let_def comp_def split: if_splits sum.splits)
next
  case (Some s)
  then show ?thesis using assms check_retired_kids [of C "{key_kid (staged_key s), key_kid (ks_active ks)}" "ks_retired ks"]
      signing_key_kid [of E C ring "ks_active ks"] signing_key_kid [of E C ring "staged_key s"]
    by (auto simp: validate_keyset_def key_list_def Let_def comp_def split: if_splits sum.splits)
qed

lemma runtime_active: "runtime_keyset E C ring ks c = Inr rt \<Longrightarrow> rt_active_kid rt = key_kid (ks_active ks)"
  by (auto simp: runtime_keyset_def split: sum.splits)

lemma jwks_covered:
  assumes "runtime_keyset E C ring ks c = Inr rt" "key_covered u k j ks" "c < u"
  shows "j \<in> set (rt_jwks rt) \<and> (\<forall>j' \<in> set (rt_jwks rt). jwk_str j' ''kid'' = Some k \<longrightarrow> j' = j)"
proof -
  have v: "distinct (map fst (key_list ks))" "\<forall>(k, j) \<in> set (key_list ks). jwk_str j ''kid'' = Some k"
    using assms(1) validate_keyset_kids [of E C ring ks] by (auto simp: runtime_keyset_def split: sum.splits)
  have pub: "c < retired_publish_until r" if "u \<le> retired_publish_until r" for r using assms(3) that by (rule less_le_trans)
  have j: "j \<in> set (rt_jwks rt)" "(k, j) \<in> set (key_list ks)"
    using assms pub by (auto simp: runtime_keyset_def key_covered_def key_list_def split: sum.splits if_splits)
  have "j' = j" if j': "j' \<in> set (rt_jwks rt)" "jwk_str j' ''kid'' = Some k" for j'
  proof -
    have "j' \<in> snd ` set (key_list ks)"
      using assms(1) j'(1) by (auto simp: runtime_keyset_def key_list_def image_Un image_image split: sum.splits option.splits)
    then have "(k, j') \<in> set (key_list ks)" using v(2) j'(2) by auto
    then show ?thesis using eq_key_imp_eq_value [OF v(1) _ j(2)] by blast
  qed
  then show ?thesis using j(1) by blast
qed

text \<open>A scheduled run only activates a key that was staged and due.\<close>

lemma maintained_due:
  assumes "maintained rot c False ks ks'" "key_kid (ks_active ks') \<noteq> key_kid (ks_active ks)"
  shows "\<exists>s. ks_staged ks = Some s \<and> staged_activate_at s \<le> c \<and> key_kid (staged_key s) = key_kid (ks_active ks')"
proof -
  obtain ks1 ks2 where p: "pruned c ks ks1" and k: "if staged_due c ks1 then activate_staged rot c ks1 = Inr ks2 else ks2 = ks1"
    "ks' = ks2 \<or> (\<exists>g. ks_staged ks2 = None \<and> ks' = ks2\<lparr>ks_staged := Some \<lparr>staged_key = g, staged_activate_at = saturating_add c (prepublish_seconds rot)\<rparr>\<rparr>)"
    using assms(1) unfolding maintained_def if_False by (elim exE conjE)
  have ks2: "if staged_due c ks1 then activate_staged rot c ks1 = Inr ks2 else ks2 = ks1" "ks_active ks' = ks_active ks2" using k by auto
  have d: "staged_due c ks1" using ks2 p assms(2) by (auto simp: pruned_def split: if_splits)
  then obtain s1 where s1: "ks_staged ks1 = Some s1" "staged_activate_at s1 \<le> c" by (auto simp: staged_due_def split: option.splits)
  then have "ks_active ks2 = staged_key s1" using ks2(1) d by (auto simp: activate_staged_def Let_def)
  then show ?thesis using p s1 ks2(2) by (cases "ks_staged ks") (auto simp: pruned_def)
qed

section \<open>Maintenance of the stored set\<close>

text \<open>What a run leaves in the database: the set it found, or one it maintained.\<close>

definition keyset_move :: "SigningRotationConfig \<Rightarrow> u64 \<Rightarrow> bool \<Rightarrow> db_view \<Rightarrow> db_view \<Rightarrow> bool" where
  "keyset_move rot c a v v' \<longleftrightarrow> v' KEYSET_KEY = v KEYSET_KEY \<or>
     (\<exists>ks ks'. v KEYSET_KEY = Some (VKeySet ks) \<and> maintained rot c a ks ks' \<and> distinct (map fst (key_list ks')) \<and> v' KEYSET_KEY = Some (VKeySet ks'))"

context sabledb
begin

lemma read_keyset_spec:
  "spec (read_keyset E) (\<lambda>ks w'. keeps w w' \<and> content w' = content w \<and> content w KEYSET_KEY = Some (VKeySet ks)) (\<lambda>_ w'. keeps w w' \<and> content w' = content w) w"
  unfolding spec_def read_keyset_def by (auto simp: wp_simps keeps_def intro!: wp_get_json)

lemma maintain_locked_spec:
  "spec (maintain_while_locked E C I c f a)
     (\<lambda>rt w'. keeps w w' \<and> keyset_move (iss_rotation I) c a (content w) (content w') \<and>
        (\<exists>ks. content w' KEYSET_KEY = Some (VKeySet ks) \<and> runtime_keyset E C (iss_master_keys I) ks c = Inr rt))
     (\<lambda>_ w'. keeps w w' \<and> keyset_move (iss_rotation I) c a (content w) (content w')) w"
  unfolding maintain_while_locked_def
proof (rule spec_bind [OF read_keyset_spec], goal_cases)
  case (1 stored w1)
  show ?case
  proof (rule spec_bind [OF maintain_keyset_spec], goal_cases)
    case (1 ks w2)
    have w2: "keeps w w2" "content w2 = content w" "content w KEYSET_KEY = Some (VKeySet stored)" "maintained (iss_rotation I) c a stored ks"
      using 1 \<open>keeps w w1 \<and> _\<close> by (auto intro: keeps_trans)
    have same: "keyset_move (iss_rotation I) c a (content w) (content w)" by (simp add: keyset_move_def)
    show ?case
    proof (cases "validate_keyset E C (iss_master_keys I) ks")
      case (Inl e)
      then show ?thesis using w2 same by (simp add: spec_def wp_simps)
    next
      case (Inr u)
      have mv: "keyset_move (iss_rotation I) c a (content w) v" if "v KEYSET_KEY = Some (VKeySet ks)" for v
        using w2 that validate_keyset_kids [OF Inr] unfolding keyset_move_def by blast
      show ?thesis
      proof (cases "ks = stored")
        case True
        then show ?thesis using Inr w2 same by (auto simp: spec_def wp_simps split: sum.splits)
      next
        case False
        have ex: "spec (db_cmd (sb_exec E [SET KEYSET_KEY (VKeySet ks)])) (\<lambda>_ w'. keeps w w' \<and> content w' KEYSET_KEY = Some (VKeySet ks))
            (\<lambda>_ w'. keeps w w' \<and> keyset_move (iss_rotation I) c a (content w) (content w')) w2"
          using w2(1,2) mv same unfolding spec_def by (intro wp_exec) (auto simp: keeps_def)
        have "spec (sbind (db_cmd (sb_exec E [SET KEYSET_KEY (VKeySet ks)])) (\<lambda>_. lift_result (runtime_keyset E C (iss_master_keys I) ks c)))
            (\<lambda>rt w'. keeps w w' \<and> keyset_move (iss_rotation I) c a (content w) (content w') \<and>
              (\<exists>ks. content w' KEYSET_KEY = Some (VKeySet ks) \<and> runtime_keyset E C (iss_master_keys I) ks c = Inr rt))
            (\<lambda>_ w'. keeps w w' \<and> keyset_move (iss_rotation I) c a (content w) (content w')) w2"
          by (rule spec_bind [OF ex]) (use mv in \<open>auto simp: spec_def wp_simps split: sum.splits\<close>)
        then show ?thesis using Inr False by (simp add: spec_def wp_simps)
      qed
    qed
  qed (use 1 in \<open>auto simp: keyset_move_def intro: keeps_trans\<close>)
qed (auto simp: keyset_move_def)

lemma acquire_maintenance_spec:
  "spec (acquire_maintenance_lock E) (\<lambda>_ w'. keeps w w' \<and> content w' KEYSET_KEY = content w KEYSET_KEY) (\<lambda>_ w'. keeps w w' \<and> content w' KEYSET_KEY = content w KEYSET_KEY) w"
  unfolding spec_def acquire_maintenance_lock_def by (auto simp: wp_simps Let_def keeps_def KEYSET_KEY_def MAINTENANCE_LOCK_KEY_def intro!: wp_setnx)

lemma release_maintenance_spec:
  "spec (release_maintenance_lock E token) (\<lambda>_ w'. keeps w w' \<and> content w' KEYSET_KEY = content w KEYSET_KEY) (\<lambda>_ _. False) w"
  unfolding spec_def release_maintenance_lock_def
  by (auto simp: wp_simps keeps_def KEYSET_KEY_def MAINTENANCE_LOCK_KEY_def intro!: wp_cad [where c = "sb_delifeq E"] wp_cad [where c = "sb_eval_cad E"])

end

text \<open>The keys an issuer publishes are those of the stored set.\<close>

definition publishes :: "'db env \<Rightarrow> crypto \<Rightarrow> KeyRing \<Rightarrow> u64 \<Rightarrow> db_view \<Rightarrow> RuntimeKeySet \<Rightarrow> bool" where
  "publishes E C ring c v rt \<longleftrightarrow> (\<exists>ks. v KEYSET_KEY = Some (VKeySet ks) \<and> runtime_keyset E C ring ks c = Inr rt)"

lemma keyset_move_same: "v' KEYSET_KEY = v KEYSET_KEY \<Longrightarrow> keyset_move rot c a v v'"
  by (simp add: keyset_move_def)

lemma keyset_move_frame:
  "keyset_move rot c a v1 v2 \<Longrightarrow> v1 KEYSET_KEY = v KEYSET_KEY \<Longrightarrow> v' KEYSET_KEY = v2 KEYSET_KEY \<Longrightarrow> keyset_move rot c a v v'"
  by (auto simp: keyset_move_def)

lemma spec_with_snapshot_read:
  assumes "w_writer w = Free" "spec m P R (w\<lparr>w_readers := Suc (w_readers w)\<rparr>)"
    and "\<And>x w'. P x w' \<Longrightarrow> P' x (w'\<lparr>w_readers := w_readers w' - 1\<rparr>)" "\<And>e w'. R e w' \<Longrightarrow> R' e (w'\<lparr>w_readers := w_readers w' - 1\<rparr>)"
  shows "spec (with_snapshot_read m) P' R' w"
  unfolding spec_def wp_with_snapshot_read using assms(1) by (simp, intro wp_use [OF assms(2)]) (use assms(3,4) in simp_all)

lemma spec_attempt: "spec m P R w \<Longrightarrow> spec (attempt m) (\<lambda>r w'. case r of Inl e \<Rightarrow> R e w' | Inr x \<Rightarrow> P x w') (\<lambda>_ _. False) w"
  unfolding spec_def wp_attempt by (rule wp_use [of m P R]) (simp_all add: spec_def)

context sabledb
begin

lemma read_runtime_spec:
  "spec (sbind (read_keyset E) (\<lambda>ks. lift_result (runtime_keyset E C ring ks c)))
     (\<lambda>rt w'. keeps w w' \<and> content w' = content w \<and> publishes E C ring c (content w') rt) (\<lambda>_ w'. keeps w w' \<and> content w' = content w) w"
  by (rule spec_bind [OF read_keyset_spec]) (auto simp: spec_def wp_simps publishes_def split: sum.splits)

text \<open>A run always returns an issuer. Whether or not it owned the lock, a successful one publishes the stored set.\<close>

lemma maintain_at_spec:
  assumes "w_writer w = Free"
  shows "spec (maintain_at E C I c f a)
    (\<lambda>(r, I') w'. keeps w w' \<and> keyset_move (iss_rotation I) c a (content w) (content w') \<and>
       (r = Inr () \<longrightarrow> publishes E C (iss_master_keys I) c (content w') (iss_runtime I')) \<and>
       iss_master_keys I' = iss_master_keys I \<and> iss_rotation I' = iss_rotation I) (\<lambda>_ _. False) w"
    (is "spec _ (?P w) _ _")
proof -
  let ?w = "w\<lparr>w_readers := Suc (w_readers w)\<rparr>"
  have "spec (sbind (attempt (acquire_maintenance_lock E)) (\<lambda>lock. case lock of
         Inl e \<Rightarrow> ret (Inl e, I)
       | Inr None \<Rightarrow>
           sbind (attempt (sbind (read_keyset E) (\<lambda>ks. lift_result (runtime_keyset E C (iss_master_keys I) ks c)))) (\<lambda>r. case r of
             Inl e \<Rightarrow> ret (Inl e, I)
           | Inr runtime \<Rightarrow> ret (if f then Inl (Bail ''another process is rotating signing keys; retry in a few seconds'') else Inr (),
               I\<lparr>iss_runtime := runtime\<rparr>))
       | Inr (Some token) \<Rightarrow>
           sbind (attempt (maintain_while_locked E C I c f a)) (\<lambda>r.
           sbind (release_maintenance_lock E token) (\<lambda>_. case r of
             Inl e \<Rightarrow> ret (Inl e, I)
           | Inr runtime \<Rightarrow> ret (Inr (), I\<lparr>iss_runtime := runtime\<rparr>))))) (?P ?w) (\<lambda>_ _. False) ?w"
  proof (rule spec_bind [OF spec_attempt [OF acquire_maintenance_spec]], goal_cases)
    case (1 lock w1)
    then have w1: "keeps ?w w1" "content w1 KEYSET_KEY = content ?w KEYSET_KEY" by (auto split: sum.splits)
    have run: "spec (sbind (attempt (maintain_while_locked E C I c f a)) (\<lambda>r.
           sbind (release_maintenance_lock E token) (\<lambda>_. case r of
             Inl e \<Rightarrow> ret (Inl e, I)
           | Inr runtime \<Rightarrow> ret (Inr (), I\<lparr>iss_runtime := runtime\<rparr>)))) (?P ?w) (\<lambda>_ _. False) w1" for token
    proof (rule spec_bind [OF spec_attempt [OF maintain_locked_spec]], goal_cases)
      case (1 r w2)
      then have w2: "keeps w1 w2" "keyset_move (iss_rotation I) c a (content w1) (content w2)"
        "\<And>rt. r = Inr rt \<Longrightarrow> publishes E C (iss_master_keys I) c (content w2) rt" by (auto simp: publishes_def split: sum.splits)
      show ?case
      proof (rule spec_bind [OF release_maintenance_spec], goal_cases)
        case (1 u w3)
        have "keeps ?w w3" "keyset_move (iss_rotation I) c a (content ?w) (content w3)"
          using w1 w2 1 by (auto intro: keeps_trans keyset_move_frame)
        then show ?case using w2(3) 1 by (cases r) (auto simp: spec_def wp_simps publishes_def)
      qed simp
    qed simp
    have other: "spec (sbind (attempt (sbind (read_keyset E) (\<lambda>ks. lift_result (runtime_keyset E C (iss_master_keys I) ks c)))) (\<lambda>r. case r of
             Inl e \<Rightarrow> ret (Inl e, I)
           | Inr runtime \<Rightarrow> ret (if f then Inl (Bail ''another process is rotating signing keys; retry in a few seconds'') else Inr (),
               I\<lparr>iss_runtime := runtime\<rparr>))) (?P ?w) (\<lambda>_ _. False) w1"
    proof (rule spec_bind [OF spec_attempt [OF read_runtime_spec]], goal_cases)
      case (1 r w2)
      then have "keeps ?w w2" "content w2 KEYSET_KEY = content ?w KEYSET_KEY" using w1 by (auto intro: keeps_trans split: sum.splits)
      then show ?case using 1 by (auto simp: spec_def wp_simps intro: keyset_move_same split: sum.splits)
    qed simp
    have err: "spec (ret (Inl e, I)) (?P ?w) (\<lambda>_ _. False) w1" for e using w1 by (auto simp: spec_def wp_simps intro: keyset_move_same)
    consider e where "lock = Inl e" | "lock = Inr None" | token where "lock = Inr (Some token)" by (metis sum.exhaust option.exhaust)
    then show ?case by cases (simp_all only: sum.case option.case run other err)
  qed simp
  then show ?thesis unfolding maintain_at_def by (rule spec_with_snapshot_read [OF assms]) (auto simp: keeps_def)
qed

lemma load_keyset_spec:
  assumes "content w KEYSET_KEY = Some (VKeySet ks)"
  shows "spec (load_or_create_keyset E C ring c) (\<lambda>ks' w'. keeps w w' \<and> content w' = content w \<and> ks' = ks) (\<lambda>_ w'. keeps w w' \<and> content w' = content w) w"
  unfolding spec_def load_or_create_keyset_def using assms by (auto simp: wp_simps keeps_def intro!: wp_get_json)

end

section \<open>Histories of the key set\<close>

text \<open>From time \<open>t\<close> and world \<open>w\<close> on: maintenance runs of any issuer, scheduled or forced and with any outcome, and the
  start-up load of any process, at times that never go back.\<close>

inductive rotations :: "'db env \<Rightarrow> crypto \<Rightarrow> SigningRotationConfig \<Rightarrow> u64 \<Rightarrow> 'db world \<Rightarrow> u64 \<Rightarrow> 'db world \<Rightarrow> bool" for E C rot t w where
  start: "rotations E C rot t w t w"
| run: "rotations E C rot t w t1 w1 \<Longrightarrow> t1 \<le> t2 \<Longrightarrow> iss_rotation I = rot \<Longrightarrow> maintain_at E C I t2 f a w1 = (r, w2) \<Longrightarrow> rotations E C rot t w t2 w2"
| load: "rotations E C rot t w t1 w1 \<Longrightarrow> t1 \<le> t2 \<Longrightarrow> load_or_create_keyset E C ring t2 w1 = (r, w2) \<Longrightarrow> rotations E C rot t w t2 w2"

lemma rotations_time: "rotations E C rot t w t' w' \<Longrightarrow> t \<le> t'"
  by (induction rule: rotations.induct) auto

lemma keyset_move_covers:
  assumes "keyset_move rot c a v v'" "v KEYSET_KEY = Some (VKeySet ks)" "key_covered u k j ks" "c < u" "u \<le> saturating_add c (overlap_seconds rot)"
  shows "\<exists>ks'. v' KEYSET_KEY = Some (VKeySet ks') \<and> key_covered u k j ks' \<and> (ks' = ks \<or> maintained rot c a ks ks')"
  using assms(1,2,3) maintained_covers [OF _ assms(4,5)] unfolding keyset_move_def by fastforce

context sabledb
begin

lemma run_covers:
  assumes "maintain_at E C I c f a w = (r, w')" "w_writer w = Free" "content w KEYSET_KEY = Some (VKeySet ks)" "key_covered u k j ks"
    and "c < u" "u \<le> saturating_add c (overlap_seconds (iss_rotation I))"
  shows "\<exists>q I' ks'. r = Ok (q, I') \<and> w_writer w' = Free \<and> content w' KEYSET_KEY = Some (VKeySet ks') \<and> key_covered u k j ks' \<and>
    (ks' = ks \<or> maintained (iss_rotation I) c a ks ks') \<and> (q = Inr () \<longrightarrow> runtime_keyset E C (iss_master_keys I) ks' c = Inr (iss_runtime I'))"
proof -
  obtain q I' where q: "r = Ok (q, I')" "keeps w w'" "keyset_move (iss_rotation I) c a (content w) (content w')"
    "q = Inr () \<longrightarrow> publishes E C (iss_master_keys I) c (content w') (iss_runtime I')"
    using specD [OF maintain_at_spec [OF assms(2)] assms(1)] by (cases r) auto
  obtain ks' where "content w' KEYSET_KEY = Some (VKeySet ks')" "key_covered u k j ks'" "ks' = ks \<or> maintained (iss_rotation I) c a ks ks'"
    using keyset_move_covers [OF q(3) assms(3-6)] by blast
  then show ?thesis using q assms(2) by (auto simp: publishes_def keeps_def)
qed

lemma rotations_cover:
  assumes "rotations E C rot t w t' w'" "w_writer w = Free" "content w KEYSET_KEY = Some (VKeySet ks)" "key_covered u k j ks"
    and "u = saturating_add t (overlap_seconds rot)" "t' < u"
  shows "w_writer w' = Free \<and> (\<exists>ks'. content w' KEYSET_KEY = Some (VKeySet ks') \<and> key_covered u k j ks')"
  using assms(1,6)
proof (induction rule: rotations.induct)
  case start
  then show ?case using assms by blast
next
  case (run t1 w1 t2 I f a r w2)
  have "t1 < u" using run.hyps(2) run.prems by simp
  then obtain ks1 where ks1: "w_writer w1 = Free" "content w1 KEYSET_KEY = Some (VKeySet ks1)" "key_covered u k j ks1" using run.IH by blast
  have "t \<le> t2" using rotations_time [OF run.hyps(1)] run.hyps(2) by simp
  then have "u \<le> saturating_add t2 (overlap_seconds (iss_rotation I))" using assms(5) run.hyps(3) saturating_add_mono by blast
  then show ?case using run_covers [OF run.hyps(4) ks1 run.prems] by blast
next
  case (load t1 w1 t2 ring r w2)
  have "t1 < u" using load.hyps(2) load.prems by simp
  then obtain ks1 where ks1: "w_writer w1 = Free" "content w1 KEYSET_KEY = Some (VKeySet ks1)" "key_covered u k j ks1" using load.IH by blast
  then show ?case using specD [OF load_keyset_spec [OF ks1(2)] load.hyps(3)] by (cases r) (auto simp: keeps_def)
qed

end

section \<open>The primitives\<close>

text \<open>What the code relies on of its primitives: authenticated encryption opens what it sealed under the same key,
  nonce and associated data, base64 decodes what it encoded, a generated key has a public point of two
  32-byte coordinates on the curve, and the random source returns as many bytes as it is asked for.\<close>

definition crypto_laws :: "'db env \<Rightarrow> crypto \<Rightarrow> bool" where
  "crypto_laws E C \<longleftrightarrow> (\<forall>k n a p. \<exists>c. aes_seal C k n a p = Some c \<and> aes_open C k n a c = Some p) \<and>
     (\<forall>s. b64_decode C (b64url E s) = Some s) \<and>
     (\<forall>seed. \<exists>x y. p256_point C (p256_generate C seed) = Some (x, y) \<and> length x = 32 \<and> length y = 32 \<and> p256_sec1 C (CHR 0x04 # x @ y)) \<and>
     (\<forall>i n. length (env_rand E i n) = n)"

definition holds_key :: "KeyRing \<Rightarrow> KeyEntry \<Rightarrow> bool" where
  "holds_key ring e \<longleftrightarrow> ring_get ring (entry_id e) = Some (entry_key e)"

lemma holds_active: "holds_key ring (ring_active ring)"
  by (simp add: holds_key_def ring_get_def)

lemma seal_opens:
  assumes "crypto_laws E C"
  shows "\<exists>enc w'. seal_private_key E C ring kid der w = (Ok enc, w') \<and> epk_wrapping_key_id enc = entry_id (ring_active ring) \<and>
    (\<forall>ring' key. holds_key ring' (ring_active ring) \<and> key_kid key = kid \<and> key_encrypted key = enc \<longrightarrow> open_private_key C ring' key = Inr der)"
proof -
  let ?a = "signing_key_aad kid (entry_id (ring_active ring))" and ?n = "env_rand E (w_rands w) 12"
  obtain c where c: "aes_seal C (entry_key (ring_active ring)) ?n ?a der = Some c" "aes_open C (entry_key (ring_active ring)) ?n ?a c = Some der"
    using assms unfolding crypto_laws_def by blast
  have "length ?n = 12" "\<And>s. b64_decode C (b64url E s) = Some s" using assms unfolding crypto_laws_def by blast+
  then show ?thesis using c
    by (auto simp: seal_private_key_def open_private_key_def holds_key_def sbind_def random_bytes_def ret_def Let_def)
qed


text \<open>Concrete primitives that satisfy these laws: the ciphertext carries the key, the nonce and the associated data.\<close>

definition demo_crypto :: crypto where
  "demo_crypto = \<lparr>p256_generate = (\<lambda>seed. take 32 (seed @ replicate 32 CHR ''g'')), p256_point = (\<lambda>der. Some (der, der)), p256_sec1 = (\<lambda>_. True),
     aes_seal = (\<lambda>k n a p. Some (k @ n @ a @ p)),
     aes_open = (\<lambda>k n a c. if take (length (k @ n @ a)) c = k @ n @ a then Some (drop (length (k @ n @ a)) c) else None),
     b64_decode = (\<lambda>s. Some (take (length s * 3 div 4) s))\<rparr>"

lemma demo_crypto_laws: "crypto_laws (mem_env clock) demo_crypto"
proof -
  have "(length s + (length s + 2) div 3) * 3 div 4 = length s" for s :: string by presburger
  then show ?thesis by (auto simp: crypto_laws_def demo_crypto_def mem_env_sel)
qed

definition demo_ring :: "string \<Rightarrow> string \<Rightarrow> KeyRing" where
  "demo_ring uid key = \<lparr>ring_active = \<lparr>entry_id = uid, entry_key = key\<rparr>, ring_previous = []\<rparr>"

definition demo_key :: "string \<Rightarrow> string \<Rightarrow> u64 \<Rightarrow> StoredSigningKey" where
  "demo_key kid xy created = (let E = mem_env (\<lambda>_. 9); nonce = replicate 12 CHR ''n'' in
     \<lparr>key_kid = kid, key_public_jwk = public_jwk_of E kid xy xy, key_created_at = created,
      key_encrypted = \<lparr>epk_wrapping_key_id = ''m'', epk_nonce = b64url E nonce, epk_ciphertext = b64url E (''M'' @ nonce @ signing_key_aad kid ''m'' @ xy)\<rparr>\<rparr>)"

definition demo_issuer :: JwtIssuer where
  "demo_issuer = \<lparr>iss_master_keys = demo_ring ''m'' ''M'',
     iss_rotation = \<lparr>rotation_seconds = 500, prepublish_seconds = 10, overlap_seconds = 20, maintenance_seconds = 5\<rparr>,
     iss_runtime = \<lparr>rt_active_kid = ''k0'', rt_encoding = [], rt_jwks = []\<rparr>\<rparr>"

definition demo_keyset :: StoredKeySet where
  "demo_keyset = \<lparr>ks_version = 1, ks_active = demo_key ''k0'' (replicate 32 CHR ''x'') 600,
     ks_staged = Some \<lparr>staged_key = demo_key ''k1'' (replicate 32 CHR ''y'') 1000, staged_activate_at = 1010\<rparr>, ks_retired = []\<rparr>"

lemma demo_decode: "b64_decode demo_crypto (b64url (mem_env clock) s) = Some s"
  using demo_crypto_laws [of clock] by (simp add: crypto_laws_def)

lemma demo_opens: "aes_open demo_crypto k n a (k @ n @ a @ p) = Some p"
  by (simp add: demo_crypto_def)

lemma demo_ring_active [simp]: "entry_id (ring_active (demo_ring uid key)) = uid"
  by (simp add: demo_ring_def)

lemma demo_key_sel [simp]:
  "key_kid (demo_key kid xy t) = kid" "key_public_jwk (demo_key kid xy t) = public_jwk_of (mem_env (\<lambda>_. 9)) kid xy xy"
  "key_created_at (demo_key kid xy t) = t" "epk_wrapping_key_id (key_encrypted (demo_key kid xy t)) = ''m''"
  by (simp_all add: demo_key_def Let_def)

lemma demo_key_valid:
  assumes "length xy = 32"
  shows "open_private_key demo_crypto (demo_ring ''m'' ''M'') (demo_key kid xy t) = Inr xy"
    and "validate_public_jwk demo_crypto kid (public_jwk_of (mem_env (\<lambda>_. 9)) kid xy xy) = Inr ()"
    and "validate_signing_key (mem_env (\<lambda>_. 9)) demo_crypto (demo_ring ''m'' ''M'') (demo_key kid xy t) = Inr ()"
proof -
  show o: "open_private_key demo_crypto (demo_ring ''m'' ''M'') (demo_key kid xy t) = Inr xy"
    by (simp add: open_private_key_def ring_get_def demo_ring_def demo_key_def Let_def demo_decode demo_opens [of "''M''", simplified])
  show v: "validate_public_jwk demo_crypto kid (public_jwk_of (mem_env (\<lambda>_. 9)) kid xy xy) = Inr ()"
    using assms by (simp add: validate_public_jwk_def public_jwk_of_def jwk_str_def demo_decode) (simp add: demo_crypto_def)
  show "validate_signing_key (mem_env (\<lambda>_. 9)) demo_crypto (demo_ring ''m'' ''M'') (demo_key kid xy t) = Inr ()"
    using v by (simp add: validate_signing_key_def o) (simp add: demo_crypto_def public_jwk_of_def jwk_str_def)
qed

section \<open>Properties\<close>


text \<open>C40: custody of the signing keys. A generated key validates under the ring that wrapped it. A ring with a new
  master key that still holds the old one among its previous keys can always wrap it anew: the private key and the key id stay the
  same, the result is wrapped by the new master key, and it validates under every ring that holds the new one, so the
  old master key can be withdrawn.\<close>

theorem signing_key_custody:
  assumes "crypto_laws E C" "holds_key ring' (ring_active ring)"
  shows "\<exists>key w1. generate E C ring c w = (Ok key, w1) \<and> validate_signing_key E C ring key = Inr () \<and>
    (\<forall>w2. \<exists>key' w3. rewrap_if_needed E C ring' key w2 = (Ok key', w3) \<and> key_kid key' = key_kid key \<and>
       epk_wrapping_key_id (key_encrypted key') = entry_id (ring_active ring') \<and>
       (\<forall>ring''. holds_key ring'' (ring_active ring') \<longrightarrow>
          validate_signing_key E C ring'' key' = Inr () \<and> open_private_key C ring'' key' = open_private_key C ring key))"
proof -
  let ?der = "p256_generate C (env_rand E (w_rands w) 32)"
  obtain x y where xy: "p256_point C ?der = Some (x, y)" "length x = 32" "length y = 32" "p256_sec1 C (CHR 0x04 # x @ y)"
    using assms(1) unfolding crypto_laws_def by blast
  have dec: "b64_decode C (b64url E s) = Some s" for s using assms(1) unfolding crypto_laws_def by blast
  define kid where "kid = uuid_text E (env_uuid E (w_uuids w))"
  obtain enc w1 where enc: "seal_private_key E C ring kid ?der (w\<lparr>w_rands := Suc (w_rands w), w_uuids := Suc (w_uuids w)\<rparr>) = (Ok enc, w1)"
    "epk_wrapping_key_id enc = entry_id (ring_active ring)"
    "\<And>ring' key. holds_key ring' (ring_active ring) \<Longrightarrow> key_kid key = kid \<Longrightarrow> key_encrypted key = enc \<Longrightarrow> open_private_key C ring' key = Inr ?der"
    using seal_opens [OF assms(1)] by blast
  let ?key = "\<lparr>key_kid = kid, key_public_jwk = public_jwk_of E kid x y, key_created_at = c, key_encrypted = enc\<rparr>"
  have g: "generate E C ring c w = (Ok ?key, w1)"
    using xy(1) enc(1) by (simp add: generate_def sbind_def random_bytes_def ret_def new_v4_def Let_def kid_def)
  have v: "validate_signing_key E C r k = Inr ()" if "open_private_key C r k = Inr ?der" "key_kid k = kid" "key_public_jwk k = public_jwk_of E kid x y" for r k
    using that xy dec by (simp add: validate_signing_key_def validate_public_jwk_def public_jwk_of_def jwk_str_def)
  have o: "open_private_key C ring ?key = Inr ?der" "open_private_key C ring' ?key = Inr ?der"
    using enc(3) [of ring ?key] enc(3) [of ring' ?key] holds_active assms(2) by simp_all
  have "\<exists>key' w3. rewrap_if_needed E C ring' ?key w2 = (Ok key', w3) \<and> key_kid key' = kid \<and>
       epk_wrapping_key_id (key_encrypted key') = entry_id (ring_active ring') \<and>
       (\<forall>ring''. holds_key ring'' (ring_active ring') \<longrightarrow> validate_signing_key E C ring'' key' = Inr () \<and> open_private_key C ring'' key' = Inr ?der)" for w2
  proof (cases "entry_id (ring_active ring) = entry_id (ring_active ring')")
    case True
    then have "entry_key (ring_active ring') = entry_key (ring_active ring)" using assms(2) by (simp add: holds_key_def ring_get_def)
    then have "holds_key r (ring_active ring)" if "holds_key r (ring_active ring')" for r using that True by (simp add: holds_key_def)
    then show ?thesis using True enc(2) v enc(3) [of _ ?key] by (auto simp: rewrap_if_needed_def ret_def)
  next
    case False
    obtain enc' w3 where enc': "seal_private_key E C ring' kid ?der w2 = (Ok enc', w3)" "epk_wrapping_key_id enc' = entry_id (ring_active ring')"
      "\<And>r key. holds_key r (ring_active ring') \<Longrightarrow> key_kid key = kid \<Longrightarrow> key_encrypted key = enc' \<Longrightarrow> open_private_key C r key = Inr ?der"
      using seal_opens [OF assms(1)] by blast
    have "rewrap_if_needed E C ring' ?key w2 = (Ok (?key\<lparr>key_encrypted := enc'\<rparr>), w3)"
      using False enc(2) o(2) enc'(1) by (simp add: rewrap_if_needed_def sbind_def ret_def)
    then show ?thesis using enc'(2,3) v by (intro exI conjI) auto
  qed
  then show ?thesis using g o(1) v [OF o(1)] by (intro exI [of _ ?key] exI [of _ w1]) simp
qed

theorem signing_key_custody_witness:
  "let E = mem_env (\<lambda>_. 9); old = demo_ring ''a'' ''A''; new = (demo_ring ''b'' ''B'')\<lparr>ring_previous := [ring_active old]\<rparr> in
   \<exists>key w1 key' w3. generate E demo_crypto old 9 (mem_world [] []) = (Ok key, w1) \<and>
     rewrap_if_needed E demo_crypto new key w1 = (Ok key', w3) \<and> epk_wrapping_key_id (key_encrypted key') = ''b'' \<and>
     validate_signing_key E demo_crypto (demo_ring ''b'' ''B'') key' = Inr ()"
proof -
  let ?old = "demo_ring ''a'' ''A''" and ?new = "(demo_ring ''b'' ''B'')\<lparr>ring_previous := [ring_active (demo_ring ''a'' ''A'')]\<rparr>"
  have h: "holds_key ?new (ring_active ?old)" "holds_key (demo_ring ''b'' ''B'') (ring_active ?new)" "entry_id (ring_active ?new) = ''b''"
    by (simp_all add: holds_key_def ring_get_def demo_ring_def)
  then show ?thesis using signing_key_custody [OF demo_crypto_laws h(1), of "\<lambda>_. 9" 9 "mem_world [] []"] unfolding Let_def by metis
qed

end
