(* ===== verification/Spec2Isabelle.thy ===== *)
theory Spec2Isabelle
  imports Invitations OneTime Webhooks Operators ServiceAccounts Search WriterLease RemoteMutations Snapshot RateLimit SigningKeys
begin

text \<open>
  RustyAuth is an identity provider: a Rust service (\<open>src/src\<close>) that registers accounts with passkeys, keeps browser
  sessions, issues signed tokens, serves operators and service principals, delivers webhooks and pairs realms with a
  control plane. Request handlers call the operations of \<open>Store\<close> (\<open>src/src/store.rs\<close> and the modules of
  \<open>src/src/store\<close>), which keep everything in SableDB, a Redis-compatible datastore; beside them stand the issuer with its signing
  keys (\<open>src/src/jwt\<close>) and the request throttle (\<open>src/src/rate_limit.rs\<close>). This development models these
  three parts operation by operation and proves what each promises.

  \<^bold>\<open>How the parts interact.\<close> Every mutation takes the snapshot gate (for reading) and the process's mutation
  mutex, reads the records it needs, checks them and writes all its changes in one \<open>MULTI\<close>/\<open>EXEC\<close> block,
  together with the events it appends to the log. Accounts are the centre: identifiers and passkeys are indexed to them, a
  session is accepted only against the current account, an invitation is used by a registration, a recovery code
  reopens an account. Webhook delivery reads the event log by cursor and limits its retention. A snapshot takes the
  gate for writing and so sees no operation half done. The writer lease keeps other processes away from the
  database; rotation of the signing keys and the shared rate limits are the parts that run in several processes.

  \<^bold>\<open>Foundations.\<close>
  \<^item> \<open>Prelude\<close>: machine integers, byte strings and the standard-library functions the sources call.
  \<^item> \<open>Records\<close>: the stored records, field by field; a JSON document is the record it encodes.
  \<^item> \<open>Datastore\<close>: the environment \<open>E\<close> (SableDB, SHA-256, base64, UUIDs, randomness, the clock and WebAuthn are its
    fields), the state \<open>world\<close> (database, the two locks, the touch queue, the draws made so far) and the state
    functions every operation is written with. A run ends in a value, in an error, or in \<open>Stuck\<close> when the task waits for ever.
  \<^item> \<open>Datastore_Laws\<close>: the locale \<open>sabledb\<close>, the documented behaviour of each command for a client whose commands
    may fail before or after they took effect; the locale \<open>scanning\<close> for \<open>SCAN\<close>; and a weakest-precondition calculus.
  \<^item> \<open>Memory\<close>: an in-memory datastore with a schedule of failures, which interprets both locales. The concrete runs execute on it.
  \<^item> \<open>Scan\<close>, \<open>Listing\<close>: the loops that read a record family (\<open>Store::record_ids\<close> and the list operations).

  \<^bold>\<open>Components of the store.\<close>
  \<^item> \<open>EventLog\<close> (\<open>store/events.rs\<close>): the log refines a list; appending appends (C1), a page is a slice of it (C2).
  \<^item> \<open>Identifiers\<close> (\<open>store/users/identifiers.rs\<close>, \<open>profile.rs\<close>): canonical forms are bounded and stable (C3, C4).
  \<^item> \<open>Accounts\<close> (\<open>store/users/records.rs\<close>, \<open>identifiers.rs\<close>, \<open>profile.rs\<close>): the invariant \<open>accounts_ok\<close>, that every
    identifier and passkey is indexed to the one account that has it, is kept by the operations; validation of
    records, lookup, linking and removal of identifiers (C5 to C8).
  \<^item> \<open>Invitations\<close> (\<open>store/invitations.rs\<close>, \<open>create_user_with_passkey\<close>): registration is all or nothing, an invitation is used once (C9, C10).
  \<^item> \<open>Sessions\<close> (\<open>store/sessions.rs\<close>, the touch writer of \<open>store.rs\<close>): when a token authenticates, that sign-out and
    revocation are final, the batching and the lag of deferred activity, and the step-up that waits for its own lock (C11 to C16).
  \<^item> \<open>Credentials\<close> (\<open>store/credentials.rs\<close>): cloned passkeys, revocation, sign-in (C17 to C19).
  \<^item> \<open>OneTime\<close> (\<open>store/ceremonies.rs\<close>, \<open>verification.rs\<close>, \<open>recovery.rs\<close>): the locale \<open>one_time\<close> of records taken by
    \<open>GETDEL\<close>, its four instances, verification challenges and account recovery (C20 to C23).
  \<^item> \<open>Webhooks\<close> (\<open>store/webhooks.rs\<close>, \<open>prune_events_older_than\<close>): the delivery backlog and the retention of events (C24, C25).
  \<^item> \<open>Operators\<close> (\<open>store/organization.rs\<close>): who is granted the console (C26).
  \<^item> \<open>ServiceAccounts\<close> (\<open>store/service_accounts.rs\<close>): exchange and revocation of service credentials (C27, C28).
  \<^item> \<open>Search\<close> (\<open>store/users/search.rs\<close>): the bounded accumulation, paging that ends, and a listing that ends too early (C29 to C31).
  \<^item> \<open>WriterLease\<close> (\<open>store/writer_lease.rs\<close>) and \<open>RemoteMutations\<close> (\<open>store/remote_mutations.rs\<close>): step relations of the
    other processes and deliveries; the lease is exclusive and a mutation is claimed once under every interleaving (C32, C33).
  \<^item> \<open>FleetGrants\<close> (\<open>store/management.rs\<close>): pairing codes and the credentials they are exchanged for (C34, C35).
  \<^item> \<open>Snapshot\<close> (\<open>store/snapshot.rs\<close>): restore after export gives back the durable records; two key families that
    the policy does not know make every export fail (C36, C37).

  \<^bold>\<open>Throttle and signing keys.\<close>
  \<^item> \<open>RateLimit\<close> (\<open>rate_limit.rs\<close>): the locale \<open>metered\<close>, a step function with a potential that pays for what it admits,
    with the local windows and the shared counters as its instances (C38).
  \<^item> \<open>SigningKeys\<close> (\<open>jwt.rs\<close>, \<open>jwt/key_material.rs\<close>, \<open>keyset.rs\<close>, \<open>rotation.rs\<close>, \<open>runtime.rs\<close>, the key ring of \<open>config.rs\<close>):
    a key stays published for the overlap after it last signed, over any history of maintenance runs (C39), and rewrapping under a new
    master key keeps the private key (C40).

  \<^bold>\<open>Bounds and fuel.\<close> No definition takes fuel. Integers keep their width (\<open>u64\<close>, \<open>u32\<close>, \<open>u8\<close>, and \<open>i64\<close> for time
  to live), with the saturating and checked arithmetic of the code. The \<open>SCAN\<close> loops are partial functions into \<open>option\<close>: a loop
  that never ended would be \<open>Stuck\<close>, and the laws of \<open>scanning\<close>, that an iteration reports what is there and comes to an
  end, exclude it. The batch loops of export and restore are total functions with a measure.
  Theorems that an operation returns say so; \<open>Stuck\<close> is excluded for a task that starts with no lock held.

  \<^bold>\<open>Assumptions.\<close> Hypotheses on code outside the repository are the laws of the datastore locales (\<open>sabledb\<close>, \<open>scanning\<close> and,
  for a scan that reads while it iterates, \<open>scanning_reads\<close>), the lengths of random bytes and of their encoding (C19) and
  \<open>crypto_laws\<close> for the key material (C40). No theorem assumes that digests are free of collisions.
  Expiry of a volatile key is not an effect of a command; it shows as a missing key at the start of an operation. Operations of one
  process on the store are serialised by the mutation mutex, so a sequence of them is a sequence of runs; where several processes
  act, the theorem quantifies over their steps.

  \<^bold>\<open>Not modelled.\<close> The HTTP and RPC surfaces, which parse requests and call the store; token issuance and validation,
  which encode claims with a JWT library; configuration parsing; the delivery worker, backup objects and telemetry, which are
  outbound I/O; the analytics store and the multi-realm fleet store, which keep record families of their own; the
  console, a user interface. Of the modelled files, log lines, metrics and the timer loops around an operation are left out.
\<close>

end
